(* ===== verification/Prelude.thy ===== *)
theory Prelude
  imports Main "HOL-Library.Word"
begin

text \<open>
  Shared vocabulary of the development: machine integers, flat byte memory (\<open>peek\<close> and
  \<open>poke\<close>, the reads and \<open>memcpy\<close> writes of the code), little-endian encodings of
  integers, the byte swap \<open>htons\<close>, the run-time errors the models report, and the lemmas on
  lists and maps that several components use. The collection \<open>mem_simps\<close> holds the memory
  lemmas.
\<close>

unbundle bit_operations_syntax

type_synonym byte = "8 word"
type_synonym u16 = "16 word"
type_synonym u32 = "32 word"
type_synonym u64 = "64 word"

named_theorems mem_simps \<open>reading memory after a write\<close>

text \<open>
  What C++ leaves undefined or throws is an error value of the models.
\<close>

datatype runtime_error =
    Out_Of_Bounds     \<comment> \<open>a write or read past an object\<close>
  | Use_After_Free    \<comment> \<open>access through, or deletion of, a pointer that was deleted\<close>
  | Signed_Overflow   \<comment> \<open>arithmetic on signed integers outside their range\<close>
  | List_Is_Empty     \<comment> \<open>\<open>std::runtime_error("List is empty")\<close>\<close>

text \<open>Sequencing of operations that may fail: the first error stops the program.\<close>

definition and_then :: "runtime_error + 'a \<Rightarrow> ('a \<Rightarrow> runtime_error + 'b) \<Rightarrow> runtime_error + 'b" where
  "and_then r f = (case r of Inl e \<Rightarrow> Inl e | Inr x \<Rightarrow> f x)"

lemma and_then_simps [simp]: "and_then (Inl e) f = Inl e" "and_then (Inr x) f = f x"
  by (simp_all add: and_then_def)

lemma and_then_Inr_iff: "and_then r f = Inr y \<longleftrightarrow> (\<exists>x. r = Inr x \<and> f x = Inr y)"
  by (cases r) simp_all

section \<open>Flat memory\<close>

text \<open>\<open>peek\<close> reads \<open>n\<close> cells at an offset; \<open>poke\<close> overwrites cells at an offset.\<close>

definition peek :: "nat \<Rightarrow> nat \<Rightarrow> 'a list \<Rightarrow> 'a list" where
  "peek off n mem = take n (drop off mem)"

definition poke :: "nat \<Rightarrow> 'a list \<Rightarrow> 'a list \<Rightarrow> 'a list" where
  "poke off xs mem = take off mem @ xs @ drop (off + length xs) mem"

text \<open>\<open>std::memcpy\<close> into an object: defined only inside the object.\<close>

definition memcpy :: "nat \<Rightarrow> 'a list \<Rightarrow> 'a list \<Rightarrow> runtime_error + 'a list" where
  "memcpy off xs mem =
     (if off + length xs \<le> length mem then Inr (poke off xs mem) else Inl Out_Of_Bounds)"

lemma length_poke [simp, mem_simps]:
  "off + length xs \<le> length mem \<Longrightarrow> length (poke off xs mem) = length mem"
  by (simp add: poke_def)

lemma length_peek [simp, mem_simps]:
  "off + n \<le> length mem \<Longrightarrow> length (peek off n mem) = n"
  by (simp add: peek_def)

lemma peek_poke_same [mem_simps]:
  "off + n \<le> length mem \<Longrightarrow> n = length xs \<Longrightarrow> peek off n (poke off xs mem) = xs"
  by (simp add: peek_def poke_def)

lemma peek_poke_before [mem_simps]:
  assumes "i + n \<le> off" and "off + length xs \<le> length mem"
  shows "peek i n (poke off xs mem) = peek i n mem"
proof -
  have "i + n \<le> length mem" and "n \<le> length mem - i" and "n \<le> off - i"
    using assms by simp_all
  with assms show ?thesis by (simp add: peek_def poke_def drop_take take_append min_def)
qed

lemma peek_poke_after [mem_simps]:
  assumes "off + length xs \<le> i" and "off + length xs \<le> length mem"
  shows "peek i n (poke off xs mem) = peek i n mem"
proof -
  have "drop i (poke off xs mem) = drop i mem"
    using assms by (simp add: poke_def)
  then show ?thesis by (simp add: peek_def)
qed

lemma peek_poke_prefix:
  "n \<le> length xs \<Longrightarrow> off \<le> length mem \<Longrightarrow> peek off n (poke off xs mem) = take n xs"
  by (simp add: peek_def poke_def)

lemma peek_poke_within:
  "off \<le> i \<Longrightarrow> i + n \<le> off + length xs \<Longrightarrow> off \<le> length mem \<Longrightarrow>
     peek i n (poke off xs mem) = peek (i - off) n xs"
  by (simp add: peek_def poke_def)

lemma peek_take: "i + n \<le> m \<Longrightarrow> peek i n (take m xs) = peek i n xs"
  by (simp add: peek_def take_drop min_def add.commute)

lemma peek_append_left: "i + n \<le> length xs \<Longrightarrow> peek i n (xs @ ys) = peek i n xs"
  by (simp add: peek_def)

lemma memcpy_Inr_iff:
  "memcpy off xs mem = Inr m \<longleftrightarrow> off + length xs \<le> length mem \<and> m = poke off xs mem"
  by (auto simp: memcpy_def)

section \<open>Integers in memory\<close>

text \<open>
  The target is little-endian (riscv64, see the makefile): the low byte of an integer comes first.
\<close>

fun le_encode :: "nat \<Rightarrow> 'a::len word \<Rightarrow> byte list" where
  "le_encode 0 w = []"
| "le_encode (Suc n) w = ucast w # le_encode n (drop_bit 8 w)"

fun le_decode :: "byte list \<Rightarrow> 'a::len word" where
  "le_decode [] = 0"
| "le_decode (b # bs) = ucast b OR push_bit 8 (le_decode bs)"

lemma length_le_encode [simp]: "length (le_encode n w) = n"
  by (induction n arbitrary: w) auto

lemma le_decode_encode_take: "le_decode (le_encode n w) = take_bit (8 * n) w"
proof (induction n arbitrary: w)
  case 0
  show ?case by simp
next
  case (Suc n)
  have "ucast (ucast w :: byte) OR push_bit 8 (take_bit (8 * n) (drop_bit 8 w)) =
        take_bit (8 * Suc n) w"
    by (rule bit_word_eqI) (auto simp: bit_simps)
  with Suc show ?case by simp
qed

lemma le_decode_encode:
  "LENGTH('a::len) \<le> 8 * n \<Longrightarrow> le_decode (le_encode n (w :: 'a word)) = w"
  by (simp add: le_decode_encode_take take_bit_word_eq_self)

lemma le_decode_encode_u16 [simp]: "le_decode (le_encode 2 (w :: u16)) = w"
  by (rule le_decode_encode) simp

lemma le_decode_encode_u32 [simp]: "le_decode (le_encode 4 (w :: u32)) = w"
  by (rule le_decode_encode) simp

lemma le_decode_encode_u64 [simp]: "le_decode (le_encode 8 (w :: u64)) = w"
  by (rule le_decode_encode) simp

text \<open>\<open>htons\<close> and \<open>ntohs\<close> swap the two bytes on a little-endian host.\<close>

definition htons :: "u16 \<Rightarrow> u16" where
  "htons w = push_bit 8 w OR drop_bit 8 w"

definition ntohs :: "u16 \<Rightarrow> u16" where
  "ntohs w = htons w"

lemma htons_htons [simp]: "htons (htons w) = w"
  by (rule bit_word_eqI) (auto simp: htons_def bit_simps)

lemma ntohs_htons [simp]: "ntohs (htons w) = w"
  by (simp add: ntohs_def)

section \<open>Counting in lists\<close>

text \<open>
  Threads are lists of program counters; the number of threads in a set of program points changes
  by at most one when one thread moves.
\<close>

definition count_if :: "('a \<Rightarrow> bool) \<Rightarrow> 'a list \<Rightarrow> nat" where
  "count_if P xs = length (filter P xs)"

lemma count_if_simps [simp]:
  "count_if P [] = 0"
  "count_if P (x # xs) = (if P x then Suc (count_if P xs) else count_if P xs)"
  by (simp_all add: count_if_def)

lemma count_if_append [simp]: "count_if P (xs @ ys) = count_if P xs + count_if P ys"
  by (simp add: count_if_def)

lemma count_if_replicate [simp]: "count_if P (replicate n x) = (if P x then n else 0)"
  by (simp add: count_if_def)

lemma count_if_update:
  "i < length xs \<Longrightarrow>
     count_if P (xs[i := y]) + (if P (xs ! i) then 1 else 0) =
     count_if P xs + (if P y then 1 else 0)"
proof (induction xs arbitrary: i)
  case Nil
  then show ?case by simp
next
  case (Cons x xs)
  then show ?case by (cases i) (use Cons.IH in force)+
qed

lemma count_if_pos: "i < length xs \<Longrightarrow> P (xs ! i) \<Longrightarrow> 0 < count_if P xs"
  using nth_mem [of i xs] by (auto simp: count_if_def filter_empty_conv)

lemma count_if_le_length: "count_if P xs \<le> length xs"
  by (simp add: count_if_def)

lemma count_if_two:
  assumes "i < length xs" and "j < length xs" and "i \<noteq> j" and "P (xs ! i)" and "P (xs ! j)"
  shows "2 \<le> count_if P xs"
proof -
  have "card {i, j} \<le> card {k. k < length xs \<and> P (xs ! k)}"
    using assms by (intro card_mono) auto
  then show ?thesis using \<open>i \<noteq> j\<close> by (simp add: count_if_def length_filter_conv_card)
qed

section \<open>First index\<close>

text \<open>The loops that scan an array for the first element with a property.\<close>

fun first_index :: "('a \<Rightarrow> bool) \<Rightarrow> 'a list \<Rightarrow> nat option" where
  "first_index P [] = None"
| "first_index P (x # xs) = (if P x then Some 0 else map_option Suc (first_index P xs))"

lemma first_index_Some:
  "first_index P xs = Some i \<longleftrightarrow> i < length xs \<and> P (xs ! i) \<and> (\<forall>j<i. \<not> P (xs ! j))"
proof (induction xs arbitrary: i)
  case Nil
  show ?case by simp
next
  case (Cons x xs)
  then show ?case by (cases i) (auto simp: nth_Cons' split: if_splits)
qed

lemma first_index_None: "first_index P xs = None \<longleftrightarrow> (\<forall>x\<in>set xs. \<not> P x)"
  by (induction xs) auto

section \<open>Step relations\<close>

text \<open>
  The states some number of steps leads to, and the way every safety property of a step relation is
  shown: an invariant that holds at the start and is kept by each step holds in every reachable
  state. A component with threads interprets \<open>step_invariant\<close> with its own relation and
  invariant.
\<close>

inductive reachable :: "('s \<Rightarrow> 's \<Rightarrow> bool) \<Rightarrow> 's \<Rightarrow> 's \<Rightarrow> bool" for step start where
  reach_start: "reachable step start start"
| reach_step: "reachable step start s \<Longrightarrow> step s t \<Longrightarrow> reachable step start t"

locale step_invariant =
  fixes step :: "'s \<Rightarrow> 's \<Rightarrow> bool" and inv :: "'s \<Rightarrow> bool"
  assumes kept: "step s t \<Longrightarrow> inv s \<Longrightarrow> inv t"
begin

lemma reachable_inv: "reachable step s0 s \<Longrightarrow> inv s0 \<Longrightarrow> inv s"
  by (induction rule: reachable.induct) (blast intro: kept)+

end

section \<open>Refinement\<close>

text \<open>
  A run of operations that may fail, the abstract actions it stands for, and the condition that
  every operation was allowed where it was called. A component refines its specification when each
  allowed operation succeeds, keeps the invariant and acts on the abstract state as its label says;
  whole runs then do too.
\<close>

fun run_all :: "('o \<Rightarrow> 's \<Rightarrow> 'e + 's) \<Rightarrow> 'o list \<Rightarrow> 's \<Rightarrow> 'e + 's" where
  "run_all exec [] s = Inr s"
| "run_all exec (x # xs) s = (case exec x s of Inl e \<Rightarrow> Inl e | Inr t \<Rightarrow> run_all exec xs t)"

fun run_labels :: "('o \<Rightarrow> 's \<Rightarrow> 'e + 's) \<Rightarrow> ('o \<Rightarrow> 's \<Rightarrow> 'l) \<Rightarrow> 'o list \<Rightarrow> 's \<Rightarrow> 'l list" where
  "run_labels exec label [] s = []"
| "run_labels exec label (x # xs) s =
     label x s # (case exec x s of Inl e \<Rightarrow> [] | Inr t \<Rightarrow> run_labels exec label xs t)"

fun run_allowed :: "('o \<Rightarrow> 's \<Rightarrow> 'e + 's) \<Rightarrow> ('o \<Rightarrow> 's \<Rightarrow> bool) \<Rightarrow> 'o list \<Rightarrow> 's \<Rightarrow> bool" where
  "run_allowed exec allowed [] s = True"
| "run_allowed exec allowed (x # xs) s \<longleftrightarrow>
     allowed x s \<and> (case exec x s of Inl e \<Rightarrow> True | Inr t \<Rightarrow> run_allowed exec allowed xs t)"

locale simulation =
  fixes exec :: "'o \<Rightarrow> 's \<Rightarrow> 'e + 's" and allowed :: "'o \<Rightarrow> 's \<Rightarrow> bool" and inv :: "'s \<Rightarrow> bool"
    and label :: "'o \<Rightarrow> 's \<Rightarrow> 'l" and act :: "'l \<Rightarrow> 'a \<Rightarrow> 'a" and abs :: "'s \<Rightarrow> 'a"
  assumes simulates: "inv s \<Longrightarrow> allowed x s \<Longrightarrow>
      \<exists>t. exec x s = Inr t \<and> inv t \<and> abs t = act (label x s) (abs s)"
begin

lemma run_simulates:
  "inv s \<Longrightarrow> run_allowed exec allowed xs s \<Longrightarrow>
     \<exists>t. run_all exec xs s = Inr t \<and> inv t \<and> abs t = fold act (run_labels exec label xs s) (abs s)"
proof (induction xs arbitrary: s)
  case Nil
  then show ?case by simp
next
  case (Cons x xs)
  then obtain t where t: "exec x s = Inr t" "inv t" "abs t = act (label x s) (abs s)"
    using simulates [of s x] by auto
  with Cons.IH [OF t(2)] Cons.prems show ?case by auto
qed

end

end
