(* ===== verification/Wire.thy ===== *)
theory Wire
  imports Prelude
begin

text \<open>
  What travels: the Ethernet frame (\<open>ethernet.hpp\<close>), the protocol header inside it
  (\<open>protocol.hpp\<close>), the packed payload structures (\<open>ptp_frame.hpp\<close>,
  \<open>messages.hpp\<close>) and the \<open>Message\<close> class (\<open>message.hpp\<close>). A frame is its 1514
  bytes of memory; the packed structures are records with an encoding into bytes. The locale
  \<open>codec\<close> is what the code relies on when it casts a byte buffer to a packed structure.
\<close>

section \<open>Packed structures\<close>

locale codec =
  fixes enc :: "'a \<Rightarrow> byte list" and dec :: "byte list \<Rightarrow> 'a" and width :: nat
  assumes enc_length: "length (enc x) = width"
    and dec_enc: "dec (enc x) = x"
begin

lemma enc_inj: "enc x = enc y \<longleftrightarrow> x = y"
  using dec_enc by metis

lemma cast_after_write:
  "off + width \<le> length mem \<Longrightarrow> dec (peek off width (poke off (enc x) mem)) = x"
  by (simp add: peek_poke_same enc_length dec_enc)

lemma cast_undisturbed:
  "off + length xs \<le> length mem \<Longrightarrow> i + width \<le> off \<or> off + length xs \<le> i \<Longrightarrow>
     dec (peek i width (poke off xs mem)) = dec (peek i width mem)"
  by (auto simp: peek_poke_before peek_poke_after)

end

section \<open>Ethernet\<close>

text \<open>A MAC address is its six bytes.\<close>

type_synonym mac = "byte list"

definition MTU :: nat where "MTU = 1500"

definition BROADCAST :: mac where "BROADCAST = replicate 6 0xff"

text \<open>\<open>Ethernet::Frame\<close> is packed: destination, source, type, data.\<close>

type_synonym frame = "byte list"

definition frame_size :: nat where "frame_size = 6 + 6 + 2 + MTU"

definition frame_dst :: "frame \<Rightarrow> mac" where "frame_dst f = peek 0 6 f"
definition frame_src :: "frame \<Rightarrow> mac" where "frame_src f = peek 6 6 f"
definition frame_type :: "frame \<Rightarrow> u16" where "frame_type f = le_decode (peek 12 2 f)"
definition frame_data :: "frame \<Rightarrow> byte list" where "frame_data f = drop 14 f"

definition set_frame_dst :: "mac \<Rightarrow> frame \<Rightarrow> frame" where
  "set_frame_dst a f = poke 0 a f"
definition set_frame_src :: "mac \<Rightarrow> frame \<Rightarrow> frame" where
  "set_frame_src a f = poke 6 a f"
definition set_frame_type :: "u16 \<Rightarrow> frame \<Rightarrow> frame" where
  "set_frame_type t f = poke 12 (le_encode 2 t) f"

section \<open>Protocol addresses and header\<close>

text \<open>\<open>Traits<ProtocolT>\<close>, \<open>Traits<NICT>\<close> and the reserved ports.\<close>

definition PROTO :: u16 where "PROTO = 0x8888"
definition BUFFER_COUNT :: nat where "BUFFER_COUNT = 64 + 64"

definition PORT_GATEWAY :: u16 where "PORT_GATEWAY = 1000"
definition PORT_SENSOR :: u16 where "PORT_SENSOR = 1001"
definition PORT_ACTUATOR :: u16 where "PORT_ACTUATOR = 1002"
definition PORT_POWERTRAIN :: u16 where "PORT_POWERTRAIN = 1003"
definition PORT_TIME_CLIENT :: u16 where "PORT_TIME_CLIENT = 1004"
definition PORT_RSU :: u16 where "PORT_RSU = 9999"

record address =
  paddr :: mac
  port :: u16

definition address_valid :: "address \<Rightarrow> bool" where  \<comment> \<open>\<open>operator bool\<close>\<close>
  "address_valid a \<longleftrightarrow> port a \<noteq> 0"

definition ADDRESS_BROADCAST :: address where
  "ADDRESS_BROADCAST = \<lparr>paddr = BROADCAST, port = 0\<rparr>"

text \<open>The header's integers are held here as they are in memory, after \<open>htons\<close>.\<close>

record header =
  src_port :: u16
  dst_port :: u16
  payload_size :: u16
  src_quadrant :: byte

definition header_size :: nat where "header_size = 2 + 2 + 2 + 1"

definition enc_header :: "header \<Rightarrow> byte list" where
  "enc_header h = le_encode 2 (src_port h) @ le_encode 2 (dst_port h) @
     le_encode 2 (payload_size h) @ [src_quadrant h]"

definition dec_header :: "byte list \<Rightarrow> header" where
  "dec_header bs = \<lparr>src_port = le_decode (peek 0 2 bs), dst_port = le_decode (peek 2 2 bs),
     payload_size = le_decode (peek 4 2 bs), src_quadrant = bs ! 6\<rparr>"

definition PROTOCOL_MTU :: nat where "PROTOCOL_MTU = MTU - header_size"

text \<open>\<open>buf->data<Packet>()\<close>: the header and the payload of a frame in memory.\<close>

definition pkt_header :: "frame \<Rightarrow> header" where
  "pkt_header f = dec_header (peek 14 header_size f)"

definition pkt_data :: "frame \<Rightarrow> byte list" where
  "pkt_data f = drop (14 + header_size) f"

section \<open>Payload structures\<close>

record ptp_frame =
  message_type :: byte
  timestamp :: u64
  seq :: u32

definition sizeof_ptp :: nat where "sizeof_ptp = 1 + 8 + 4"

definition enc_ptp :: "ptp_frame \<Rightarrow> byte list" where
  "enc_ptp p = message_type p # le_encode 8 (timestamp p) @ le_encode 4 (seq p)"

definition dec_ptp :: "byte list \<Rightarrow> ptp_frame" where
  "dec_ptp bs = \<lparr>message_type = bs ! 0, timestamp = le_decode (peek 1 8 bs),
     seq = le_decode (peek 9 4 bs)\<rparr>"

definition INTEREST :: byte where "INTEREST = 0"
definition RESPONSE :: byte where "RESPONSE = 1"

record interest_msg =
  i_kind :: byte
  i_origin :: byte
  i_timestamp :: u64
  i_type :: u32
  i_period :: u64

definition sizeof_interest :: nat where "sizeof_interest = 1 + 1 + 8 + 4 + 8"

definition enc_interest :: "interest_msg \<Rightarrow> byte list" where
  "enc_interest m = i_kind m # i_origin m # le_encode 8 (i_timestamp m) @
     le_encode 4 (i_type m) @ le_encode 8 (i_period m)"

definition dec_interest :: "byte list \<Rightarrow> interest_msg" where
  "dec_interest bs = \<lparr>i_kind = bs ! 0, i_origin = bs ! 1, i_timestamp = le_decode (peek 2 8 bs),
     i_type = le_decode (peek 10 4 bs), i_period = le_decode (peek 14 8 bs)\<rparr>"

text \<open>The \<open>double\<close> of a response is held as its 64 bits.\<close>

record response_msg =
  r_kind :: byte
  r_origin :: byte
  r_timestamp :: u64
  r_type :: u32
  r_value :: u64

definition sizeof_response :: nat where "sizeof_response = 1 + 1 + 8 + 4 + 8"

definition enc_response :: "response_msg \<Rightarrow> byte list" where
  "enc_response m = r_kind m # r_origin m # le_encode 8 (r_timestamp m) @
     le_encode 4 (r_type m) @ le_encode 8 (r_value m)"

definition dec_response :: "byte list \<Rightarrow> response_msg" where
  "dec_response bs = \<lparr>r_kind = bs ! 0, r_origin = bs ! 1, r_timestamp = le_decode (peek 2 8 bs),
     r_type = le_decode (peek 10 4 bs), r_value = le_decode (peek 14 8 bs)\<rparr>"

lemmas codec_defs = peek_def
  enc_header_def dec_header_def header_size_def
  enc_ptp_def dec_ptp_def sizeof_ptp_def
  enc_interest_def dec_interest_def sizeof_interest_def
  enc_response_def dec_response_def sizeof_response_def

interpretation header_codec: codec enc_header dec_header header_size
  by unfold_locales (simp_all add: codec_defs nth_append)

interpretation ptp_codec: codec enc_ptp dec_ptp sizeof_ptp
  by unfold_locales (simp_all add: codec_defs nth_append)

interpretation interest_codec: codec enc_interest dec_interest sizeof_interest
  by unfold_locales (simp_all add: codec_defs nth_append)

interpretation response_codec: codec enc_response dec_response sizeof_response
  by unfold_locales (simp_all add: codec_defs nth_append)

section \<open>Message\<close>

definition MAX_SIZE :: nat where "MAX_SIZE = 1024"

record message =
  m_data :: "byte list"
  m_size :: nat
  m_src :: mac
  m_origin :: byte
  m_timestamp :: u64
  m_data_type :: u32
  m_msg_type :: byte

text \<open>
  \<open>Message()\<close> sets the data, the size and the origin; the other members keep whatever the
  memory held (\<open>junk\<close>).
\<close>

definition new_message :: "message \<Rightarrow> message" where
  "new_message junk = junk\<lparr>m_data := replicate MAX_SIZE 0, m_size := 0, m_origin := 0\<rparr>"

text \<open>The constructor with contents copies \<open>size\<close> bytes into the 1024-byte array, unchecked.\<close>

definition new_message_from ::
    "message \<Rightarrow> mac \<Rightarrow> byte list \<Rightarrow> nat \<Rightarrow> u64 \<Rightarrow> runtime_error + message" where
  "new_message_from junk src dat sz ts =
     (case memcpy 0 (take sz dat) (m_data junk) of
        Inl e \<Rightarrow> Inl e
      | Inr d \<Rightarrow> Inr (junk\<lparr>m_origin := 0, m_size := sz, m_timestamp := ts,
                            m_data := d, m_src := src\<rparr>))"

definition set_size :: "nat \<Rightarrow> message \<Rightarrow> message" where "set_size s m = m\<lparr>m_size := s\<rparr>"
definition set_src :: "mac \<Rightarrow> message \<Rightarrow> message" where "set_src a m = m\<lparr>m_src := a\<rparr>"
definition set_origin :: "byte \<Rightarrow> message \<Rightarrow> message" where
  "set_origin q m = m\<lparr>m_origin := q AND 0x3\<rparr>"
definition origin :: "message \<Rightarrow> byte" where "origin m = m_origin m AND 0x3"

text \<open>Copying a payload into the message and recording its size, as every sender does.\<close>

definition fill_message :: "byte list \<Rightarrow> message \<Rightarrow> runtime_error + message" where
  "fill_message bs m =
     (case memcpy 0 bs (m_data m) of Inl e \<Rightarrow> Inl e
      | Inr d \<Rightarrow> Inr (set_size (length bs) (m\<lparr>m_data := d\<rparr>)))"

definition message_ok :: "message \<Rightarrow> bool" where
  "message_ok m \<longleftrightarrow> length (m_data m) = MAX_SIZE \<and> m_size m \<le> MAX_SIZE"

definition msg_bytes :: "message \<Rightarrow> byte list" where
  "msg_bytes m = take (m_size m) (m_data m)"

lemma message_ok_new [simp]: "message_ok (new_message junk)"
  by (simp add: message_ok_def new_message_def)

lemma fill_message_ok:
  assumes "message_ok m" and "length bs \<le> MAX_SIZE"
  obtains m' where "fill_message bs m = Inr m'" and "message_ok m'" and "msg_bytes m' = bs"
    and "m_size m' = length bs" and "m_src m' = m_src m" and "take (length bs) (m_data m') = bs"
  using assms
  by (auto simp: fill_message_def memcpy_def message_ok_def msg_bytes_def set_size_def poke_def)

lemma origin_set_origin: "origin (set_origin q m) = q AND 0x3"
  by (simp add: origin_def set_origin_def and.assoc)

text \<open>
  The packed structures have the sizes the code uses (13 and 22 bytes) and a structure written
  with \<open>memcpy\<close> and read back by a pointer cast is unchanged.
\<close>

theorem packed_structs_roundtrip:
  "length (enc_ptp p) = 13 \<and> dec_ptp (enc_ptp p) = p \<and>
   length (enc_interest i) = 22 \<and> dec_interest (enc_interest i) = i \<and>
   length (enc_response r) = 22 \<and> dec_response (enc_response r) = r \<and>
   length (enc_header h) = 7 \<and> dec_header (enc_header h) = h"
  using ptp_codec.enc_length ptp_codec.dec_enc interest_codec.enc_length interest_codec.dec_enc
    response_codec.enc_length response_codec.dec_enc header_codec.enc_length header_codec.dec_enc
  by (simp add: sizeof_ptp_def sizeof_interest_def sizeof_response_def header_size_def)

end
