(* ===== verification/Observe.thy ===== *)
theory Observe
  imports Prelude
begin

text \<open>
  The containers and the observer pattern: \<open>List\<close> (\<open>list.hpp\<close>),
  \<open>Ordered_List\<close> (\<open>ordered_list.hpp\<close>), \<open>ConditionalObserved\<close>
  (\<open>conditional.hpp\<close>), \<open>Semaphore\<close> and \<open>ConcurrentObserver\<close>
  (\<open>semaphore.hpp\<close>, \<open>concurrent.hpp\<close>). The locale \<open>fifo\<close> is what
  \<open>ConcurrentObserver\<close> relies on in \<open>List\<close>; the locale \<open>subject\<close> is what the
  layers of the stack rely on when they attach, detach and notify. The last section models
  \<open>ConcurrentObserver\<close> with any number of threads, each mutex-protected call one step.
\<close>

section \<open>List\<close>

definition list_insert :: "'a \<Rightarrow> 'a list \<Rightarrow> 'a list" where
  "list_insert obj l = l @ [obj]"

fun list_remove :: "'a list \<Rightarrow> runtime_error + ('a \<times> 'a list)" where
  "list_remove [] = Inl List_Is_Empty"
| "list_remove (obj # l) = Inr (obj, l)"

definition list_empty :: "'a list \<Rightarrow> bool" where "list_empty l \<longleftrightarrow> l = []"
definition list_size :: "'a list \<Rightarrow> nat" where "list_size l = length l"

locale fifo =
  fixes ins :: "'a \<Rightarrow> 'q \<Rightarrow> 'q"
    and pop :: "'q \<Rightarrow> runtime_error + ('a \<times> 'q)"
    and is_empty :: "'q \<Rightarrow> bool"
    and contents :: "'q \<Rightarrow> 'a list"
  assumes contents_ins: "contents (ins x q) = contents q @ [x]"
    and pop_empty: "contents q = [] \<Longrightarrow> pop q = Inl List_Is_Empty"
    and pop_front: "contents q = x # xs \<Longrightarrow> \<exists>q'. pop q = Inr (x, q') \<and> contents q' = xs"
    and is_empty_iff: "is_empty q \<longleftrightarrow> contents q = []"
begin

lemma pop_InrD: "pop q = Inr (x, q') \<Longrightarrow> contents q = x # contents q'"
  using pop_empty [of q] pop_front [of q] by (cases "contents q") fastforce+

lemma pop_nonempty: "\<not> is_empty q \<Longrightarrow> \<exists>x q'. pop q = Inr (x, q')"
  using pop_front [of q] by (cases "contents q") (auto simp: is_empty_iff)

lemma pop_Inl_iff: "pop q = Inl e \<longleftrightarrow> is_empty q \<and> e = List_Is_Empty"
  using pop_empty [of q] pop_front [of q] by (cases "contents q") (auto simp: is_empty_iff)

lemma contents_ins_all: "contents (fold ins xs q) = contents q @ xs"
  by (induction xs arbitrary: q) (auto simp: contents_ins)

lemma ins_all_pop:
  assumes "is_empty q" and "pop (fold ins (x # xs) q) = Inr (y, q')"
  shows "y = x \<and> contents q' = xs"
proof -
  have "contents (fold ins (x # xs) q) = x # xs"
    using assms(1) contents_ins_all [of "x # xs" q] by (simp add: is_empty_iff)
  with pop_InrD [OF assms(2)] show ?thesis by simp
qed

end

interpretation lst: fifo list_insert list_remove list_empty "\<lambda>l. l"
  by unfold_locales (auto simp: list_insert_def list_empty_def)

lemma list_remove_Inr [simp]: "list_remove l = Inr (x, l') \<longleftrightarrow> l = x # l'"
  by (cases l) auto

section \<open>Ordered\_List\<close>

text \<open>
  \<open>insert\<close> walks past the entries of smaller rank and inserts before the first other entry,
  so before the entries of equal rank.
\<close>

fun ol_insert :: "'o \<Rightarrow> 'c::linorder \<Rightarrow> ('c \<times> 'o) list \<Rightarrow> ('c \<times> 'o) list" where
  "ol_insert obj rank [] = [(rank, obj)]"
| "ol_insert obj rank (p # ps) =
     (if fst p < rank then p # ol_insert obj rank ps else (rank, obj) # p # ps)"

definition ol_remove :: "'o \<Rightarrow> ('c \<times> 'o) list \<Rightarrow> ('c \<times> 'o) list" where
  "ol_remove obj ps = filter (\<lambda>p. snd p \<noteq> obj) ps"

lemma set_ol_insert [simp]: "set (ol_insert obj rank ps) = insert (rank, obj) (set ps)"
  by (induction ps) auto

lemma sorted_ol_insert: "sorted (map fst ps) \<Longrightarrow> sorted (map fst (ol_insert obj rank ps))"
  by (induction ps) (auto simp: less_imp_le)

lemma sorted_ol_remove: "sorted (map fst ps) \<Longrightarrow> sorted (map fst (ol_remove obj ps))"
  by (simp add: ol_remove_def sorted_filter)

section \<open>ConditionalObserved\<close>

definition attach :: "'o \<Rightarrow> 'c::linorder \<Rightarrow> ('c \<times> 'o) list \<Rightarrow> ('c \<times> 'o) list" where
  "attach obs c os = ol_insert obs c os"

text \<open>The condition argument of \<open>detach\<close> is not used by the code.\<close>

definition detach :: "'o \<Rightarrow> 'c \<Rightarrow> ('c \<times> 'o) list \<Rightarrow> ('c \<times> 'o) list" where
  "detach obs c os = ol_remove obs os"

text \<open>\<open>upd\<close> is the observer's \<open>update(c, d)\<close>, a change of the program's state.\<close>

fun notify_loop :: "'c \<Rightarrow> ('o \<Rightarrow> 's \<Rightarrow> 's) \<Rightarrow> ('c \<times> 'o) list \<Rightarrow> bool \<Rightarrow> 's \<Rightarrow> bool \<times> 's" where
  "notify_loop c upd [] notified s = (notified, s)"
| "notify_loop c upd ((rank, obs) # os) notified s =
     (if rank = c then notify_loop c upd os True (upd obs s)
      else notify_loop c upd os notified s)"

definition notify :: "('c \<times> 'o) list \<Rightarrow> 'c \<Rightarrow> ('o \<Rightarrow> 's \<Rightarrow> 's) \<Rightarrow> 's \<Rightarrow> bool \<times> 's" where
  "notify os c upd s = notify_loop c upd os False s"

text \<open>The observers a notification reaches, in the order it reaches them.\<close>

definition receivers :: "('c \<times> 'o) list \<Rightarrow> 'c \<Rightarrow> 'o list" where
  "receivers os c = map snd (filter (\<lambda>p. fst p = c) os)"

lemma receivers_simps [simp]:
  "receivers [] c = []"
  "receivers ((r, ob) # os) c = (if r = c then ob # receivers os c else receivers os c)"
  by (simp_all add: receivers_def)

lemma notify_loop_eq:
  "notify_loop c upd os b s = (b \<or> receivers os c \<noteq> [], fold upd (receivers os c) s)"
  by (induction c upd os b s rule: notify_loop.induct) auto

lemma notify_eq: "notify os c upd s = (receivers os c \<noteq> [], fold upd (receivers os c) s)"
  by (simp add: notify_def notify_loop_eq)

locale subject =
  fixes att :: "'o \<Rightarrow> 'c \<Rightarrow> 'l \<Rightarrow> 'l"
    and det :: "'o \<Rightarrow> 'c \<Rightarrow> 'l \<Rightarrow> 'l"
    and recv :: "'l \<Rightarrow> 'c \<Rightarrow> 'o list"
  assumes recv_att: "recv (att ob c l) c' = (if c' = c then ob # recv l c' else recv l c')"
    and recv_det: "recv (det ob c l) c' = filter (\<lambda>x. x \<noteq> ob) (recv l c')"
begin

lemma recv_att_all: "recv (fold (\<lambda>ob. att ob c) obs l) c = rev obs @ recv l c"
  by (induction obs arbitrary: l) (auto simp: recv_att)

lemma recv_att_other: "c' \<noteq> c \<Longrightarrow> recv (fold (\<lambda>ob. att ob c) obs l) c' = recv l c'"
  by (induction obs arbitrary: l) (auto simp: recv_att)

lemma det_att_cancel:
  "(\<And>k. ob \<notin> set (recv l k)) \<Longrightarrow> recv (det ob c' (att ob c l)) k = recv l k"
  by (auto simp: recv_det recv_att intro!: filter_True)

lemma det_silences: "ob \<notin> set (recv (det ob c l) k)"
  by (simp add: recv_det)

lemma count_recv_att:
  "count_list (recv (att ob c l) c') x =
     count_list (recv l c') x + (if c' = c \<and> x = ob then 1 else 0)"
  by (simp add: recv_att)

end

lemma receivers_ol_insert:
  "receivers (ol_insert ob c os) c' = (if c' = c then ob # receivers os c' else receivers os c')"
proof (induction os)
  case Nil
  show ?case by simp
next
  case (Cons p os)
  then show ?case by (cases p) auto
qed

lemma receivers_ol_remove:
  "receivers (ol_remove ob os) c = filter (\<lambda>x. x \<noteq> ob) (receivers os c)"
  by (induction os) (auto simp: ol_remove_def)

interpretation obs: subject attach detach receivers
  by unfold_locales
    (simp_all add: attach_def detach_def receivers_ol_insert receivers_ol_remove)

text \<open>
  Observers attached on one condition are notified exactly once per attachment, the last
  attached first, and observers of other conditions are not called; \<open>notify\<close> returns
  whether one was. Entries stay sorted by rank.
\<close>

theorem notify_reaches_attached:
  fixes os :: "('c::linorder \<times> 'o) list"
  assumes "sorted (map fst os)" and "receivers os c = []"
  shows "notify (fold (\<lambda>ob. attach ob c) obl os) c upd s = (obl \<noteq> [], fold upd (rev obl) s) \<and>
    (\<forall>c'. c' \<noteq> c \<longrightarrow>
       notify (fold (\<lambda>ob. attach ob c) obl os) c' upd s = notify os c' upd s) \<and>
    sorted (map fst (fold (\<lambda>ob. attach ob c) obl os))"
proof (intro conjI allI impI)
  show "notify (fold (\<lambda>ob. attach ob c) obl os) c upd s = (obl \<noteq> [], fold upd (rev obl) s)"
    using assms(2) by (simp add: notify_eq obs.recv_att_all)
next
  fix c' assume "c' \<noteq> c"
  then show "notify (fold (\<lambda>ob. attach ob c) obl os) c' upd s = notify os c' upd s"
    by (simp add: notify_eq obs.recv_att_other)
next
  show "sorted (map fst (fold (\<lambda>ob. attach ob c) obl os))"
    using assms(1) by (induction obl arbitrary: os) (auto simp: attach_def sorted_ol_insert)
qed

theorem notify_reaches_attached_witness:
  "notify (fold (\<lambda>ob. attach ob (2::nat)) [''a'', ''b''] [(1, ''x''), (3, ''y'')]) 2
     (\<lambda>ob s. s @ [ob]) [] = (True, [''b'', ''a''])"
  using notify_reaches_attached [of "[(1::nat, ''x''), (3, ''y'')]" 2 "[''a'', ''b'']"
      "\<lambda>ob s. s @ [ob]" "[]"] by simp

text \<open>
  \<open>detach\<close> ignores its condition: it removes every registration of the observer, on
  every condition, and leaves the other observers' notifications unchanged and in order.
\<close>

theorem detach_removes_everywhere:
  "notify (detach ob c os) c' upd s =
     (filter (\<lambda>x. x \<noteq> ob) (receivers os c') \<noteq> [],
      fold upd (filter (\<lambda>x. x \<noteq> ob) (receivers os c')) s)"
  by (simp add: notify_eq detach_def receivers_ol_remove)

section \<open>Semaphore\<close>

text \<open>
  The value of the counting semaphore. \<open>p\<close> blocks (\<open>None\<close>) at 0; \<open>try_p_for\<close>
  returns whether it got a permit before the time was over.
\<close>

definition sem_p :: "nat \<Rightarrow> nat option" where
  "sem_p n = (if n = 0 then None else Some (n - 1))"

definition sem_try_p_for :: "nat \<Rightarrow> bool \<times> nat" where
  "sem_try_p_for n = (if n = 0 then (False, n) else (True, n - 1))"

definition sem_v :: "nat \<Rightarrow> nat" where "sem_v n = n + 1"

lemma sem_p_Some [simp]: "sem_p n = Some v \<longleftrightarrow> n = Suc v"
  by (auto simp: sem_p_def)

section \<open>ConcurrentObserver, one thread at a time\<close>

record 'd conc_obs =
  condition :: u16
  sem :: nat          \<comment> \<open>the counting semaphore's value\<close>
  queue :: "'d list"

definition co_new :: "u16 \<Rightarrow> 'd conc_obs" where
  "co_new c = \<lparr>condition = c, sem = 0, queue = []\<rparr>"

definition co_update :: "'d \<Rightarrow> 'd conc_obs \<Rightarrow> 'd conc_obs" where
  "co_update d ob = ob\<lparr>queue := list_insert d (queue ob), sem := sem_v (sem ob)\<rparr>"

definition co_take :: "'d conc_obs \<Rightarrow> runtime_error + ('d option \<times> 'd conc_obs)" where
  "co_take ob =
     (if list_empty (queue ob) then Inr (None, ob)
      else case list_remove (queue ob) of Inl e \<Rightarrow> Inl e
           | Inr (d, q) \<Rightarrow> Inr (Some d, ob\<lparr>queue := q\<rparr>))"

text \<open>\<open>updated\<close> blocks (\<open>None\<close>) while the semaphore is 0; \<open>updated_for\<close> times out.\<close>

definition co_updated :: "'d conc_obs \<Rightarrow> (runtime_error + ('d option \<times> 'd conc_obs)) option" where
  "co_updated ob = map_option (\<lambda>v. co_take (ob\<lparr>sem := v\<rparr>)) (sem_p (sem ob))"

definition co_updated_for :: "'d conc_obs \<Rightarrow> runtime_error + ('d option \<times> 'd conc_obs)" where
  "co_updated_for ob =
     (case sem_try_p_for (sem ob) of (got, v) \<Rightarrow>
        if \<not> got then Inr (None, ob) else co_take (ob\<lparr>sem := v\<rparr>))"

lemma co_updated_for_if:
  "co_updated_for ob = (if sem ob = 0 then Inr (None, ob) else co_take (ob\<lparr>sem := sem ob - 1\<rparr>))"
  by (simp add: co_updated_for_def sem_try_p_for_def)

text \<open>The destructor deletes what is left, in order.\<close>

fun co_drain :: "'d list \<Rightarrow> 'd list" where
  "co_drain q = (if list_empty q then []
     else case list_remove q of Inl e \<Rightarrow> [] | Inr (d, q') \<Rightarrow> d # co_drain q')"

declare co_drain.simps [simp del]

definition co_ok :: "'d conc_obs \<Rightarrow> bool" where
  "co_ok ob \<longleftrightarrow> sem ob = length (queue ob)"

lemma co_ok_new [simp]: "co_ok (co_new c)"
  by (simp add: co_ok_def co_new_def)

lemma co_ok_update [simp]: "co_ok (co_update d ob) = co_ok ob"
  by (simp add: co_ok_def co_update_def list_insert_def sem_v_def)

lemma queue_co_update [simp]: "queue (co_update d ob) = queue ob @ [d]"
  by (simp add: co_update_def list_insert_def)

lemma co_updated_for_ok:
  assumes "co_ok ob"
  shows "co_updated_for ob =
     (case queue ob of [] \<Rightarrow> Inr (None, ob)
      | d # q \<Rightarrow> Inr (Some d, ob\<lparr>sem := length q, queue := q\<rparr>))"
  using assms
  by (cases "queue ob") (auto simp: co_updated_for_if co_take_def co_ok_def list_empty_def)

lemma co_drain_all: "co_drain q = q"
proof (induction q)
  case Nil
  show ?case by (simp add: co_drain.simps [of "[]"] list_empty_def)
next
  case (Cons d q)
  then show ?case by (simp add: co_drain.simps [of "d # q"] list_empty_def)
qed

fun co_receive_n :: "nat \<Rightarrow> 'd conc_obs \<Rightarrow> runtime_error + ('d option list \<times> 'd conc_obs)" where
  "co_receive_n 0 ob = Inr ([], ob)"
| "co_receive_n (Suc n) ob =
     (case co_updated_for ob of Inl e \<Rightarrow> Inl e
      | Inr (d, ob') \<Rightarrow> (case co_receive_n n ob' of Inl e \<Rightarrow> Inl e
                       | Inr (ds, ob'') \<Rightarrow> Inr (d # ds, ob'')))"

lemma co_receive_n_queue:
  "co_ok ob \<Longrightarrow> \<exists>ob'. co_receive_n (length (queue ob)) ob = Inr (map Some (queue ob), ob') \<and>
     queue ob' = [] \<and> co_ok ob'"
proof (induction "queue ob" arbitrary: ob)
  case Nil
  then show ?case by simp
next
  case (Cons d q)
  let ?ob = "ob\<lparr>sem := length q, queue := q\<rparr>"
  have "co_ok ?ob" by (simp add: co_ok_def)
  from Cons.hyps(1) [of ?ob] this
  obtain ob' where "co_receive_n (length q) ?ob = Inr (map Some q, ob')"
    and "queue ob' = []" and "co_ok ob'" by auto
  with Cons.prems Cons.hyps(2) [symmetric] show ?case by (auto simp: co_updated_for_ok)
qed

lemma fold_co_update:
  "co_ok ob \<Longrightarrow> queue (fold co_update ds ob) = queue ob @ ds \<and> co_ok (fold co_update ds ob)"
  by (induction ds arbitrary: ob) auto

text \<open>
  With the semaphore equal to the queue length (as the constructor leaves it) the observer is
  a FIFO queue: after the updates \<open>ds\<close>, \<open>updated_for\<close> called once per
  update returns them in order, and then times out.
\<close>

theorem concurrent_observer_fifo:
  "\<exists>ob'. co_receive_n (length ds) (fold co_update ds (co_new c)) = Inr (map Some ds, ob') \<and>
     co_updated_for ob' = Inr (None, ob') \<and> co_updated ob' = None"
proof -
  have q: "queue (fold co_update ds (co_new c)) = ds" and ok: "co_ok (fold co_update ds (co_new c))"
    using fold_co_update [of "co_new c" ds] by (auto simp: co_new_def co_ok_def)
  from co_receive_n_queue [OF ok] q obtain ob' where "queue ob' = []" and "co_ok ob'"
    and "co_receive_n (length ds) (fold co_update ds (co_new c)) = Inr (map Some ds, ob')" by auto
  then show ?thesis by (auto simp: co_updated_for_ok co_updated_def sem_p_def co_ok_def)
qed

section \<open>ConcurrentObserver, many threads\<close>

text \<open>
  Producers run \<open>update\<close> (insert, then signal), consumers run \<open>updated\<close> or
  \<open>updated_for\<close> (wait, then test, then remove; or give up waiting at any time). Each call that takes the list's mutex or the semaphore is one
  step; the steps of different threads interleave freely. The lists of inserted and of removed
  elements record the history.
\<close>

datatype producer_pc = P_Idle | P_Inserted

datatype 'd consumer_pc = C_Idle | C_Acquired | C_Nonempty | C_Got 'd | C_Null | C_Thrown

record 'd co_state =
  s_sem :: nat
  s_queue :: "'d list"
  s_prods :: "producer_pc list"
  s_conss :: "'d consumer_pc list"
  s_inserted :: "'d list"
  s_removed :: "'d list"

definition co_start :: "nat \<Rightarrow> nat \<Rightarrow> 'd co_state" where
  "co_start np nc = \<lparr>s_sem = 0, s_queue = [], s_prods = replicate np P_Idle,
     s_conss = replicate nc C_Idle, s_inserted = [], s_removed = []\<rparr>"

inductive co_step :: "'d co_state \<Rightarrow> 'd co_state \<Rightarrow> bool" where
  update_insert: "i < length (s_prods s) \<Longrightarrow> s_prods s ! i = P_Idle \<Longrightarrow>
    co_step s (s\<lparr>s_queue := list_insert d (s_queue s), s_inserted := s_inserted s @ [d],
                 s_prods := (s_prods s)[i := P_Inserted]\<rparr>)"
| update_signal: "i < length (s_prods s) \<Longrightarrow> s_prods s ! i = P_Inserted \<Longrightarrow>
    co_step s (s\<lparr>s_sem := sem_v (s_sem s), s_prods := (s_prods s)[i := P_Idle]\<rparr>)"
| updated_acquire: "i < length (s_conss s) \<Longrightarrow> s_conss s ! i = C_Idle \<Longrightarrow> sem_p (s_sem s) = Some v \<Longrightarrow>
    co_step s (s\<lparr>s_sem := v, s_conss := (s_conss s)[i := C_Acquired]\<rparr>)"
| updated_for_timeout: "i < length (s_conss s) \<Longrightarrow> s_conss s ! i = C_Idle \<Longrightarrow> co_step s s"
| updated_test: "i < length (s_conss s) \<Longrightarrow> s_conss s ! i = C_Acquired \<Longrightarrow>
    co_step s (s\<lparr>s_conss := (s_conss s)[i :=
      if list_empty (s_queue s) then C_Null else C_Nonempty]\<rparr>)"
| updated_remove: "i < length (s_conss s) \<Longrightarrow> s_conss s ! i = C_Nonempty \<Longrightarrow>
    list_remove (s_queue s) = Inr (d, q) \<Longrightarrow>
    co_step s (s\<lparr>s_queue := q, s_removed := s_removed s @ [d],
                 s_conss := (s_conss s)[i := C_Got d]\<rparr>)"
| updated_throw: "i < length (s_conss s) \<Longrightarrow> s_conss s ! i = C_Nonempty \<Longrightarrow>
    list_remove (s_queue s) = Inl e \<Longrightarrow>
    co_step s (s\<lparr>s_conss := (s_conss s)[i := C_Thrown]\<rparr>)"
| updated_return: "i < length (s_conss s) \<Longrightarrow> s_conss s ! i = C_Got d \<or> s_conss s ! i = C_Null \<Longrightarrow>
    co_step s (s\<lparr>s_conss := (s_conss s)[i := C_Idle]\<rparr>)"

definition holds_permit :: "'d consumer_pc \<Rightarrow> bool" where
  "holds_permit c \<longleftrightarrow> c = C_Acquired \<or> c = C_Nonempty"

definition went_wrong :: "'d consumer_pc \<Rightarrow> bool" where
  "went_wrong c \<longleftrightarrow> c = C_Null \<or> c = C_Thrown"

text \<open>
  Every element of the queue is accounted for: a permit of the semaphore, a producer that has not
  signalled yet, or a consumer that took its permit and has not removed yet.
\<close>

definition co_balanced :: "'d co_state \<Rightarrow> bool" where
  "co_balanced s \<longleftrightarrow>
     length (s_queue s) = s_sem s + count_if (\<lambda>p. p = P_Inserted) (s_prods s) +
       count_if holds_permit (s_conss s) \<and>
     count_if went_wrong (s_conss s) = 0 \<and>
     s_inserted s = s_removed s @ s_queue s"

lemma co_balanced_queue_nonempty:
  assumes "co_balanced s" and "i < length (s_conss s)" and "holds_permit (s_conss s ! i)"
  shows "s_queue s \<noteq> []"
  using assms count_if_pos [of i "s_conss s" holds_permit] by (auto simp: co_balanced_def)

lemma co_step_balanced: "co_step s t \<Longrightarrow> co_balanced s \<Longrightarrow> co_balanced t"
proof (induction rule: co_step.induct)
  case (update_insert i s d)
  then show ?case
    using count_if_update [of i "s_prods s" "\<lambda>p. p = P_Inserted" P_Inserted]
    by (simp add: co_balanced_def list_insert_def)
next
  case (update_signal i s)
  then show ?case
    using count_if_update [of i "s_prods s" "\<lambda>p. p = P_Inserted" P_Idle]
    by (simp add: co_balanced_def sem_v_def)
next
  case (updated_acquire i s v)
  then show ?case
    using count_if_update [of i "s_conss s" holds_permit C_Acquired]
      count_if_update [of i "s_conss s" went_wrong C_Acquired]
    by (simp add: co_balanced_def holds_permit_def went_wrong_def)
next
  case (updated_for_timeout i s)
  then show ?case by simp
next
  case (updated_test i s)
  then have "s_queue s \<noteq> []"
    by (intro co_balanced_queue_nonempty) (auto simp: holds_permit_def)
  with updated_test show ?case
    using count_if_update [of i "s_conss s" holds_permit C_Nonempty]
      count_if_update [of i "s_conss s" went_wrong C_Nonempty]
    by (simp add: co_balanced_def holds_permit_def went_wrong_def list_empty_def)
next
  case (updated_remove i s d q)
  then show ?case
    using count_if_update [of i "s_conss s" holds_permit "C_Got d"]
      count_if_update [of i "s_conss s" went_wrong "C_Got d"]
    by (simp add: co_balanced_def holds_permit_def went_wrong_def)
next
  case (updated_throw i s e)
  then have "s_queue s \<noteq> []"
    by (intro co_balanced_queue_nonempty) (auto simp: holds_permit_def)
  with updated_throw(3) show ?case by (cases "s_queue s") auto
next
  case (updated_return i s d)
  then show ?case
    using count_if_update [of i "s_conss s" holds_permit C_Idle]
      count_if_update [of i "s_conss s" went_wrong C_Idle]
      count_if_pos [of i "s_conss s" went_wrong]
    by (auto simp: co_balanced_def holds_permit_def went_wrong_def)
qed

interpretation co: step_invariant co_step co_balanced
  by unfold_locales (rule co_step_balanced)

lemma co_start_balanced: "co_balanced (co_start np nc)"
  by (simp add: co_balanced_def co_start_def holds_permit_def went_wrong_def)

text \<open>
  C13: whatever the interleaving of any number of producers and consumers, a consumer that passed
  the semaphore finds the list non-empty: \<open>updated\<close> never returns a null pointer,
  \<open>remove\<close> never throws, and elements leave in the order they entered, none lost or
  duplicated.
\<close>

theorem updated_never_null:
  assumes "reachable co_step (co_start np nc) s"
  shows "C_Null \<notin> set (s_conss s) \<and> C_Thrown \<notin> set (s_conss s) \<and>
    s_inserted s = s_removed s @ s_queue s"
  using co.reachable_inv [OF assms co_start_balanced]
  by (auto simp: co_balanced_def count_if_def filter_empty_conv went_wrong_def)

theorem updated_never_null_witness:
  "C_Null \<notin> set [C_Acquired :: nat consumer_pc] \<and> [7::nat] = [] @ [7]"
proof -
  let ?s0 = "co_start 1 1 :: nat co_state"
  let ?s1 = "?s0\<lparr>s_queue := [7], s_inserted := [7], s_prods := [P_Inserted]\<rparr>"
  let ?s2 = "?s1\<lparr>s_sem := 1, s_prods := [P_Idle]\<rparr>"
  let ?s3 = "?s2\<lparr>s_sem := 0, s_conss := [C_Acquired]\<rparr>"
  have "co_step ?s0 ?s1"
    using co_step.update_insert [of 0 ?s0 7] by (simp add: co_start_def list_insert_def)
  moreover have "co_step ?s1 ?s2"
    using co_step.update_signal [of 0 ?s1] by (simp add: co_start_def sem_v_def)
  moreover have "co_step ?s2 ?s3"
    using co_step.updated_acquire [of 0 ?s2] by (simp add: co_start_def)
  ultimately have "reachable co_step ?s0 ?s3"
    by (meson reachable.intros)
  from updated_never_null [OF this] show ?thesis by simp
qed

end
