(* ===== verification/Notify_Walk.thy ===== *)
theory Notify_Walk
  imports Observe "HOL-Library.Sublist"
begin

text \<open>
  \<open>ConditionalObserved::notify\<close> against other threads (\<open>conditional.hpp\<close>,
  \<open>ordered_list.hpp\<close>): \<open>insert\<close> and \<open>remove\<close> take the mutex of the list, the walk of \<open>notify\<close>
  over its nodes does not. The walk is made by an engine's thread; \<open>attach\<close>, \<open>detach\<close> and the
  destruction of observers by the main thread, which sets a component up and takes it down while the
  engine runs.
\<close>

section \<open>The walk, node by node\<close>

text \<open>
  A node of \<open>std::list\<close> has an address of its own, which an iterator holds; nodes are never moved. The
  thread in \<open>notify\<close> is about to compare its iterator with \<open>end()\<close> and to test the rank, inside
  \<open>update\<close>, or about to increment the iterator. To read a node that was erased, or to call or to be
  inside an observer that was destroyed, is a fault.
\<close>

type_synonym ('c, 'o) ol_node = "'c \<times> nat \<times> 'o"

abbreviation rank_of :: "('c, 'o) ol_node \<Rightarrow> 'c" where "rank_of \<equiv> fst"
abbreviation id_of :: "('c, 'o) ol_node \<Rightarrow> nat" where "id_of n \<equiv> fst (snd n)"
abbreviation obs_of :: "('c, 'o) ol_node \<Rightarrow> 'o" where "obs_of n \<equiv> snd (snd n)"

datatype 'o walk_pc = Outside | At "nat option" | Inside nat 'o | Next nat | Faulted

record ('c, 'o) walk_sys =
  w_nodes :: "('c, 'o) ol_node list"
  w_fresh :: nat                     \<comment> \<open>the next address\<close>
  w_dead :: "'o list"                \<comment> \<open>the observers destroyed\<close>
  w_pc :: "'o walk_pc"
  w_called :: "('c, 'o) ol_node list"   \<comment> \<open>the nodes whose observers were updated\<close>

definition find_node :: "nat \<Rightarrow> ('c, 'o) ol_node list \<Rightarrow> ('c, 'o) ol_node option" where
  "find_node k ns = find (\<lambda>n. id_of n = k) ns"

definition first_id :: "('c, 'o) ol_node list \<Rightarrow> nat option" where
  "first_id ns = (case ns of [] \<Rightarrow> None | n # _ \<Rightarrow> Some (id_of n))"

definition following :: "nat \<Rightarrow> ('c, 'o) ol_node list \<Rightarrow> ('c, 'o) ol_node list" where
  "following k ns = tl (dropWhile (\<lambda>n. id_of n \<noteq> k) ns)"

fun walk_step :: "'c \<Rightarrow> 'o walk_pc \<Rightarrow> ('c, 'o) walk_sys \<Rightarrow> ('c, 'o) walk_sys option" where
  "walk_step c Outside s = None"
| "walk_step c Faulted s = None"
| "walk_step c (At None) s = Some (s\<lparr>w_pc := Outside\<rparr>)"
| "walk_step c (At (Some k)) s =
     Some (case find_node k (w_nodes s) of None \<Rightarrow> s\<lparr>w_pc := Faulted\<rparr>
       | Some n \<Rightarrow> if rank_of n \<noteq> c then s\<lparr>w_pc := Next k\<rparr>
           else if obs_of n \<in> set (w_dead s) then s\<lparr>w_pc := Faulted\<rparr>
           else s\<lparr>w_pc := Inside k (obs_of n), w_called := w_called s @ [n]\<rparr>)"
| "walk_step c (Inside k ob) s = Some (s\<lparr>w_pc := (if ob \<in> set (w_dead s) then Faulted else Next k)\<rparr>)"
| "walk_step c (Next k) s =
     Some (s\<lparr>w_pc := (case find_node k (w_nodes s) of None \<Rightarrow> Faulted
       | Some n \<Rightarrow> At (first_id (following k (w_nodes s))))\<rparr>)"

text \<open>An observer is destroyed only after it was detached, as the destructors do.\<close>

datatype ('c, 'o) walk_act =
  Begin_Notify | Step | is_Attach: Attach 'o 'c | is_Detach: Detach 'o | Destroy 'o

fun walk_exec :: "'c::linorder \<Rightarrow> ('c, 'o) walk_sys \<Rightarrow> ('c, 'o) walk_act \<Rightarrow> ('c, 'o) walk_sys option" where
  "walk_exec c s Begin_Notify =
     (if w_pc s = Outside then Some (s\<lparr>w_pc := At (first_id (w_nodes s)), w_called := []\<rparr>) else None)"
| "walk_exec c s Step = walk_step c (w_pc s) s"
| "walk_exec c s (Attach ob r) =
     (if ob \<in> set (w_dead s) then None
      else Some (s\<lparr>w_nodes := ol_insert (w_fresh s, ob) r (w_nodes s), w_fresh := Suc (w_fresh s)\<rparr>))"
| "walk_exec c s (Detach ob) = Some (s\<lparr>w_nodes := filter (\<lambda>n. obs_of n \<noteq> ob) (w_nodes s)\<rparr>)"
| "walk_exec c s (Destroy ob) =
     (if ob \<in> obs_of ` set (w_nodes s) then None else Some (s\<lparr>w_dead := ob # w_dead s\<rparr>))"

fun walk_run :: "'c::linorder \<Rightarrow> ('c, 'o) walk_act list \<Rightarrow> ('c, 'o) walk_sys \<Rightarrow> ('c, 'o) walk_sys option" where
  "walk_run c [] s = Some s"
| "walk_run c (a # as) s = Option.bind (walk_exec c s a) (walk_run c as)"

lemma walk_run_append: "walk_run c (xs @ ys) s = Option.bind (walk_run c xs s) (walk_run c ys)"
  by (induction xs arbitrary: s) (auto split: Option.bind_split)

text \<open>The list without addresses, as the sequential model has it.\<close>

definition entries :: "('c, 'o) walk_sys \<Rightarrow> ('c \<times> 'o) list" where
  "entries s = map (\<lambda>n. (rank_of n, obs_of n)) (w_nodes s)"

lemma map_ol_insert:
  "map (\<lambda>n. (rank_of n, obs_of n)) (ol_insert (k, ob) r ns) = ol_insert ob r (map (\<lambda>n. (rank_of n, obs_of n)) ns)"
  by (induction ns) simp_all

lemma entries_exec:
  "walk_exec c s (Attach ob r) = Some t \<Longrightarrow> entries t = attach ob r (entries s)"
  "walk_exec c s (Detach ob) = Some t \<Longrightarrow> entries t = detach ob r (entries s)"
  by (auto simp: entries_def attach_def detach_def ol_remove_def map_ol_insert filter_map o_def split: if_splits)

section \<open>The invariant of a walk\<close>

lemma ol_insert_split: "\<exists>u v. ns = u @ v \<and> ol_insert x r ns = u @ (r, x) # v"
proof (induction ns)
  case Nil
  then show ?case by (intro exI [of _ "[]"]) simp
next
  case (Cons n ns)
  then obtain u v where uv: "ns = u @ v" "ol_insert x r ns = u @ (r, x) # v" by blast
  show ?case
  proof (cases "fst n < r")
    case True
    then show ?thesis using uv by (intro exI [of _ "n # u"] exI [of _ v]) simp
  next
    case False
    then show ?thesis by (intro exI [of _ "[]"] exI [of _ "n # ns"]) simp
  qed
qed

text \<open>Where the walk is between the nodes behind it and those ahead of it.\<close>

fun stands :: "'c \<Rightarrow> 'o walk_pc \<Rightarrow> ('c, 'o) ol_node list \<Rightarrow> ('c, 'o) ol_node list \<Rightarrow> bool" where
  "stands c Outside b a \<longleftrightarrow> a = []"
| "stands c (At p) b a \<longleftrightarrow> p = first_id a"
| "stands c (Inside k ob) b a \<longleftrightarrow> (\<exists>b'. b = b' @ [(c, k, ob)])"
| "stands c (Next k) b a \<longleftrightarrow> (\<exists>b' r ob. b = b' @ [(r, k, ob)])"
| "stands c Faulted b a \<longleftrightarrow> False"

definition list_ok :: "('c, 'o) walk_sys \<Rightarrow> bool" where
  "list_ok s \<longleftrightarrow> distinct (map id_of (w_nodes s)) \<and>
     (\<forall>n\<in>set (w_nodes s). id_of n < w_fresh s \<and> obs_of n \<notin> set (w_dead s))"

definition called_ok :: "'c \<Rightarrow> ('c, 'o) ol_node list \<Rightarrow> nat \<Rightarrow> ('c, 'o) walk_sys \<Rightarrow> bool" where
  "called_ok c l0 f0 s \<longleftrightarrow> distinct (map id_of (w_called s)) \<and>
     (\<forall>n\<in>set (w_called s). rank_of n = c \<and> id_of n < w_fresh s \<and> (n \<in> set l0 \<or> f0 \<le> id_of n))"

definition since :: "('c, 'o) ol_node list \<Rightarrow> nat \<Rightarrow> ('c, 'o) walk_sys \<Rightarrow> bool" where
  "since l0 f0 s \<longleftrightarrow> f0 \<le> w_fresh s \<and> (\<forall>n\<in>set l0. id_of n < f0) \<and>
     (\<forall>n\<in>set (w_nodes s). n \<in> set l0 \<or> f0 \<le> id_of n) \<and>
     filter (\<lambda>n. n \<in> set (w_nodes s)) l0 = filter (\<lambda>n. n \<in> set l0) (w_nodes s)"

definition walk_at :: "'c \<Rightarrow> ('c, 'o) ol_node list \<Rightarrow> ('c, 'o) walk_sys \<Rightarrow>
    ('c, 'o) ol_node list \<Rightarrow> ('c, 'o) ol_node list \<Rightarrow> bool" where
  "walk_at c l0 s b a \<longleftrightarrow> w_nodes s = b @ a \<and> stands c (w_pc s) b a \<and>
     id_of ` set (w_called s) \<inter> id_of ` set a = {} \<and>
     subseq (filter (\<lambda>n. n \<in> set l0 \<and> rank_of n = c) b) (w_called s)"

text \<open>The steps the walk still takes with so many nodes ahead.\<close>

fun steps_left :: "'o walk_pc \<Rightarrow> nat \<Rightarrow> nat" where
  "steps_left Outside n = 0"
| "steps_left Faulted n = 0"
| "steps_left (At p) n = 3 * n + 1"
| "steps_left (Inside k ob) n = 3 * n + 3"
| "steps_left (Next k) n = 3 * n + 2"

lemma steps_left_mono: "i \<le> j \<Longrightarrow> steps_left pc i \<le> steps_left pc j"
  and steps_left_Suc: "steps_left pc (Suc i) \<le> steps_left pc i + 3"
  by (cases pc; simp)+

definition walk_inv :: "'c \<Rightarrow> ('c, 'o) ol_node list \<Rightarrow> nat \<Rightarrow> nat \<Rightarrow> ('c, 'o) walk_sys \<Rightarrow> bool" where
  "walk_inv c l0 f0 m s \<longleftrightarrow> list_ok s \<and> called_ok c l0 f0 s \<and> since l0 f0 s \<and>
     (\<exists>b a. walk_at c l0 s b a \<and> steps_left (w_pc s) (length a) \<le> m)"

lemma walk_invE:
  assumes "walk_inv c l0 f0 m s"
  obtains b a where "list_ok s" "called_ok c l0 f0 s" "since l0 f0 s" "walk_at c l0 s b a"
    "steps_left (w_pc s) (length a) \<le> m" "w_nodes s = b @ a" "stands c (w_pc s) b a"
    "id_of ` set (w_called s) \<inter> id_of ` set a = {}"
    "subseq (filter (\<lambda>n. n \<in> set l0 \<and> rank_of n = c) b) (w_called s)"
proof -
  obtain b a where x: "walk_at c l0 s b a" "steps_left (w_pc s) (length a) \<le> m"
    using assms by (auto simp: walk_inv_def)
  from that [OF _ _ _ this] show thesis using assms x(1) by (simp add: walk_inv_def walk_at_def)
qed

text \<open>The observer the walk is at.\<close>

fun visits :: "('c, 'o) walk_sys \<Rightarrow> 'o \<Rightarrow> bool" where
  "visits s ob = (case w_pc s of At (Some k) \<Rightarrow> (\<exists>n\<in>set (w_nodes s). id_of n = k \<and> obs_of n = ob)
     | Inside k ob' \<Rightarrow> ob' = ob | Next k \<Rightarrow> (\<exists>n\<in>set (w_nodes s). id_of n = k \<and> obs_of n = ob) | _ \<Rightarrow> False)"

declare visits.simps [simp del]

lemma walk_invI:
  "list_ok s \<Longrightarrow> called_ok c l0 f0 s \<Longrightarrow> since l0 f0 s \<Longrightarrow> walk_at c l0 s b a \<Longrightarrow>
    steps_left (w_pc s) (length a) \<le> m \<Longrightarrow> walk_inv c l0 f0 m s"
  by (auto simp: walk_inv_def)

lemma find_here: "distinct (map id_of (b @ n # a)) \<Longrightarrow> find_node (id_of n) (b @ n # a) = Some n"
  by (induction b) (auto simp: find_node_def)

lemma following_here: "distinct (map id_of (b @ n # a)) \<Longrightarrow> following (id_of n) (b @ n # a) = a"
  by (induction b) (auto simp: following_def)

lemma first_id_Cons [simp]: "first_id [] = None" "first_id (n # a) = Some (id_of n)"
  by (simp_all add: first_id_def)

lemma first_id_Some: "first_id a = Some k \<longleftrightarrow> (\<exists>n a'. a = n # a' \<and> id_of n = k)"
  by (cases a) auto

text \<open>A step of the walk.\<close>

lemma inv_step:
  assumes "walk_inv c l0 f0 m s" and "walk_step c (w_pc s) s = Some t"
  shows "0 < m \<and> walk_inv c l0 f0 (m - 1) t \<and> w_nodes t = w_nodes s \<and> w_fresh t = w_fresh s"
proof -
  from assms(1) obtain b a where ls: "list_ok s" and cs: "called_ok c l0 f0 s" and ss: "since l0 f0 s"
    and "walk_at c l0 s b a" and m: "steps_left (w_pc s) (length a) \<le> m"
    and n: "w_nodes s = b @ a" and st: "stands c (w_pc s) b a" and d: "id_of ` set (w_called s) \<inter> id_of ` set a = {}"
    and sub: "subseq (filter (\<lambda>n. n \<in> set l0 \<and> rank_of n = c) b) (w_called s)" by (rule walk_invE)
  have dis: "distinct (map id_of (b @ a))" using ls n by (simp add: list_ok_def)
  show ?thesis
  proof (cases "w_pc s")
    case Outside then show ?thesis using assms(2) by simp
  next
    case Faulted then show ?thesis using assms(2) by simp
  next
    case (At p)
    show ?thesis
    proof (cases a)
      case Nil
      then have p: "p = None" using st At by simp
      then have t: "t = s\<lparr>w_pc := Outside\<rparr>" using assms(2) At by simp
      have "walk_at c l0 t b []" using n sub Nil by (simp add: walk_at_def t)
      then show ?thesis
          using ls cs ss m At Nil by (intro conjI walk_invI [of _ _ _ _ "b" "[]"])
            (simp_all add: t list_ok_def called_ok_def since_def)
    next
      case (Cons x a')
      then have p: "p = Some (id_of x)" using st At by simp
      have f: "find_node (id_of x) (w_nodes s) = Some x" using find_here dis n Cons by simp
      have x: "obs_of x \<notin> set (w_dead s)" "id_of x < w_fresh s" "x \<in> set l0 \<or> f0 \<le> id_of x"
        using ls ss n Cons by (auto simp: list_ok_def since_def)
      show ?thesis
      proof (cases "rank_of x = c")
        case False
        then have t: "t = s\<lparr>w_pc := Next (id_of x)\<rparr>" using assms(2) At p f by simp
        have "walk_at c l0 t (b @ [x]) a'" using n d sub False Cons by (cases x) (auto simp: walk_at_def t)
        then show ?thesis
          using ls cs ss m At Cons by (intro conjI walk_invI [of _ _ _ _ "b @ [x]" "a'"])
            (simp_all add: t list_ok_def called_ok_def since_def)
      next
        case True
        then have t: "t = s\<lparr>w_pc := Inside (id_of x) (obs_of x), w_called := w_called s @ [x]\<rparr>"
          using assms(2) At p f x(1) by simp
        have "walk_at c l0 t (b @ [x]) a'"
          using n d sub True Cons dis by (cases x) (auto simp: walk_at_def t)
        moreover have "called_ok c l0 f0 t" using cs x True d Cons by (auto simp: called_ok_def t)
        ultimately show ?thesis
          using ls ss m At Cons by (intro conjI walk_invI [of _ _ _ _ "b @ [x]" "a'"])
            (simp_all add: t list_ok_def since_def)
      qed
    qed
  next
    case (Inside k ob)
    then obtain b' where b: "b = b' @ [(c, k, ob)]" using st by auto
    then have "ob \<notin> set (w_dead s)" using ls n by (auto simp: list_ok_def)
    then have t: "t = s\<lparr>w_pc := Next k\<rparr>" using assms(2) Inside by simp
    have "walk_at c l0 t b a" using n d sub b by (simp add: walk_at_def t)
    then show ?thesis
          using ls cs ss m Inside by (intro conjI walk_invI [of _ _ _ _ "b" "a"])
            (simp_all add: t list_ok_def called_ok_def since_def)
  next
    case (Next k)
    then obtain b' r ob where b: "b = b' @ [(r, k, ob)]" using st by auto
    have "find_node k (w_nodes s) = Some (r, k, ob)" "following k (w_nodes s) = a"
      using find_here [of b' "(r, k, ob)" a] following_here [of b' "(r, k, ob)" a] dis n b by simp_all
    then have t: "t = s\<lparr>w_pc := At (first_id a)\<rparr>" using assms(2) Next by simp
    have "walk_at c l0 t b a" using n d sub by (simp add: walk_at_def t)
    then show ?thesis
          using ls cs ss m Next by (intro conjI walk_invI [of _ _ _ _ "b" "a"])
            (simp_all add: t list_ok_def called_ok_def since_def)
  qed
qed

text \<open>An observer attached by another thread, wherever the walk is.\<close>

lemma new_node:
  assumes "list_ok s" and "called_ok c l0 f0 s" and "since l0 f0 s" and "ob \<notin> set (w_dead s)"
    and "w_nodes s = u @ v" and "w_nodes t = u @ (r, w_fresh s, ob) # v"
    and "w_fresh t = Suc (w_fresh s)" and "w_dead t = w_dead s" and "w_called t = w_called s"
  shows "list_ok t \<and> called_ok c l0 f0 t \<and> since l0 f0 t"
proof (intro conjI)
  have l0: "(r, w_fresh s, ob) \<notin> set l0" using assms(3) by (force simp: since_def)
  have "w_fresh s \<notin> id_of ` set (w_nodes s)" using assms(1) by (force simp: list_ok_def)
  then show "list_ok t" using assms(1,4-8) by (auto simp: list_ok_def less_Suc_eq)
  show "called_ok c l0 f0 t" using assms(2,7,9) by (auto simp: called_ok_def less_Suc_eq)
  have "filter (\<lambda>n. n \<in> set (w_nodes t)) l0 = filter (\<lambda>n. n \<in> set (w_nodes s)) l0"
    using l0 assms(5,6) by (intro filter_cong) auto
  moreover have "filter (\<lambda>n. n \<in> set l0) (w_nodes t) = filter (\<lambda>n. n \<in> set l0) (w_nodes s)"
    using l0 assms(5,6) by simp
  ultimately show "since l0 f0 t" using assms(3,5-7) by (auto simp: since_def)
qed

lemma around:
  assumes "b @ a = u @ v"
  shows "\<exists>w. (u = b @ w \<and> a = w @ v \<and> (w = [] \<longrightarrow> \<not> m)) \<or> (b = u @ w \<and> v = w @ a \<and> (w = [] \<longrightarrow> m))"
proof -
  obtain w where "(b = u @ w \<and> w @ a = v) \<or> (b @ w = u \<and> a = w @ v)"
    using assms append_eq_append_conv2 [of b a u v] by blast
  then show ?thesis by (cases "w = []"; cases m) (intro exI [of _ w]; auto)+
qed

lemma stands_ahead:
  assumes "stands c pc b (w @ v)" and "w = [] \<longrightarrow> \<not> ((\<exists>p. pc = At p) \<or> pc = Outside)"
  shows "stands c pc b (w @ x # v)"
  using assms by (cases pc; cases w) simp_all

lemma stands_behind:
  assumes "stands c pc (u @ w) a" and "w = [] \<longrightarrow> (\<exists>p. pc = At p) \<or> pc = Outside"
  shows "stands c pc (u @ x # w) a"
proof (cases w rule: rev_cases)
  case Nil
  then show ?thesis using assms by auto
next
  case (snoc w' y)
  then show ?thesis using assms(1) by (cases pc) (simp_all add: append_assoc [symmetric] del: append_assoc)
qed

lemma inv_attach:
  fixes c :: "'c::linorder"
  assumes "walk_inv c l0 f0 m s" and "walk_exec c s (Attach ob r) = Some t"
  shows "walk_inv c l0 f0 (m + 3) t"
proof -
  from assms(1) obtain b a where ok: "list_ok s" "called_ok c l0 f0 s" "since l0 f0 s"
    and "walk_at c l0 s b a" and m: "steps_left (w_pc s) (length a) \<le> m"
    and n: "w_nodes s = b @ a" and st: "stands c (w_pc s) b a" and d: "id_of ` set (w_called s) \<inter> id_of ` set a = {}"
    and sub: "subseq (filter (\<lambda>n. n \<in> set l0 \<and> rank_of n = c) b) (w_called s)" by (rule walk_invE)
  let ?x = "(r, w_fresh s, ob)"
  obtain u v where uv: "w_nodes s = u @ v" "ol_insert (w_fresh s, ob) r (w_nodes s) = u @ ?x # v"
    using ol_insert_split [of "w_nodes s" "(w_fresh s, ob)" r] by blast
  have al: "ob \<notin> set (w_dead s)" and t: "t = s\<lparr>w_nodes := u @ ?x # v, w_fresh := Suc (w_fresh s)\<rparr>"
    using assms(2) uv(2) by (auto split: if_splits)
  have ok': "list_ok t" "called_ok c l0 f0 t" "since l0 f0 t"
    using new_node [OF ok al uv(1)] by (simp_all add: t)
  have l0: "?x \<notin> set l0" using ok(3) by (force simp: since_def)
  have new: "w_fresh s \<notin> id_of ` set (w_called s)" using ok(2) by (force simp: called_ok_def)
  let ?mid = "(\<exists>p. w_pc s = At p) \<or> w_pc s = Outside"
  have "b @ a = u @ v" using uv(1) n by simp
  from around [OF this, of ?mid]
  obtain w where "(u = b @ w \<and> a = w @ v \<and> (w = [] \<longrightarrow> \<not> ?mid)) \<or> (b = u @ w \<and> v = w @ a \<and> (w = [] \<longrightarrow> ?mid))"
    by (elim exE) (rule that)
  then have "\<exists>b a. walk_at c l0 t b a \<and> steps_left (w_pc t) (length a) \<le> m + 3"
  proof (elim disjE)
    assume w: "u = b @ w \<and> a = w @ v \<and> (w = [] \<longrightarrow> \<not> ?mid)"
    have "stands c (w_pc s) b (w @ ?x # v)" using stands_ahead [of c "w_pc s" b w v] st w by blast
    then have "walk_at c l0 t b (w @ ?x # v)" using w d sub new by (auto simp: walk_at_def t)
    moreover have "steps_left (w_pc t) (length (w @ ?x # v)) \<le> m + 3"
      using m steps_left_Suc [of "w_pc s" "length a"] w by (simp add: t)
    ultimately show ?thesis by blast
  next
    assume w: "b = u @ w \<and> v = w @ a \<and> (w = [] \<longrightarrow> ?mid)"
    have "stands c (w_pc s) (u @ ?x # w) a" using stands_behind [of c "w_pc s" u w a] st w by blast
    moreover have "subseq (filter (\<lambda>n. n \<in> set l0 \<and> rank_of n = c) (u @ ?x # w)) (w_called s)"
      using sub w l0 by simp
    ultimately have "walk_at c l0 t (u @ ?x # w) a" using d w by (simp add: walk_at_def t)
    moreover have "steps_left (w_pc t) (length a) \<le> m + 3" using m by (simp add: t)
    ultimately show ?thesis by blast
  qed
  with ok' show ?thesis by (simp add: walk_inv_def)
qed

text \<open>An observer detached that the walk is not at.\<close>

lemma inv_detach:
  fixes c :: "'c::linorder"
  assumes "walk_inv c l0 f0 m s" and "walk_exec c s (Detach ob) = Some t" and "\<not> visits s ob"
  shows "walk_inv c l0 f0 m t"
proof -
  let ?k = "\<lambda>n. obs_of n \<noteq> ob"
  from assms(1) obtain b a where ok: "list_ok s" "called_ok c l0 f0 s" "since l0 f0 s"
    and "walk_at c l0 s b a" and m: "steps_left (w_pc s) (length a) \<le> m"
    and n: "w_nodes s = b @ a" and st: "stands c (w_pc s) b a" and d: "id_of ` set (w_called s) \<inter> id_of ` set a = {}"
    and sub: "subseq (filter (\<lambda>n. n \<in> set l0 \<and> rank_of n = c) b) (w_called s)" by (rule walk_invE)
  have t: "t = s\<lparr>w_nodes := filter ?k (w_nodes s)\<rparr>" using assms(2) by simp
  have "list_ok t" using ok(1) by (auto simp: list_ok_def t distinct_map_filter)
  moreover have "called_ok c l0 f0 t" using ok(2) by (simp add: called_ok_def t)
  moreover have "since l0 f0 t"
  proof -
    have "filter (\<lambda>n. n \<in> set (w_nodes t)) l0 = filter ?k (filter (\<lambda>n. n \<in> set (w_nodes s)) l0)"
      by (simp add: t conj_commute)
    also have "\<dots> = filter (\<lambda>n. n \<in> set l0) (w_nodes t)"
      using ok(3) by (simp add: since_def t conj_commute)
    finally show ?thesis using ok(3) by (auto simp: since_def t)
  qed
  moreover have "walk_at c l0 t (filter ?k b) (filter ?k a)"
  proof -
    have "stands c (w_pc s) (filter ?k b) (filter ?k a)"
    proof (cases "w_pc s")
      case (At p)
      then show ?thesis using st assms(3) n by (cases a) (auto simp: visits.simps)
    next
      case (Inside k o')
      then show ?thesis using st assms(3) by (auto simp: visits.simps)
    next
      case (Next k)
      then show ?thesis using st assms(3) n by (auto simp: visits.simps)
    qed (use st in simp_all)
    moreover have "subseq (filter (\<lambda>n. n \<in> set l0 \<and> rank_of n = c) (filter ?k b)) (w_called s)"
    proof (rule subseq_order.trans [OF _ sub])
      have "filter (\<lambda>n. n \<in> set l0 \<and> rank_of n = c) (filter ?k b) = filter ?k (filter (\<lambda>n. n \<in> set l0 \<and> rank_of n = c) b)"
        by (simp add: conj_commute conj_left_commute)
      then show "subseq (filter (\<lambda>n. n \<in> set l0 \<and> rank_of n = c) (filter ?k b)) (filter (\<lambda>n. n \<in> set l0 \<and> rank_of n = c) b)"
        by (simp only: subseq_filter_left)
    qed
    ultimately show ?thesis using n d by (auto simp: walk_at_def t)
  qed
  moreover have "steps_left (w_pc t) (length (filter ?k a)) \<le> m"
    using m steps_left_mono [OF length_filter_le, of "w_pc s" ?k a] by (simp add: t)
  ultimately show ?thesis by (rule walk_invI)
qed

lemma inv_destroy:
  fixes c :: "'c::linorder"
  assumes "walk_inv c l0 f0 m s" and "walk_exec c s (Destroy ob) = Some t"
  shows "walk_inv c l0 f0 m t"
proof -
  have t: "t = s\<lparr>w_dead := ob # w_dead s\<rparr>" and nin: "ob \<notin> obs_of ` set (w_nodes s)"
    using assms(2) by (auto split: if_splits)
  then show ?thesis
    using assms(1) by (auto simp: walk_inv_def walk_at_def list_ok_def called_ok_def since_def)
qed

section \<open>Runs\<close>

text \<open>No thread detaches an observer while the walk is at it.\<close>

fun keeps_off :: "'c::linorder \<Rightarrow> ('c, 'o) walk_act list \<Rightarrow> ('c, 'o) walk_sys \<Rightarrow> bool" where
  "keeps_off c [] s \<longleftrightarrow> True"
| "keeps_off c (x # xs) s \<longleftrightarrow> (\<forall>ob. x = Detach ob \<longrightarrow> \<not> visits s ob) \<and>
     (case walk_exec c s x of None \<Rightarrow> True | Some t \<Rightarrow> keeps_off c xs t)"

abbreviation attaches :: "('c, 'o) walk_act list \<Rightarrow> nat" where
  "attaches xs \<equiv> length (filter is_Attach xs)"

lemma inv_exec:
  fixes c :: "'c::linorder"
  assumes "walk_inv c l0 f0 m s" and "walk_exec c s x = Some t" and "x \<noteq> Begin_Notify"
    and "\<And>ob. x = Detach ob \<Longrightarrow> \<not> visits s ob"
  shows "\<exists>m'. walk_inv c l0 f0 m' t \<and> m' + count_list [x] Step \<le> m + 3 * attaches [x] \<and>
    (\<not> is_Attach x \<longrightarrow> w_fresh t = w_fresh s \<and> (\<not> is_Detach x \<longrightarrow> w_nodes t = w_nodes s))"
proof (cases x)
  case Step
  then show ?thesis using inv_step [OF assms(1), of t] assms(2) by (intro exI [of _ "m - 1"]) simp
next
  case (Attach ob r)
  then show ?thesis using inv_attach [OF assms(1)] assms(2) by (intro exI [of _ "m + 3"]) auto
next
  case (Detach ob)
  then show ?thesis using inv_detach [OF assms(1)] assms(2,4) by (intro exI [of _ m]) auto
next
  case (Destroy ob)
  then show ?thesis using inv_destroy [OF assms(1)] assms(2) by (intro exI [of _ m]) (auto split: if_splits)
qed (use assms(3) in simp)

lemma inv_run:
  fixes c :: "'c::linorder"
  assumes "walk_inv c l0 f0 m s" and "walk_run c xs s = Some t" and "Begin_Notify \<notin> set xs" and "keeps_off c xs s"
  shows "\<exists>m'. walk_inv c l0 f0 m' t \<and> m' + count_list xs Step \<le> m + 3 * attaches xs \<and>
    (attaches xs = 0 \<longrightarrow> w_fresh t = w_fresh s \<and> (filter is_Detach xs = [] \<longrightarrow> w_nodes t = w_nodes s))"
  using assms
proof (induction xs arbitrary: m s)
  case Nil
  then show ?case by auto
next
  case (Cons x xs)
  from Cons.prems(2) obtain s' where x: "walk_exec c s x = Some s'" and run: "walk_run c xs s' = Some t"
    by (auto simp: bind_eq_Some_conv)
  obtain m1 where 1: "walk_inv c l0 f0 m1 s'" "m1 + count_list [x] Step \<le> m + 3 * attaches [x]"
      "\<not> is_Attach x \<longrightarrow> w_fresh s' = w_fresh s \<and> (\<not> is_Detach x \<longrightarrow> w_nodes s' = w_nodes s)"
    using inv_exec [OF Cons.prems(1) x] Cons.prems(3,4) by auto
  obtain m2 where 2: "walk_inv c l0 f0 m2 t" "m2 + count_list xs Step \<le> m1 + 3 * attaches xs"
      "attaches xs = 0 \<longrightarrow> w_fresh t = w_fresh s' \<and> (filter is_Detach xs = [] \<longrightarrow> w_nodes t = w_nodes s')"
    using Cons.IH [OF 1(1) run] Cons.prems(3,4) x by auto
  have "m2 + count_list (x # xs) Step \<le> m + 3 * attaches (x # xs)"
    using 1(2) 2(2) by (cases "x = Step"; cases "is_Attach x") simp_all
  moreover have "attaches (x # xs) = 0 \<longrightarrow> w_fresh t = w_fresh s \<and>
      (filter is_Detach (x # xs) = [] \<longrightarrow> w_nodes t = w_nodes s)"
    using 1(3) 2(3) by (auto split: if_splits)
  ultimately show ?case using 2(1) by blast
qed

lemma begin_notify_inv:
  fixes c :: "'c::linorder"
  assumes "list_ok s0" and "walk_run c (Begin_Notify # xs) s0 = Some s"
  shows "walk_inv c (w_nodes s0) (w_fresh s0) (3 * length (w_nodes s0) + 1)
      (s0\<lparr>w_pc := At (first_id (w_nodes s0)), w_called := []\<rparr>) \<and>
    walk_exec c s0 Begin_Notify = Some (s0\<lparr>w_pc := At (first_id (w_nodes s0)), w_called := []\<rparr>) \<and>
    walk_run c xs (s0\<lparr>w_pc := At (first_id (w_nodes s0)), w_called := []\<rparr>) = Some s"
proof -
  have o: "w_pc s0 = Outside" using assms(2) by (auto split: if_splits)
  have "walk_at c (w_nodes s0) (s0\<lparr>w_pc := At (first_id (w_nodes s0)), w_called := []\<rparr>) [] (w_nodes s0)"
    by (simp add: walk_at_def)
  then show ?thesis
    using assms o by (intro conjI walk_invI [of _ _ _ _ "[]" "w_nodes s0"])
      (auto simp: list_ok_def called_ok_def since_def)
qed

lemma notify_run_inv:
  fixes c :: "'c::linorder"
  assumes "list_ok s0" and "walk_run c (Begin_Notify # xs) s0 = Some s" and "Begin_Notify \<notin> set xs"
    and "keeps_off c (Begin_Notify # xs) s0"
  obtains m where "walk_inv c (w_nodes s0) (w_fresh s0) m s"
    "m + count_list xs Step \<le> 3 * (length (w_nodes s0) + attaches xs) + 1"
    "attaches xs = 0 \<longrightarrow> w_fresh s = w_fresh s0 \<and> (filter is_Detach xs = [] \<longrightarrow> w_nodes s = w_nodes s0)"
proof -
  have b: "walk_inv c (w_nodes s0) (w_fresh s0) (3 * length (w_nodes s0) + 1)
      (s0\<lparr>w_pc := At (first_id (w_nodes s0)), w_called := []\<rparr>)"
    "walk_exec c s0 Begin_Notify = Some (s0\<lparr>w_pc := At (first_id (w_nodes s0)), w_called := []\<rparr>)"
    "walk_run c xs (s0\<lparr>w_pc := At (first_id (w_nodes s0)), w_called := []\<rparr>) = Some s"
    using begin_notify_inv [OF assms(1,2)] by simp_all
  have "keeps_off c xs (s0\<lparr>w_pc := At (first_id (w_nodes s0)), w_called := []\<rparr>)"
    using assms(4) b(2) by simp
  from inv_run [OF b(1,3) assms(3) this] that show thesis by auto
qed

section \<open>What a notification reaches\<close>

lemma subseq_all:
  assumes "subseq xs ys" and "distinct ys" and "set ys \<subseteq> set xs"
  shows "ys = xs"
proof -
  have "length ys \<le> length xs"
    using assms(2,3) card_mono [OF finite_set assms(3)] card_length [of xs] by (simp add: distinct_card)
  then have "length xs = length ys" using list_emb_length [OF assms(1)] by simp
  then show ?thesis using subseq_same_length [OF assms(1)] by simp
qed

lemma walk_ended:
  assumes "walk_inv c l0 f0 m s" and "w_pc s = Outside"
  shows "subseq (filter (\<lambda>n. n \<in> set (w_nodes s) \<and> rank_of n = c) l0) (w_called s)"
proof -
  from assms(1) obtain b a where ss: "since l0 f0 s" and n: "w_nodes s = b @ a" and st: "stands c (w_pc s) b a"
    and sub: "subseq (filter (\<lambda>n. n \<in> set l0 \<and> rank_of n = c) b) (w_called s)" by (rule walk_invE)
  have b: "w_nodes s = b" using n st assms(2) by simp
  have "filter (\<lambda>n. n \<in> set (w_nodes s) \<and> rank_of n = c) l0 =
      filter (\<lambda>n. rank_of n = c) (filter (\<lambda>n. n \<in> set (w_nodes s)) l0)"
    by (simp add: conj_commute)
  also have "\<dots> = filter (\<lambda>n. n \<in> set l0 \<and> rank_of n = c) b"
    using ss b by (simp add: since_def conj_commute)
  finally show ?thesis using sub by simp
qed

lemma undisturbed_called:
  assumes "walk_inv c (w_nodes s0) (w_fresh s0) m s" and "w_pc s = Outside"
    and "w_nodes s = w_nodes s0" and "w_fresh s = w_fresh s0"
  shows "w_called s = filter (\<lambda>n. rank_of n = c) (w_nodes s0)"
proof (rule subseq_all)
  have "filter (\<lambda>n. n \<in> set (w_nodes s) \<and> rank_of n = c) (w_nodes s0) = filter (\<lambda>n. rank_of n = c) (w_nodes s0)"
    using assms(3) by (intro filter_cong) simp_all
  then show "subseq (filter (\<lambda>n. rank_of n = c) (w_nodes s0)) (w_called s)"
    using walk_ended [OF assms(1,2)] by simp
  have c: "called_ok c (w_nodes s0) (w_fresh s0) s" using assms(1) by (simp add: walk_inv_def)
  then show "distinct (w_called s)" by (simp add: called_ok_def distinct_map)
  show "set (w_called s) \<subseteq> set (filter (\<lambda>n. rank_of n = c) (w_nodes s0))"
    using c assms(4) by (force simp: called_ok_def)
qed

text \<open>
  C14: \<open>notify\<close> walks the list of observers without the list's mutex. With any threads that attach
  observers, and detach and destroy observers the walk is not at, it uses no erased node and no
  destroyed observer; it calls only observers of its condition, none twice, and when it returns it has
  called every observer that was attached when it began and still is, in the order of the list. It
  always goes on, and takes at most three steps a node and one. Undisturbed it calls exactly the
  receivers of the sequential model.
\<close>

theorem walk_reaches_all:
  fixes c :: "'c::linorder"
  assumes "list_ok s0" and "walk_run c (Begin_Notify # xs) s0 = Some s" and "Begin_Notify \<notin> set xs"
    and "keeps_off c (Begin_Notify # xs) s0"
  shows "w_pc s \<noteq> Faulted \<and> list_ok s \<and> distinct (map id_of (w_called s)) \<and>
    (\<forall>n\<in>set (w_called s). rank_of n = c) \<and>
    (w_pc s = Outside \<longrightarrow> subseq (filter (\<lambda>n. n \<in> set (w_nodes s) \<and> rank_of n = c) (w_nodes s0)) (w_called s)) \<and>
    (w_pc s \<noteq> Outside \<longrightarrow> walk_exec c s Step \<noteq> None) \<and>
    count_list xs Step \<le> 3 * (length (w_nodes s0) + attaches xs) + 1 \<and>
    (w_pc s = Outside \<longrightarrow> attaches xs = 0 \<longrightarrow> filter is_Detach xs = [] \<longrightarrow>
       map obs_of (w_called s) = receivers (entries s0) c)"
proof -
  from assms obtain m where i: "walk_inv c (w_nodes s0) (w_fresh s0) m s"
    and m: "m + count_list xs Step \<le> 3 * (length (w_nodes s0) + attaches xs) + 1"
    and q: "attaches xs = 0 \<longrightarrow> w_fresh s = w_fresh s0 \<and> (filter is_Detach xs = [] \<longrightarrow> w_nodes s = w_nodes s0)"
    by (rule notify_run_inv)
  have pc: "w_pc s \<noteq> Faulted" using i by (auto simp: walk_inv_def walk_at_def)
  then have "w_pc s \<noteq> Outside \<longrightarrow> walk_exec c s Step \<noteq> None"
    by (cases "w_pc s" rule: walk_pc.exhaust; cases "walk_step c (w_pc s) s") (auto elim: walk_step.elims)
  moreover have "w_pc s = Outside \<longrightarrow> attaches xs = 0 \<longrightarrow> filter is_Detach xs = [] \<longrightarrow>
      map obs_of (w_called s) = receivers (entries s0) c"
    using undisturbed_called [OF i] q by (simp add: receivers_def entries_def filter_map o_def)
  ultimately show ?thesis
    using i pc m walk_ended [OF i] by (simp add: walk_inv_def called_ok_def)
qed

text \<open>
  Three observers; during the walk one is attached behind it, and one that was not called and one that
  was called are detached and destroyed.
\<close>

definition some_list :: "(nat, string) walk_sys" where
  "some_list = \<lparr>w_nodes = [(1, 0, ''a''), (2, 1, ''b''), (2, 2, ''c'')], w_fresh = 3, w_dead = [],
     w_pc = Outside, w_called = []\<rparr>"

definition some_walk :: "(nat, string) walk_act list" where
  "some_walk = [Step, Step, Step, Attach ''d'' 2, Step, Detach ''a'', Step, Step, Detach ''b'', Destroy ''b'', Step, Step, Step]"

theorem walk_reaches_all_witness:
  "\<exists>s. walk_run 2 (Begin_Notify # some_walk) some_list = Some s \<and> w_pc s = Outside \<and>
     map obs_of (w_called s) = [''b'', ''c''] \<and>
     subseq (filter (\<lambda>n. n \<in> set (w_nodes s) \<and> rank_of n = 2) (w_nodes some_list)) (w_called s)"
proof -
  obtain s where s: "walk_run 2 (Begin_Notify # some_walk) some_list = Some s" "w_pc s = Outside"
      "map obs_of (w_called s) = [''b'', ''c'']"
    by (simp add: some_walk_def some_list_def find_node_def following_def)
  have "list_ok some_list" "Begin_Notify \<notin> set some_walk"
    by (simp_all add: list_ok_def some_list_def some_walk_def)
  moreover have "keeps_off 2 (Begin_Notify # some_walk) some_list"
    by (simp add: some_walk_def some_list_def find_node_def following_def visits.simps)
  ultimately show ?thesis using walk_reaches_all [OF _ s(1)] s by auto
qed

text \<open>
  C15 (finding): a thread that detaches the observer the walk is at makes the walk use a node that was
  erased or an observer that was destroyed, at the latest in its second next step.
\<close>

theorem detach_under_walk_faults:
  fixes c :: "'c::linorder"
  assumes "list_ok s0" and "walk_run c (Begin_Notify # xs) s0 = Some s" and "Begin_Notify \<notin> set xs"
    and "keeps_off c (Begin_Notify # xs) s0" and "visits s ob"
  shows "\<exists>n t. n \<le> 2 \<and> walk_run c (Detach ob # replicate n Step) s = Some t \<and> w_pc t = Faulted"
proof -
  from assms(1-4) obtain m where i: "walk_inv c (w_nodes s0) (w_fresh s0) m s" by (rule notify_run_inv)
  then obtain b a where ls: "list_ok s" and n: "w_nodes s = b @ a" and st: "stands c (w_pc s) b a"
    by (rule walk_invE)
  have id: "\<And>x y. x \<in> set (w_nodes s) \<Longrightarrow> y \<in> set (w_nodes s) \<Longrightarrow> id_of x = id_of y \<Longrightarrow> x = y"
    using ls inj_onD [of id_of "set (w_nodes s)"] by (simp add: list_ok_def distinct_map)
  have gone: "find_node k (filter (\<lambda>x. obs_of x \<noteq> ob) (w_nodes s)) = None"
    if "x \<in> set (w_nodes s)" "id_of x = k" "obs_of x = ob" for x k
  proof -
    have "y = x" if "y \<in> set (w_nodes s)" "id_of y = k" for y
      by (rule id) (use that \<open>x \<in> set (w_nodes s)\<close> \<open>id_of x = k\<close> in simp_all)
    then show ?thesis using \<open>obs_of x = ob\<close> unfolding find_node_def find_None_iff by auto
  qed
  show ?thesis
  proof (cases "w_pc s")
    case (At p)
    then obtain k x where "p = Some k" "x \<in> set (w_nodes s)" "id_of x = k" "obs_of x = ob"
      using assms(5) by (auto simp: visits.simps split: option.splits)
    with gone At show ?thesis by (intro exI [of _ 1]) simp
  next
    case (Inside k o')
    then have o: "o' = ob" using assms(5) by (simp add: visits.simps)
    obtain b' where "b = b' @ [(c, k, o')]" using st Inside by auto
    then have x: "(c, k, ob) \<in> set (w_nodes s)" using n o by simp
    then have "ob \<notin> set (w_dead s)" using ls by (auto simp: list_ok_def)
    with gone [OF x] Inside o show ?thesis by (intro exI [of _ 2]) (simp add: numeral_2_eq_2)
  next
    case (Next k)
    then obtain x where "x \<in> set (w_nodes s)" "id_of x = k" "obs_of x = ob"
      using assms(5) by (auto simp: visits.simps)
    with gone Next show ?thesis by (intro exI [of _ 1]) simp
  qed (use assms(5) in \<open>simp_all add: visits.simps\<close>)
qed

theorem detach_under_walk_faults_witness:
  "\<exists>n t. n \<le> 2 \<and> walk_run 2 (Begin_Notify # [Step, Step, Step, Detach ''b''] @ replicate n Step) some_list = Some t \<and>
     w_pc t = Faulted"
proof -
  let ?xs = "[Step, Step, Step]"
  obtain s where s: "walk_run 2 (Begin_Notify # ?xs) some_list = Some s" "visits s ''b''"
    by (simp add: some_list_def find_node_def following_def visits.simps)
  have k: "keeps_off 2 (Begin_Notify # ?xs) some_list"
    by (simp add: some_list_def find_node_def following_def visits.simps)
  have "list_ok some_list" by (simp add: list_ok_def some_list_def)
  from detach_under_walk_faults [OF this s(1) _ k s(2)]
  obtain n t where "n \<le> 2" "walk_run 2 (Detach ''b'' # replicate n Step) s = Some t" "w_pc t = Faulted" by auto
  then show ?thesis
    using s(1) walk_run_append [of 2 "Begin_Notify # ?xs" "Detach ''b'' # replicate n Step" some_list]
    by (intro exI [of _ n] exI [of _ t]) simp
qed

end
