(* ===== verification/List_Test.thy ===== *)
theory List_Test
  imports Observe
begin

text \<open>
  The test program of \<open>List\<close> (\<open>tests/gtest/list_test.cpp\<close>): its sequential cases, and the
  threads of \<open>ConcurrentAccess\<close> in every interleaving of their calls.
\<close>

section \<open>The sequential cases\<close>

definition insert_and_remove :: "'a \<Rightarrow> 'a \<Rightarrow> 'a \<Rightarrow> bool" where
  "insert_and_remove a b c =
     (let l = list_insert c (list_insert b (list_insert a [])) in
      list_empty ([] :: 'a list) \<and> \<not> list_empty l \<and>
      (case list_remove l of Inl e \<Rightarrow> False | Inr (x, l) \<Rightarrow> x = a \<and>
        (case list_remove l of Inl e \<Rightarrow> False | Inr (y, l) \<Rightarrow> y = b \<and>
          (case list_remove l of Inl e \<Rightarrow> False | Inr (z, l) \<Rightarrow> z = c \<and> list_empty l))))"

definition remove_from_empty :: bool where
  "remove_from_empty \<longleftrightarrow> list_empty ([] :: nat list) \<and> list_remove ([] :: nat list) = Inl List_Is_Empty"

theorem sequential_tests_pass: "insert_and_remove a b c \<and> remove_from_empty"
  by (simp add: insert_and_remove_def remove_from_empty_def list_insert_def list_empty_def)

section \<open>ConcurrentAccess\<close>

text \<open>
  Inserting thread \<open>t\<close> allocates and inserts the values \<open>t * m + i\<close>; a removing thread removes and
  deletes \<open>m\<close> values, and yields when the list throws. A step is a call of \<open>insert\<close> or \<open>remove\<close>,
  with what the thread does around it.
\<close>

record list_test =
  lt_list :: "nat list"
  lt_next :: "nat list"      \<comment> \<open>\<open>i\<close> of each inserting thread\<close>
  lt_removed :: "nat list"   \<comment> \<open>\<open>removed_count\<close> of each removing thread\<close>
  lt_deleted :: "nat list"   \<comment> \<open>the values deleted so far\<close>

datatype lt_thread = Insert_Func nat | Remove_Func nat

definition lt_start :: "nat \<Rightarrow> list_test" where
  "lt_start num_threads = \<lparr>lt_list = [], lt_next = replicate num_threads 0,
     lt_removed = replicate num_threads 0, lt_deleted = []\<rparr>"

fun lt_step :: "nat \<Rightarrow> list_test \<Rightarrow> lt_thread \<Rightarrow> list_test option" where
  "lt_step m s (Insert_Func t) =
     (if t < length (lt_next s) \<and> lt_next s ! t < m
      then Some (s\<lparr>lt_list := list_insert (t * m + lt_next s ! t) (lt_list s),
        lt_next := (lt_next s)[t := lt_next s ! t + 1]\<rparr>)
      else None)"
| "lt_step m s (Remove_Func t) =
     (if t < length (lt_removed s) \<and> lt_removed s ! t < m
      then Some (case list_remove (lt_list s) of Inl e \<Rightarrow> s
        | Inr (value, l) \<Rightarrow> s\<lparr>lt_list := l, lt_deleted := lt_deleted s @ [value],
            lt_removed := (lt_removed s)[t := lt_removed s ! t + 1]\<rparr>)
      else None)"

fun lt_run :: "nat \<Rightarrow> lt_thread list \<Rightarrow> list_test \<Rightarrow> list_test option" where
  "lt_run m [] s = Some s"
| "lt_run m (a # as) s = Option.bind (lt_step m s a) (lt_run m as)"

definition joined :: "nat \<Rightarrow> list_test \<Rightarrow> bool" where
  "joined m s \<longleftrightarrow> list_all (\<lambda>i. i = m) (lt_next s) \<and> list_all (\<lambda>k. k = m) (lt_removed s)"

definition calls_done :: "list_test \<Rightarrow> nat" where
  "calls_done s = sum_list (lt_next s) + sum_list (lt_removed s)"

text \<open>Of each thread's values those inserted so far are deleted or in the list, in their order.\<close>

definition lt_ok :: "nat \<Rightarrow> nat \<Rightarrow> list_test \<Rightarrow> bool" where
  "lt_ok n m s \<longleftrightarrow> length (lt_next s) = n \<and> length (lt_removed s) = n \<and>
     (\<forall>i\<in>set (lt_next s). i \<le> m) \<and> (\<forall>k\<in>set (lt_removed s). k \<le> m) \<and>
     length (lt_deleted s) = sum_list (lt_removed s) \<and>
     length (lt_deleted s @ lt_list s) = sum_list (lt_next s) \<and>
     (\<forall>x\<in>set (lt_deleted s @ lt_list s). x div m < n) \<and>
     (\<forall>t<n. filter (\<lambda>x. x div m = t) (lt_deleted s @ lt_list s) = map (\<lambda>i. t * m + i) [0..<lt_next s ! t])"

lemma sum_list_bump:
  fixes xs :: "nat list"
  shows "t < length xs \<Longrightarrow> sum_list (xs[t := xs ! t + 1]) = Suc (sum_list xs)"
proof (induction xs arbitrary: t)
  case (Cons x xs)
  then show ?case by (cases t) simp_all
qed simp

lemma set_bump: "t < length xs \<Longrightarrow> (\<forall>i\<in>set xs. i \<le> m) \<Longrightarrow> x \<le> m \<Longrightarrow> \<forall>i\<in>set (xs[t := x]). i \<le> (m :: nat)"
  using set_update_subset_insert [of xs t x] by blast

lemma lt_step_ok:
  assumes "lt_ok n m s" and "lt_step m s a = Some s'"
  shows "lt_ok n m s' \<and> calls_done s \<le> calls_done s'"
proof (cases a)
  case (Insert_Func t)
  have t: "t < n" "lt_next s ! t < m" "t < length (lt_next s)"
    and s': "s' = s\<lparr>lt_list := list_insert (t * m + lt_next s ! t) (lt_list s), lt_next := (lt_next s)[t := lt_next s ! t + 1]\<rparr>"
    using assms Insert_Func by (auto simp: lt_ok_def split: if_splits)
  have d: "(t * m + lt_next s ! t) div m = t" using t(2) by simp
  have "filter (\<lambda>x. x div m = u) (lt_deleted s' @ lt_list s') = map (\<lambda>i. u * m + i) [0..<lt_next s' ! u]" if "u < n" for u
    using assms(1) that t d by (cases "u = t") (auto simp: lt_ok_def s' list_insert_def)
  moreover have "\<forall>i\<in>set (lt_next s'). i \<le> m"
    using set_bump [of t "lt_next s" m "lt_next s ! t + 1"] assms(1) t by (simp add: lt_ok_def s')
  ultimately show ?thesis
    using assms(1) t d sum_list_bump [of t "lt_next s"] by (auto simp: lt_ok_def s' list_insert_def calls_done_def)
next
  case (Remove_Func t)
  have t: "t < length (lt_removed s)" "lt_removed s ! t < m" using assms(2) Remove_Func by (auto split: if_splits)
  show ?thesis
  proof (cases "lt_list s")
    case Nil
    then show ?thesis using assms Remove_Func t by simp
  next
    case (Cons x l)
    then have s': "s' = s\<lparr>lt_list := l, lt_deleted := lt_deleted s @ [x], lt_removed := (lt_removed s)[t := lt_removed s ! t + 1]\<rparr>"
      using assms(2) Remove_Func t by simp
    have "\<forall>k\<in>set (lt_removed s'). k \<le> m"
      using set_bump [of t "lt_removed s" m "lt_removed s ! t + 1"] assms(1) t by (simp add: lt_ok_def s')
    moreover have "lt_deleted s' @ lt_list s' = lt_deleted s @ lt_list s" "lt_next s' = lt_next s"
      by (simp_all add: s' Cons)
    moreover have "length (lt_deleted s') = sum_list (lt_removed s')" "calls_done s \<le> calls_done s'"
      using assms(1) sum_list_bump [OF t(1)] by (simp_all add: lt_ok_def s' calls_done_def)
    moreover have "length (lt_removed s') = length (lt_removed s)" by (simp add: s')
    ultimately show ?thesis using assms(1) unfolding lt_ok_def by simp
  qed
qed

lemma lt_run_ok: "lt_run m as s = Some s' \<Longrightarrow> lt_ok n m s \<Longrightarrow> lt_ok n m s'"
  by (induction as arbitrary: s) (auto simp: bind_eq_Some_conv dest: lt_step_ok)

lemma lt_start_ok: "lt_ok n m (lt_start n)"
  by (simp add: lt_ok_def lt_start_def)

lemma sum_list_full: "\<forall>x\<in>set xs. x \<le> (m :: nat) \<Longrightarrow> sum_list xs \<le> length xs * m \<and> (sum_list xs = length xs * m \<longleftrightarrow> list_all (\<lambda>x. x = m) xs)"
  by (induction xs) auto

lemma distinct_by_class:
  fixes f :: "'a \<Rightarrow> nat"
  assumes "\<And>t. t < n \<Longrightarrow> distinct (filter (\<lambda>x. f x = t) xs)" and "\<And>x. x \<in> set xs \<Longrightarrow> f x < n"
  shows "distinct xs"
  using assms
proof (induction xs)
  case (Cons a xs)
  have "a \<notin> set xs" using Cons.prems(1) [of "f a"] Cons.prems(2) [of a] by simp
  moreover have "distinct (filter (\<lambda>x. f x = t) xs)" if "t < n" for t
    using Cons.prems(1) [OF that] by (simp split: if_splits)
  ultimately show ?case using Cons by simp
qed simp

lemma lt_progress:
  assumes "lt_ok n m s" and "\<not> joined m s"
  shows "\<exists>a s'. lt_step m s a = Some s' \<and> calls_done s' = calls_done s + 1"
proof (cases "list_all (\<lambda>i. i = m) (lt_next s)")
  case False
  then obtain t where t: "t < length (lt_next s)" "lt_next s ! t < m"
    using assms(1) by (fastforce simp: lt_ok_def list_all_length in_set_conv_nth order_less_le)
  then show ?thesis
    using sum_list_bump [OF t(1)] by (intro exI [of _ "Insert_Func t"]) (simp add: calls_done_def)
next
  case True
  then have "\<not> list_all (\<lambda>k. k = m) (lt_removed s)" using assms(2) by (simp add: joined_def)
  then obtain t where t: "t < length (lt_removed s)" "lt_removed s ! t < m"
    using assms(1) by (fastforce simp: lt_ok_def list_all_length in_set_conv_nth order_less_le)
  have "sum_list (lt_removed s) < sum_list (lt_next s)"
    using assms(1) True \<open>\<not> list_all (\<lambda>k. k = m) (lt_removed s)\<close> sum_list_full [of "lt_next s" m] sum_list_full [of "lt_removed s" m]
    by (auto simp: lt_ok_def order_less_le)
  then obtain x l where "lt_list s = x # l" using assms(1) by (cases "lt_list s") (auto simp: lt_ok_def)
  then show ?thesis
    using t sum_list_bump [OF t(1)] by (intro exI [of _ "Remove_Func t"]) (simp add: calls_done_def)
qed

text \<open>
  The test \<open>ConcurrentAccess\<close> passes in every interleaving, whatever the numbers of threads and of
  iterations: no value is deleted twice, the values of one thread are removed in the order of their
  insertion, as long as a thread is not done some thread can make a call that succeeds, and there are
  only as many as the threads have iterations; when all threads are joined the list is empty and every
  value was deleted once.
\<close>

theorem concurrent_test_passes:
  assumes "lt_run m as (lt_start n) = Some s"
  shows "distinct (lt_deleted s) \<and>
    (\<forall>t<n. \<exists>k\<le>m. filter (\<lambda>x. x div m = t) (lt_deleted s) = map (\<lambda>i. t * m + i) [0..<k]) \<and>
    (\<not> joined m s \<longrightarrow> (\<exists>a s'. lt_step m s a = Some s' \<and> calls_done s' = calls_done s + 1)) \<and>
    calls_done s \<le> 2 * n * m \<and>
    (joined m s \<longrightarrow> list_empty (lt_list s) \<and> length (lt_deleted s) = n * m)"
proof -
  have ok: "lt_ok n m s" using lt_run_ok [OF assms lt_start_ok] .
  have thread: "\<exists>k\<le>m. filter (\<lambda>x. x div m = t) (lt_deleted s) = map (\<lambda>i. t * m + i) [0..<k]" if "t < n" for t
  proof -
    let ?a = "filter (\<lambda>x. x div m = t) (lt_deleted s)" and ?b = "filter (\<lambda>x. x div m = t) (lt_list s)"
    have e: "?a @ ?b = map (\<lambda>i. t * m + i) [0..<lt_next s ! t]" and le: "lt_next s ! t \<le> m"
      using ok that by (auto simp: lt_ok_def)
    have l: "length ?a \<le> lt_next s ! t" using arg_cong [OF e, of length] by simp
    have "?a = take (length ?a) (map (\<lambda>i. t * m + i) [0..<lt_next s ! t])" unfolding e [symmetric] by simp
    also have "\<dots> = map (\<lambda>i. t * m + i) [0..<length ?a]" using l by (simp add: take_map take_upt)
    finally show ?thesis using l le by (intro exI [of _ "length ?a"]) simp
  qed
  have below: "x div m < n" if "x \<in> set (lt_deleted s)" for x using ok that by (simp add: lt_ok_def)
  have "distinct (filter (\<lambda>x. x div m = t) (lt_deleted s))" if "t < n" for t
    using thread [OF that] by (auto simp: distinct_map inj_on_def)
  then have "distinct (lt_deleted s)" using distinct_by_class [of n "\<lambda>x. x div m"] below by blast
  moreover have "calls_done s \<le> 2 * n * m"
    using ok sum_list_full [of "lt_next s" m] sum_list_full [of "lt_removed s" m] by (auto simp: lt_ok_def calls_done_def)
  moreover have "joined m s \<longrightarrow> list_empty (lt_list s) \<and> length (lt_deleted s) = n * m"
    using ok sum_list_full [of "lt_next s" m] sum_list_full [of "lt_removed s" m]
    by (auto simp: lt_ok_def joined_def list_empty_def)
  ultimately show ?thesis using thread lt_progress [OF ok] by blast
qed

theorem concurrent_test_passes_witness:
  "\<exists>s. lt_run 2 [Remove_Func 0, Insert_Func 1, Insert_Func 0, Insert_Func 1, Remove_Func 1, Remove_Func 0] (lt_start 2) = Some s \<and>
     lt_deleted s = [2, 0] \<and> lt_list s = [3] \<and> distinct (lt_deleted s) \<and> \<not> joined 2 s \<and>
     (\<exists>a s'. lt_step 2 s a = Some s' \<and> calls_done s' = calls_done s + 1)"
proof -
  let ?as = "[Remove_Func 0, Insert_Func 1, Insert_Func 0, Insert_Func 1, Remove_Func 1, Remove_Func 0]"
  obtain s where s: "lt_run 2 ?as (lt_start 2) = Some s" "lt_deleted s = [2, 0]" "lt_list s = [3]" "\<not> joined 2 s"
    by (simp add: lt_start_def list_insert_def joined_def numeral_2_eq_2)
  from concurrent_test_passes [OF s(1)] s show ?thesis by auto
qed

end
