(* ===== verification/Shm_Channel.thy ===== *)
theory Shm_Channel
  imports Wire
begin

text \<open>
  The shared-memory ring (\<open>shm_channel.hpp\<close>) and the sequential behaviour of
  \<open>ShmEngine::_send\<close> and \<open>ShmEngine::_try_read\<close> (\<open>shm_engine.hpp\<close>): one
  writer position, one head per enrolled reader, eight slots, 32-bit counters that wrap. The
  abstraction \<open>pending\<close> is the list of frames a reader has not read yet; sends append to it
  and \<open>try_read\<close> returns all of it. Interleavings are in \<open>Shm_System\<close>.
\<close>

section \<open>The ring\<close>

definition N :: nat where "N = 8"
definition PROCS :: nat where "PROCS = 8"

record shm_channel =
  tail :: u32
  pids :: "int list"
  heads :: "u32 list"
  sizes :: "nat list"
  slots :: "byte list list"

definition ring_ok :: "shm_channel \<Rightarrow> bool" where
  "ring_ok ch \<longleftrightarrow> length (pids ch) = PROCS \<and> length (heads ch) = PROCS \<and>
     length (sizes ch) = N \<and> length (slots ch) = N \<and> (\<forall>s\<in>set (slots ch). length s = frame_size)"

text \<open>A new segment is zero-filled.\<close>

definition shm_zero :: shm_channel where
  "shm_zero = \<lparr>tail = 0, pids = replicate PROCS 0, heads = replicate PROCS 0,
     sizes = replicate N 0, slots = replicate N (replicate frame_size 0)\<rparr>"

definition shm_find :: "int \<Rightarrow> shm_channel \<Rightarrow> int" where
  "shm_find pid ch = (case first_index (\<lambda>p. p = pid) (pids ch) of None \<Rightarrow> -1 | Some i \<Rightarrow> int i)"

definition shm_enroll :: "int \<Rightarrow> shm_channel \<Rightarrow> int \<times> shm_channel" where
  "shm_enroll pid ch =
     (case first_index (\<lambda>p. p = 0) (pids ch) of
        None \<Rightarrow> (-1, ch)
      | Some i \<Rightarrow> (int i, ch\<lparr>pids := (pids ch)[i := pid], heads := (heads ch)[i := tail ch]\<rparr>))"

definition shm_leave :: "int \<Rightarrow> shm_channel \<Rightarrow> shm_channel" where
  "shm_leave pid ch =
     (let i = shm_find pid ch in
      if 0 \<le> i then ch\<lparr>pids := (pids ch)[nat i := 0]\<rparr> else ch)"

section \<open>Slots and counters\<close>

definition slot_of :: "u32 \<Rightarrow> nat" where "slot_of c = unat (c mod 8)"

definition slot_frame :: "shm_channel \<Rightarrow> u32 \<Rightarrow> byte list" where
  "slot_frame ch c = peek 0 (sizes ch ! slot_of c) (slots ch ! slot_of c)"

definition backlog :: "nat \<Rightarrow> shm_channel \<Rightarrow> nat" where
  "backlog i ch = unat (tail ch - heads ch ! i)"

definition pending :: "nat \<Rightarrow> shm_channel \<Rightarrow> byte list list" where
  "pending i ch = map (\<lambda>k. slot_frame ch (heads ch ! i + of_nat k)) [0..<backlog i ch]"

lemma length_pending [simp]: "length (pending i ch) = backlog i ch"
  by (simp add: pending_def)

lemma slot_of_unat: "slot_of c = unat c mod 8"
  by (simp add: slot_of_def unat_mod)

lemma slot_of_lt [simp]: "slot_of c < N"
  by (simp add: slot_of_unat N_def)

lemma unat_add_of_nat_u32: "unat ((c :: u32) + of_nat k) = (unat c + k) mod 2 ^ LENGTH(32)"
  by (simp only: unat_word_ariths(1) unat_of_nat mod_add_right_eq)

lemma unat_add_of_nat_mod8: "unat ((c :: u32) + of_nat k) mod 8 = (unat c + k) mod 8"
  unfolding unat_add_of_nat_u32 by (rule mod_mod_cancel) simp

lemma slot_of_add: "slot_of (c + of_nat k) = (slot_of c + k) mod 8"
  unfolding slot_of_unat unat_add_of_nat_mod8 by (rule mod_add_left_eq [symmetric])

lemma tail_as_head: "tail ch = heads ch ! i + of_nat (backlog i ch)"
  by (simp add: backlog_def)

text \<open>Two counters less than eight apart use different slots, across the wrap as well.\<close>

lemma slots_distinct:
  assumes "k < b" and "b < k + 8"
  shows "slot_of (c + of_nat k) \<noteq> slot_of (c + of_nat b)"
proof
  assume "slot_of (c + of_nat k) = slot_of (c + of_nat b)"
  then have "(slot_of c + b) mod 8 = (slot_of c + k) mod 8"
    by (simp only: slot_of_add)
  then have "8 dvd (slot_of c + b) - (slot_of c + k)"
    using assms(1) by (subst (asm) mod_eq_dvd_iff_nat) simp_all
  then have "8 \<le> b - k" using assms(1) by (intro dvd_imp_le) simp_all
  with assms(2) show False by simp
qed

section \<open>Sending\<close>

definition shm_room :: "int \<Rightarrow> shm_channel \<Rightarrow> bool" where
  "shm_room self ch \<longleftrightarrow>
     list_all (\<lambda>i. pids ch ! i \<noteq> 0 \<and> pids ch ! i \<noteq> self \<longrightarrow> tail ch - heads ch ! i < of_nat N)
       [0..<PROCS]"

definition shm_write :: "byte list \<Rightarrow> shm_channel \<Rightarrow> shm_channel" where
  "shm_write buf ch =
     (let slot = slot_of (tail ch) in
      ch\<lparr>slots := (slots ch)[slot := poke 0 buf (slots ch ! slot)],
         sizes := (sizes ch)[slot := length buf],
         tail := tail ch + 1\<rparr>)"

definition shm_signals :: "int \<Rightarrow> shm_channel \<Rightarrow> int list" where
  "shm_signals self ch = filter (\<lambda>p. p \<noteq> 0 \<and> p \<noteq> self) (pids ch)"

text \<open>
  \<open>_send\<close> when nobody else runs: \<open>None\<close> while it would wait for a reader. The result is
  the return value, the processes signalled and the channel.
\<close>

definition shm_send :: "int \<Rightarrow> byte list \<Rightarrow> shm_channel \<Rightarrow> (int \<times> int list \<times> shm_channel) option" where
  "shm_send self buf ch =
     (if frame_size < length buf then Some (-1, [], ch)
      else if shm_room self ch
      then Some (int (length buf), shm_signals self ch, shm_write buf ch)
      else None)"

lemma ring_ok_write [simp]:
  "ring_ok ch \<Longrightarrow> length buf \<le> frame_size \<Longrightarrow> ring_ok (shm_write buf ch)"
proof -
  assume a: "ring_ok ch" "length buf \<le> frame_size"
  then have "slots ch ! slot_of (tail ch) \<in> set (slots ch)" by (simp add: ring_ok_def)
  with a have "length (slots ch ! slot_of (tail ch)) = frame_size" by (auto simp: ring_ok_def)
  with a show ?thesis
    by (auto simp: ring_ok_def shm_write_def Let_def
        dest!: set_update_subset_insert [THEN subsetD])
qed

lemma shm_write_simps [simp]:
  "tail (shm_write buf ch) = tail ch + 1"
  "heads (shm_write buf ch) = heads ch"
  "pids (shm_write buf ch) = pids ch"
  by (simp_all add: shm_write_def Let_def)

lemma slot_frame_write:
  assumes "ring_ok ch" and "length buf \<le> frame_size"
  shows "slot_frame (shm_write buf ch) c =
    (if slot_of c = slot_of (tail ch) then buf else slot_frame ch c)"
proof -
  have "slots ch ! slot_of (tail ch) \<in> set (slots ch)" and "length (sizes ch) = N"
    and "length (slots ch) = N"
    using assms(1) by (auto simp: ring_ok_def)
  then show ?thesis
    using assms by (auto simp: slot_frame_def shm_write_def Let_def ring_ok_def peek_poke_same)
qed

lemma backlog_write:
  "backlog i ch < 2 ^ 32 - 1 \<Longrightarrow> backlog i (shm_write buf ch) = Suc (backlog i ch)"
proof -
  assume "backlog i ch < 2 ^ 32 - 1"
  then have "unat (tail ch - heads ch ! i + 1) = Suc (unat (tail ch - heads ch ! i))"
    by (simp add: backlog_def unat_word_ariths(1) del: diff_add_eq)
  moreover have "tail ch + 1 - heads ch ! i = tail ch - heads ch ! i + 1" by simp
  ultimately show ?thesis unfolding backlog_def by (simp only: shm_write_simps)
qed

lemma pending_write:
  assumes "ring_ok ch" and "length buf \<le> frame_size" and "backlog i ch < N"
  shows "pending i (shm_write buf ch) = pending i ch @ [buf]"
proof -
  let ?b = "backlog i ch" and ?h = "heads ch ! i"
  have t: "tail ch = ?h + of_nat ?b" by (rule tail_as_head)
  have "slot_of (?h + of_nat k) \<noteq> slot_of (tail ch)" if "k < ?b" for k
    using that assms(3) slots_distinct [of k ?b ?h] by (simp add: t N_def)
  then have "pending i ch = map (\<lambda>k. slot_frame (shm_write buf ch) (?h + of_nat k)) [0..<?b]"
    by (simp add: pending_def slot_frame_write assms(1,2))
  moreover have "slot_frame (shm_write buf ch) (?h + of_nat ?b) = buf"
    by (simp add: slot_frame_write assms(1,2) t)
  moreover have "backlog i (shm_write buf ch) = Suc ?b"
    using assms(3) by (intro backlog_write) (simp add: N_def)
  ultimately show ?thesis by (simp add: pending_def)
qed

lemma room_backlog:
  assumes "shm_room self ch" and "i < PROCS" and "pids ch ! i \<noteq> 0" and "pids ch ! i \<noteq> self"
  shows "backlog i ch < N"
  using assms by (auto simp: shm_room_def list_all_iff backlog_def N_def word_less_nat_alt)

section \<open>Reading\<close>

definition shm_read_one :: "nat \<Rightarrow> shm_channel \<Rightarrow> byte list \<times> shm_channel" where
  "shm_read_one idx ch =
     (let my_head = heads ch ! idx
      in (slot_frame ch my_head, ch\<lparr>heads := (heads ch)[idx := my_head + 1]\<rparr>))"

lemma backlog_read_one:
  assumes "idx < length (heads ch)" and "heads ch ! idx \<noteq> tail ch"
  shows "Suc (backlog idx (snd (shm_read_one idx ch))) = backlog idx ch"
proof -
  let ?d = "tail ch - heads ch ! idx"
  have "?d \<noteq> 0" using assms(2) by simp
  then have "Suc (unat (?d - 1)) = unat ?d"
    by (metis Suc_pred' unat_gt_0 unat_minus_one)
  moreover have "backlog idx (snd (shm_read_one idx ch)) = unat (?d - 1)"
    using assms(1) by (simp add: backlog_def shm_read_one_def Let_def diff_diff_eq)
  ultimately show ?thesis by (simp only: backlog_def)
qed

text \<open>\<open>_try_read\<close> returns the frames it hands to \<open>_handle\<close>, in order.\<close>

function try_read :: "nat \<Rightarrow> shm_channel \<Rightarrow> byte list list \<times> shm_channel" where
  "try_read idx ch =
     (if idx < length (heads ch) \<and> heads ch ! idx \<noteq> tail ch
      then (case shm_read_one idx ch of (f, ch') \<Rightarrow>
              (case try_read idx ch' of (fs, ch'') \<Rightarrow> (f # fs, ch'')))
      else ([], ch))"
  by pat_completeness auto

termination try_read
proof (relation "measure (\<lambda>(idx, ch). backlog idx ch)", goal_cases)
  case 1
  show ?case by simp
next
  case (2 idx ch f ch')
  then have "snd (shm_read_one idx ch) = ch'" by (metis snd_conv)
  with 2 show ?case using backlog_read_one [of idx ch] by simp
qed

declare try_read.simps [simp del]

lemma shm_read_one_simps [simp]:
  "tail (snd (shm_read_one i ch)) = tail ch"
  "pids (snd (shm_read_one i ch)) = pids ch"
  "slot_frame (snd (shm_read_one i ch)) = slot_frame ch"
  "length (heads (snd (shm_read_one i ch))) = length (heads ch)"
  by (simp_all add: shm_read_one_def Let_def slot_frame_def fun_eq_iff)

lemma pending_read_one:
  assumes "idx < length (heads ch)" and "heads ch ! idx \<noteq> tail ch"
  shows "pending idx ch = fst (shm_read_one idx ch) # pending idx (snd (shm_read_one idx ch))"
proof -
  let ?ch = "snd (shm_read_one idx ch)"
  have b: "backlog idx ch = Suc (backlog idx ?ch)"
    using backlog_read_one [OF assms] by simp
  have h: "heads ?ch ! idx = heads ch ! idx + 1"
    using assms(1) by (simp add: shm_read_one_def Let_def)
  have "pending idx ch = slot_frame ch (heads ch ! idx) #
      map (\<lambda>k. slot_frame ch (heads ch ! idx + of_nat (Suc k))) [0..<backlog idx ?ch]"
    unfolding pending_def b by (simp add: upt_conv_Cons map_Suc_upt [symmetric] del: upt_Suc)
  moreover have "slot_frame ?ch = slot_frame ch" by simp
  moreover have "fst (shm_read_one idx ch) = slot_frame ch (heads ch ! idx)"
    by (simp add: shm_read_one_def Let_def)
  ultimately show ?thesis unfolding pending_def [of idx ?ch] h by (simp add: add.assoc)
qed

lemma try_read_eq:
  "idx < length (heads ch) \<Longrightarrow>
     try_read idx ch = (pending idx ch, ch\<lparr>heads := (heads ch)[idx := tail ch]\<rparr>)"
proof (induction idx ch rule: try_read.induct)
  case (1 idx ch)
  show ?case
  proof (cases "heads ch ! idx = tail ch")
    case True
    then have "(heads ch)[idx := tail ch] = heads ch" by (metis list_update_id)
    with True show ?thesis by (simp add: try_read.simps [of idx ch] pending_def backlog_def)
  next
    case False
    obtain f ch' where r: "shm_read_one idx ch = (f, ch')" by fastforce
    have "try_read idx ch' = (pending idx ch', ch'\<lparr>heads := (heads ch')[idx := tail ch']\<rparr>)"
      using "1" False r shm_read_one_simps(4) [of idx ch] by simp
    moreover have "pending idx ch = f # pending idx ch'"
      using pending_read_one [of idx ch] "1.prems" False r by simp
    moreover have "ch'\<lparr>heads := (heads ch')[idx := tail ch']\<rparr> = ch\<lparr>heads := (heads ch)[idx := tail ch]\<rparr>"
      using r by (auto simp: shm_read_one_def Let_def)
    ultimately show ?thesis
      using "1.prems" False r by (simp add: try_read.simps [of idx ch])
  qed
qed

section \<open>The contract of the channel\<close>

text \<open>
  What the code expects of the channel: frames posted while there is room for a reader are appended to
  what it has not read, and draining returns all of it. \<open>mc_run\<close> runs a sequence of whole
  operations and collects what reader \<open>r\<close> gets; it is \<open>None\<close> when a post would wait.
  \<open>mc_room\<close> says that on the way every post finds the room, where the post itself does not make
  sure of it.
\<close>

datatype ('p, 'f, 'r) mc_op = Post 'p 'f | Drain 'r

fun mc_run :: "('p \<Rightarrow> 'f \<Rightarrow> 'c \<Rightarrow> 'c option) \<Rightarrow> ('r \<Rightarrow> 'c \<Rightarrow> 'f list \<times> 'c) \<Rightarrow>
    'r \<Rightarrow> ('p, 'f, 'r) mc_op list \<Rightarrow> 'c \<Rightarrow> ('f list \<times> 'c) option" where
  "mc_run post drain r [] c = Some ([], c)"
| "mc_run post drain r (Post p f # ops) c =
     (case post p f c of None \<Rightarrow> None | Some c' \<Rightarrow> mc_run post drain r ops c')"
| "mc_run post drain r (Drain r' # ops) c =
     (case drain r' c of (fs, c') \<Rightarrow>
        (case mc_run post drain r ops c' of None \<Rightarrow> None
         | Some (gs, c'') \<Rightarrow> Some (if r' = r then fs @ gs else gs, c'')))"

fun mc_posted :: "('p, 'f, 'r) mc_op list \<Rightarrow> 'f list" where
  "mc_posted [] = []"
| "mc_posted (Post p f # ops) = f # mc_posted ops"
| "mc_posted (Drain r # ops) = mc_posted ops"

fun mc_room :: "('p \<Rightarrow> 'f \<Rightarrow> 'c \<Rightarrow> 'c option) \<Rightarrow> ('r \<Rightarrow> 'c \<Rightarrow> 'f list \<times> 'c) \<Rightarrow> ('r \<Rightarrow> 'p \<Rightarrow> 'c \<Rightarrow> bool) \<Rightarrow>
    'r \<Rightarrow> ('p, 'f, 'r) mc_op list \<Rightarrow> 'c \<Rightarrow> bool" where
  "mc_room post drain room r [] c = True"
| "mc_room post drain room r (Post p f # ops) c =
     (room r p c \<and> (case post p f c of None \<Rightarrow> True | Some c' \<Rightarrow> mc_room post drain room r ops c'))"
| "mc_room post drain room r (Drain r' # ops) c = mc_room post drain room r ops (snd (drain r' c))"

locale multicast =
  fixes post :: "'p \<Rightarrow> 'f \<Rightarrow> 'c \<Rightarrow> 'c option"
    and drain :: "'r \<Rightarrow> 'c \<Rightarrow> 'f list \<times> 'c"
    and unread :: "'r \<Rightarrow> 'c \<Rightarrow> 'f list"
    and member :: "'r \<Rightarrow> 'c \<Rightarrow> bool"
    and room :: "'r \<Rightarrow> 'p \<Rightarrow> 'c \<Rightarrow> bool"
    and fits :: "'f \<Rightarrow> bool"
    and ok :: "'c \<Rightarrow> bool"
  assumes post_unread: "ok c \<Longrightarrow> fits f \<Longrightarrow> member r c \<Longrightarrow> room r p c \<Longrightarrow> post p f c = Some c' \<Longrightarrow>
      unread r c' = unread r c @ [f]"
    and post_keeps: "ok c \<Longrightarrow> fits f \<Longrightarrow> post p f c = Some c' \<Longrightarrow> ok c' \<and> (\<forall>r. member r c' = member r c)"
    and drain_reads: "ok c \<Longrightarrow> member r c \<Longrightarrow> drain r c = (fs, c') \<Longrightarrow> fs = unread r c \<and> unread r c' = []"
    and drain_keeps: "ok c \<Longrightarrow> drain r c = (fs, c') \<Longrightarrow>
      ok c' \<and> (\<forall>r. member r c' = member r c) \<and> (\<forall>r'. r' \<noteq> r \<longrightarrow> unread r' c' = unread r' c)"
begin

lemma run_fifo:
  "mc_run post drain r ops c = Some (gs, c') \<Longrightarrow> ok c \<Longrightarrow> member r c \<Longrightarrow>
     mc_room post drain room r ops c \<Longrightarrow> \<forall>f\<in>set (mc_posted ops). fits f \<Longrightarrow>
     gs @ unread r c' = unread r c @ mc_posted ops \<and> ok c'"
proof (induction ops arbitrary: c gs)
  case Nil
  then show ?case by simp
next
  case (Cons x ops)
  show ?case
  proof (cases x)
    case (Post p f)
    with Cons.prems obtain c1 where p: "post p f c = Some c1"
      and run: "mc_run post drain r ops c1 = Some (gs, c')" by (auto split: option.splits)
    have fits: "fits f" and "room r p c" using Cons.prems Post by auto
    with p Cons.prems have u: "unread r c1 = unread r c @ [f]" by (blast intro: post_unread)
    have "ok c1" and l: "\<forall>r. member r c1 = member r c"
      using post_keeps [OF \<open>ok c\<close> fits p] by auto
    with Cons.IH [OF run] Cons.prems Post u p show ?thesis by auto
  next
    case (Drain r')
    obtain fs c1 where d: "drain r' c = (fs, c1)" by fastforce
    with Cons.prems Drain obtain hs where run: "mc_run post drain r ops c1 = Some (hs, c')"
      and gs: "gs = (if r' = r then fs @ hs else hs)" by (auto split: option.splits)
    have k: "ok c1" "\<forall>r. member r c1 = member r c"
      "\<forall>r''. r'' \<noteq> r' \<longrightarrow> unread r'' c1 = unread r'' c"
      using drain_keeps [OF \<open>ok c\<close> d] by auto
    have "hs @ unread r c' = unread r c1 @ mc_posted ops \<and> ok c'"
      using Cons.IH [OF run] Cons.prems Drain k d by auto
    then show ?thesis
      using Drain gs k drain_reads [OF \<open>ok c\<close> _ d] Cons.prems by auto
  qed
qed

end

definition shm_post :: "int \<Rightarrow> byte list \<Rightarrow> shm_channel \<Rightarrow> shm_channel option" where
  "shm_post self buf ch = map_option (\<lambda>(ret, sigs, ch'). ch') (shm_send self buf ch)"

definition enrolled :: "nat \<Rightarrow> shm_channel \<Rightarrow> bool" where
  "enrolled r ch \<longleftrightarrow> r < PROCS \<and> pids ch ! r \<noteq> 0"

text \<open>
  \<open>_send\<close> waits until there is room for the readers of the other processes. For the reader of the
  sender itself it does not: there the room is a condition.
\<close>

definition own_room :: "nat \<Rightarrow> int \<Rightarrow> shm_channel \<Rightarrow> bool" where
  "own_room r p ch \<longleftrightarrow> (pids ch ! r = p \<longrightarrow> backlog r ch < N)"

definition frame_fits :: "byte list \<Rightarrow> bool" where
  "frame_fits f \<longleftrightarrow> length f \<le> frame_size"

lemma shm_post_Some:
  "frame_fits f \<Longrightarrow> shm_post p f ch = Some ch' \<longleftrightarrow> shm_room p ch \<and> ch' = shm_write f ch"
  by (auto simp: shm_post_def shm_send_def frame_fits_def split: if_splits)

lemma try_read_out_of_range: "\<not> idx < length (heads ch) \<Longrightarrow> try_read idx ch = ([], ch)"
  by (simp add: try_read.simps [of idx ch])

lemma try_read_keeps:
  assumes "ring_ok ch" and "try_read idx ch = (fs, ch')"
  shows "ring_ok ch' \<and> pids ch' = pids ch \<and> tail ch' = tail ch \<and>
    (\<forall>i. i \<noteq> idx \<longrightarrow> pending i ch' = pending i ch)"
proof (cases "idx < length (heads ch)")
  case True
  with assms(2) have ch': "ch' = ch\<lparr>heads := (heads ch)[idx := tail ch]\<rparr>"
    by (simp add: try_read_eq)
  have "slot_frame ch' = slot_frame ch" by (simp add: ch' slot_frame_def fun_eq_iff)
  with assms(1) show ?thesis
    by (auto simp: ch' ring_ok_def pending_def backlog_def)
next
  case False
  with assms show ?thesis by (simp add: try_read_out_of_range)
qed

interpretation ring: multicast shm_post try_read pending enrolled own_room frame_fits ring_ok
proof unfold_locales
  fix c f r p c'
  assume "ring_ok c" "frame_fits f" "enrolled r c" "own_room r p c" "shm_post p f c = Some c'"
  then show "pending r c' = pending r c @ [f]"
    using room_backlog [of p c r]
    by (auto simp: shm_post_Some enrolled_def own_room_def frame_fits_def intro!: pending_write)
next
  fix c f p c'
  assume "ring_ok c" "frame_fits f" "shm_post p f c = Some c'"
  then show "ring_ok c' \<and> (\<forall>r. enrolled r c' = enrolled r c)"
    by (auto simp: shm_post_Some enrolled_def frame_fits_def)
next
  fix c r fs c'
  assume "ring_ok c" "enrolled r c" "try_read r c = (fs, c')"
  then show "fs = pending r c \<and> pending r c' = []"
    by (auto simp: try_read_eq ring_ok_def enrolled_def pending_def backlog_def)
next
  fix c r fs c'
  assume "ring_ok c" "try_read r c = (fs, c')"
  then show "ring_ok c' \<and> (\<forall>r. enrolled r c' = enrolled r c) \<and>
      (\<forall>r'. r' \<noteq> r \<longrightarrow> pending r' c' = pending r' c)"
    using try_read_keeps [of c r fs c'] by (auto simp: enrolled_def)
qed

section \<open>Properties\<close>

lemma ring_ok_zero [simp]: "ring_ok shm_zero"
  by (simp add: ring_ok_def shm_zero_def PROCS_def N_def)

text \<open>
  C11: the ring is a multicast FIFO: over any sequence of sends by anyone (each waiting for room, as
  \<open>_send\<close> does for the readers of other processes) and reads by anyone, with the 32-bit counters
  wrapping, the frames handed to a reader followed by those still in the ring are exactly the unread
  frames at the start followed by the frames sent, in order. The reader's own process may send too, but
  \<open>_send\<close> does not wait for its own reader: the law needs that it has fewer than eight frames
  unread before each send of its own process (without that, \<open>own_frames_overrun\<close>). For a reader
  whose process sends nothing the condition is void (\<open>only_others_room\<close>).
\<close>

theorem shm_multicast_fifo:
  assumes "ring_ok ch" and "r < PROCS" and "pids ch ! r \<noteq> 0"
    and "mc_room shm_post try_read own_room r ops ch" and "\<forall>f\<in>set (mc_posted ops). frame_fits f"
    and "mc_run shm_post try_read r ops ch = Some (got, ch')"
  shows "got @ pending r ch' = pending r ch @ mc_posted ops \<and> ring_ok ch'"
  using ring.run_fifo [OF assms(6,1) _ assms(4,5)] assms(2,3) by (simp add: enrolled_def)

lemma shm_post_pids: "shm_post p f ch = Some ch' \<Longrightarrow> pids ch' = pids ch"
  by (auto simp: shm_post_def shm_send_def split: if_splits)

lemma try_read_pids: "pids (snd (try_read idx ch)) = pids ch"
  by (cases "idx < length (heads ch)") (simp_all add: try_read_eq try_read_out_of_range)

text \<open>A reader whose process does not send: nothing is asked of the run.\<close>

theorem only_others_room:
  "\<forall>p f. Post p f \<in> set ops \<longrightarrow> p \<noteq> pids ch ! r \<Longrightarrow> mc_room shm_post try_read own_room r ops ch"
proof (induction ops arbitrary: ch)
  case (Cons x ops)
  show ?case
  proof (cases x)
    case (Post p f)
    with Cons.prems have "own_room r p ch" by (auto simp: own_room_def)
    moreover have "mc_room shm_post try_read own_room r ops ch'" if "shm_post p f ch = Some ch'" for ch'
      using Cons.IH [of ch'] Cons.prems shm_post_pids [OF that] by auto
    ultimately show ?thesis using Post by (simp split: option.splits)
  next
    case (Drain r')
    then show ?thesis using Cons.IH [of "snd (try_read r' ch)"] Cons.prems by (simp add: try_read_pids)
  qed
qed simp

text \<open>
  The witness crosses the wrap of the counters: the tail starts at the largest 32-bit value. The reader's
  process 42 sends the second frame.
\<close>

definition wrap_ring :: shm_channel where
  "wrap_ring = shm_zero\<lparr>tail := -1, pids := [41, 42, 0, 0, 0, 0, 0, 0], heads := replicate PROCS (-1)\<rparr>"

lemmas shm_eval = PROCS_def N_def frame_size_def MTU_def shm_room_def shm_write_simps
  upt_conv_Cons frame_fits_def

theorem shm_multicast_fifo_witness:
  "\<exists>got ch'. mc_run shm_post try_read 1 [Post 41 [10], Post 42 [20], Drain 1, Post 41 [30]] wrap_ring =
     Some (got, ch') \<and> tail ch' = 2 \<and> got @ pending 1 ch' = [[10], [20], [30]]"
proof -
  let ?c1 = "shm_write [10] wrap_ring" and ?ops = "[Post 41 [10], Post 42 [20], Drain 1, Post 41 [30]]"
  let ?c2 = "shm_write [20] ?c1"
  let ?c3 = "?c2\<lparr>heads := (heads ?c2)[1 := tail ?c2]\<rparr>"
  have ring: "ring_ok wrap_ring"
    using ring_ok_zero by (simp add: ring_ok_def wrap_ring_def PROCS_def)
  have "shm_post 41 [10] wrap_ring = Some ?c1" and "shm_post 42 [20] ?c1 = Some ?c2"
    and "shm_post 41 [30] ?c3 = Some (shm_write [30] ?c3)"
    by (simp_all add: shm_post_Some shm_eval wrap_ring_def)
  note posts = this
  have "try_read 1 ?c2 = (pending 1 ?c2, ?c3)"
    by (rule try_read_eq) (simp add: wrap_ring_def PROCS_def)
  with posts have run: "mc_run shm_post try_read 1 ?ops wrap_ring =
      Some (pending 1 ?c2, shm_write [30] ?c3)" by simp
  have "backlog 1 ?c1 < N" by (simp add: backlog_def wrap_ring_def shm_eval)
  then have room: "mc_room shm_post try_read own_room 1 ?ops wrap_ring"
    using posts by (simp add: own_room_def wrap_ring_def try_read_pids split: option.splits)
  have "pending 1 ?c2 @ pending 1 (shm_write [30] ?c3) = pending 1 wrap_ring @ mc_posted ?ops"
    using shm_multicast_fifo [OF ring _ _ room _ run]
    by (simp add: wrap_ring_def PROCS_def frame_fits_def frame_size_def)
  moreover have "pending 1 wrap_ring = []"
    by (simp add: pending_def backlog_def wrap_ring_def PROCS_def)
  ultimately show ?thesis using run by (simp add: wrap_ring_def)
qed

text \<open>
  C38: \<open>try_read\<close> always ends, and returns every unread frame of the reader, oldest first,
  leaving its head at the tail and every other reader's unread frames untouched.
\<close>

theorem try_read_returns_all:
  assumes "ring_ok ch" and "idx < PROCS"
  shows "try_read idx ch = (pending idx ch, ch\<lparr>heads := (heads ch)[idx := tail ch]\<rparr>) \<and>
    pending idx (snd (try_read idx ch)) = [] \<and>
    (\<forall>i. i \<noteq> idx \<longrightarrow> pending i (snd (try_read idx ch)) = pending i ch)"
proof -
  have l: "idx < length (heads ch)" using assms by (simp add: ring_ok_def)
  have e: "try_read idx ch = (pending idx ch, ch\<lparr>heads := (heads ch)[idx := tail ch]\<rparr>)"
    using l by (rule try_read_eq)
  moreover have "pending idx (ch\<lparr>heads := (heads ch)[idx := tail ch]\<rparr>) = []"
    using l by (simp add: pending_def backlog_def)
  ultimately show ?thesis using try_read_keeps [OF assms(1) e] by simp
qed

theorem try_read_returns_all_witness:
  "try_read 1 wrap_ring = ([], wrap_ring\<lparr>heads := (heads wrap_ring)[1 := -1]\<rparr>)"
proof -
  have "ring_ok wrap_ring" using ring_ok_zero by (simp add: ring_ok_def wrap_ring_def PROCS_def)
  from try_read_returns_all [OF this, of 1] show ?thesis
    by (simp add: pending_def backlog_def wrap_ring_def PROCS_def)
qed

lemma find_after_enroll:
  assumes "first_index (\<lambda>p. p = 0) ps = Some i" and "pid \<notin> set ps"
  shows "first_index (\<lambda>p. p = pid) (ps[i := pid]) = Some i"
  using assms by (auto simp: first_index_Some)

text \<open>
  \<open>enroll\<close> takes the first free entry, starts reading at the present tail (nothing
  pending) and leaves every other reader alone; it returns -1, changing nothing, exactly when all
  eight entries are taken. \<open>find\<close> then locates the process, and \<open>leave\<close> frees the
  entry again.
\<close>

theorem enroll_find_leave:
  assumes "ring_ok ch" and "pid \<noteq> 0" and "pid \<notin> set (pids ch)"
    and "shm_enroll pid ch = (idx, ch')"
  shows "if 0 \<notin> set (pids ch) then idx = -1 \<and> ch' = ch
    else 0 \<le> idx \<and> nat idx < PROCS \<and> pids ch ! nat idx = 0 \<and> (\<forall>j<nat idx. pids ch ! j \<noteq> 0) \<and>
      pending (nat idx) ch' = [] \<and> (\<forall>j. j \<noteq> nat idx \<longrightarrow> pending j ch' = pending j ch) \<and>
      shm_find pid ch' = idx \<and> pids (shm_leave pid ch') = pids ch \<and> ring_ok ch'"
proof (cases "first_index (\<lambda>p. p = 0) (pids ch)")
  case None
  moreover from None have "0 \<notin> set (pids ch)" by (auto simp: first_index_None)
  ultimately show ?thesis using assms(4) by (simp add: shm_enroll_def)
next
  case (Some i)
  then have i: "i < length (pids ch)" "pids ch ! i = 0" "\<forall>j<i. pids ch ! j \<noteq> 0"
    by (simp_all add: first_index_Some)
  have ch': "idx = int i" "ch' = ch\<lparr>pids := (pids ch)[i := pid], heads := (heads ch)[i := tail ch]\<rparr>"
    using assms(4) Some by (simp_all add: shm_enroll_def)
  have lens: "length (heads ch) = PROCS" "length (pids ch) = PROCS"
    using assms(1) by (simp_all add: ring_ok_def)
  have find: "shm_find pid ch' = int i"
    using find_after_enroll [OF Some assms(3)] by (simp add: shm_find_def ch')
  have "slot_frame ch' = slot_frame ch" by (simp add: ch' slot_frame_def fun_eq_iff)
  moreover have "pids (shm_leave pid ch') = pids ch"
    using find i by (simp add: shm_leave_def ch' list_update_same_conv)
  moreover have "0 \<in> set (pids ch)" using i nth_mem by metis
  moreover have "ring_ok ch'" using assms(1) by (simp add: ring_ok_def ch')
  ultimately show ?thesis
    using i lens find by (simp add: ch' pending_def backlog_def)
qed

theorem enroll_find_leave_witness:
  "shm_find 77 (snd (shm_enroll 77 wrap_ring)) = 2"
proof -
  have "ring_ok wrap_ring" using ring_ok_zero by (simp add: ring_ok_def wrap_ring_def PROCS_def)
  moreover have "shm_enroll 77 wrap_ring = (2, snd (shm_enroll 77 wrap_ring))"
    by (simp add: shm_enroll_def wrap_ring_def)
  ultimately have "shm_find 77 (snd (shm_enroll 77 wrap_ring)) = 2 \<or> 0 \<notin> set (pids wrap_ring)"
    using enroll_find_leave [of wrap_ring 77 2 "snd (shm_enroll 77 wrap_ring)"]
    by (simp add: wrap_ring_def split: if_splits)
  then show ?thesis by (simp add: wrap_ring_def)
qed

section \<open>A process overruns its own reader\<close>

text \<open>
  \<open>_send\<close> does not wait for the sender's own head. When the backlog of a reader is exactly
  eight, a further write replaces its oldest unread frame and is delivered twice.
\<close>

lemma pending_write_full:
  assumes "ring_ok ch" and "length buf \<le> frame_size" and "backlog i ch = N"
  shows "pending i (shm_write buf ch) = buf # drop 1 (pending i ch) @ [buf]"
proof -
  let ?h = "heads ch ! i"
  have t: "tail ch = ?h + of_nat 8" using tail_as_head [of ch i] assms(3) by (simp only: N_def)
  have s: "slot_of (?h + of_nat k) = slot_of (tail ch) \<longleftrightarrow> k = 0" if "k < 8" for k
    using that slots_distinct [of k 8 ?h] by (cases "k = 0") (auto simp only: t slot_of_add, auto)
  have b: "backlog i (shm_write buf ch) = 9"
    using assms(3) by (subst backlog_write) (simp_all add: N_def)
  have f: "slot_frame (shm_write buf ch) (?h + of_nat k) =
      (if k = 0 \<or> k = 8 then buf else slot_frame ch (?h + of_nat k))" if "k < 9" for k
    using that s [of k] by (cases "k = 8") (auto simp: slot_frame_write assms(1,2) t)
  have "pending i (shm_write buf ch) =
      map (\<lambda>k. if k = 0 \<or> k = 8 then buf else slot_frame ch (?h + of_nat k)) [0..<9]"
    unfolding pending_def b by (rule map_cong) (simp_all add: f)
  then show ?thesis
    by (simp add: pending_def assms(3) N_def upt_conv_Cons)
qed

definition alone :: "int \<Rightarrow> shm_channel \<Rightarrow> bool" where
  "alone self ch \<longleftrightarrow> (\<forall>p\<in>set (pids ch). p = 0 \<or> p = self)"

lemma alone_room: "alone self ch \<Longrightarrow> ring_ok ch \<Longrightarrow> shm_room self ch"
  by (auto simp: alone_def shm_room_def list_all_iff ring_ok_def)

lemma own_posts:
  "ring_ok ch \<Longrightarrow> alone self ch \<Longrightarrow> backlog i ch + length fs \<le> N \<Longrightarrow> \<forall>f\<in>set fs. frame_fits f \<Longrightarrow>
     mc_run shm_post try_read i (map (Post self) fs @ ops) ch =
       mc_run shm_post try_read i ops (fold shm_write fs ch) \<and>
     pending i (fold shm_write fs ch) = pending i ch @ fs \<and> ring_ok (fold shm_write fs ch) \<and>
     alone self (fold shm_write fs ch)"
proof (induction fs arbitrary: ch)
  case Nil
  then show ?case by simp
next
  case (Cons f fs)
  have post: "shm_post self f ch = Some (shm_write f ch)"
    using Cons.prems by (simp add: shm_post_Some alone_room)
  have p: "pending i (shm_write f ch) = pending i ch @ [f]"
    using Cons.prems by (intro pending_write) (simp_all add: frame_fits_def)
  then have "backlog i (shm_write f ch) = Suc (backlog i ch)"
    by (metis length_append_singleton length_pending)
  moreover have "ring_ok (shm_write f ch)" and "alone self (shm_write f ch)"
    using Cons.prems by (simp_all add: frame_fits_def alone_def)
  ultimately show ?case using Cons.IH [of "shm_write f ch"] Cons.prems post p by simp
qed

text \<open>
  A lone process that sends nine frames before it reads never waits, and then reads
  nine frames of which the first is the ninth sent: its oldest unread frame is lost and its newest
  is delivered twice.
\<close>

theorem own_frames_overrun:
  assumes "ring_ok ch" and "alone self ch" and "pending idx ch = []" and "idx < PROCS"
    and "length fs = 9" and "\<forall>f\<in>set fs. frame_fits f"
  shows "\<exists>got ch'. mc_run shm_post try_read idx (map (Post self) fs @ [Drain idx]) ch = Some (got, ch') \<and>
    got = fs ! 8 # drop 1 fs"
proof -
  obtain gs g where fs: "fs = gs @ [g]" and gs: "length gs = 8"
    using assms(5) by (cases fs rule: rev_cases) auto
  let ?c = "fold shm_write gs ch"
  have b: "backlog idx ch = 0" using assms(3) length_pending by (metis list.size(3))
  with own_posts [OF assms(1,2), of idx gs "Post self g # [Drain idx]"] gs fs assms(3,6)
  have run: "mc_run shm_post try_read idx (map (Post self) fs @ [Drain idx]) ch =
      mc_run shm_post try_read idx [Post self g, Drain idx] ?c"
    and p: "pending idx ?c = gs" and ok: "ring_ok ?c" and al: "alone self ?c"
    by (auto simp: N_def)
  have g: "frame_fits g" using assms(6) fs by simp
  have "backlog idx ?c = N" using p gs length_pending [of idx ?c] by (simp add: N_def)
  then have "pending idx (shm_write g ?c) = g # drop 1 gs @ [g]"
    using pending_write_full [OF ok] g p by (simp add: frame_fits_def)
  moreover have "idx < length (heads (shm_write g ?c))"
    using ok assms(4) by (simp add: ring_ok_def)
  moreover have "shm_post self g ?c = Some (shm_write g ?c)"
    using al ok g by (simp add: shm_post_Some alone_room)
  moreover have "fs ! 8 # drop 1 fs = g # drop 1 gs @ [g]"
    using fs gs by (simp add: nth_append)
  ultimately show ?thesis unfolding run by (simp add: try_read_eq)
qed

theorem own_frames_overrun_witness:
  "\<exists>got ch'. mc_run shm_post try_read 0
     (map (Post 41) [[1], [2], [3], [4], [5], [6], [7], [8], [9]] @ [Drain 0])
     (shm_zero\<lparr>pids := [41, 0, 0, 0, 0, 0, 0, 0]\<rparr>) = Some (got, ch') \<and>
   got = [[9], [2], [3], [4], [5], [6], [7], [8], [9]]"
proof -
  let ?ch = "shm_zero\<lparr>pids := [41, 0, 0, 0, 0, 0, 0, 0]\<rparr>"
  have "ring_ok ?ch" using ring_ok_zero by (simp add: ring_ok_def PROCS_def)
  moreover have "alone 41 ?ch" by (simp add: alone_def)
  moreover have "pending 0 ?ch = []" by (simp add: pending_def backlog_def shm_zero_def PROCS_def)
  ultimately show ?thesis
    using own_frames_overrun [of ?ch 41 0 "[[1], [2], [3], [4], [5], [6], [7], [8], [9]]"]
    by (simp add: PROCS_def frame_fits_def frame_size_def)
qed

end
