(* ===== verification/Shm_Mutex.thy ===== *)
theory Shm_Mutex
  imports Shm_Channel
begin

text \<open>
  The System V semaphore that is to protect the ring (\<open>shm_engine.hpp\<close>): how the constructors
  initialise it, the threads that wait for it in \<open>_sem_op\<close>, and the signals that interrupt them.
\<close>

section \<open>Threads, processes and the semaphore\<close>

text \<open>
  Every constructor adds one to the semaphore (line 40) before it uses it as a mutex. \<open>Enter\<close>
  and \<open>Exit\<close> are the decrement and the increment around \<open>enroll\<close> and around the body
  of \<open>_send\<close>; with the semaphore at zero the decrement blocks the thread. \<open>Notify\<close> is the
  loop that sends SIGUSR1 to the other processes, inside the section. When the thread that takes
  the signal is blocked in \<open>semop\<close>, the call fails with EINTR, whatever the flags of the
  handler, and \<open>_sem_op\<close> calls \<open>exit\<close>: its process is gone, with no destructor of an engine run.
  Taken elsewhere, the signal runs the handler.
\<close>

datatype thread_pc = Outside | Blocked | Inside | Exited

datatype mutex_act = Construct nat | Enter nat | Block nat | Notify nat | Exit nat
  | Interrupt nat | Handle_Signal nat

record mutex_sys =
  k_sem :: nat
  k_owner :: "nat list"       \<comment> \<open>the process of each thread\<close>
  k_pcs :: "thread_pc list"
  k_built :: "bool list"      \<comment> \<open>of each process, whether its constructor has run line 40\<close>
  k_signals :: "bool list"    \<comment> \<open>of each process, whether SIGUSR1 is pending\<close>

definition k_start :: "nat \<Rightarrow> nat \<Rightarrow> nat list \<Rightarrow> mutex_sys" where
  "k_start v n ow = \<lparr>k_sem = v, k_owner = ow, k_pcs = replicate (length ow) Outside,
     k_built = replicate n False, k_signals = replicate n False\<rparr>"

definition uses :: "mutex_sys \<Rightarrow> nat \<Rightarrow> bool" where
  "uses s i \<longleftrightarrow> i < length (k_pcs s) \<and> k_built s ! (k_owner s ! i)"

fun k_exec :: "mutex_sys \<Rightarrow> mutex_act \<Rightarrow> mutex_sys option" where
  "k_exec s (Construct p) =
     (if p < length (k_built s) \<and> \<not> k_built s ! p
      then Some (s\<lparr>k_sem := k_sem s + 1, k_built := (k_built s)[p := True]\<rparr>) else None)"
| "k_exec s (Enter i) =
     (if uses s i \<and> (k_pcs s ! i = Outside \<or> k_pcs s ! i = Blocked) \<and> 0 < k_sem s
      then Some (s\<lparr>k_sem := k_sem s - 1, k_pcs := (k_pcs s)[i := Inside]\<rparr>) else None)"
| "k_exec s (Block i) =
     (if uses s i \<and> k_pcs s ! i = Outside \<and> k_sem s = 0
      then Some (s\<lparr>k_pcs := (k_pcs s)[i := Blocked]\<rparr>) else None)"
| "k_exec s (Notify i) =
     (if i < length (k_pcs s) \<and> k_pcs s ! i = Inside
      then Some (s\<lparr>k_signals := map (\<lambda>q. k_signals s ! q \<or> q \<noteq> k_owner s ! i \<and> k_built s ! q)
                                   [0..<length (k_signals s)]\<rparr>) else None)"
| "k_exec s (Exit i) =
     (if i < length (k_pcs s) \<and> k_pcs s ! i = Inside
      then Some (s\<lparr>k_sem := k_sem s + 1, k_pcs := (k_pcs s)[i := Outside]\<rparr>) else None)"
| "k_exec s (Interrupt i) =
     (if i < length (k_pcs s) \<and> k_pcs s ! i = Blocked \<and> k_signals s ! (k_owner s ! i)
      then Some (s\<lparr>k_pcs := map (\<lambda>j. if k_owner s ! j = k_owner s ! i then Exited else k_pcs s ! j)
                               [0..<length (k_pcs s)]\<rparr>) else None)"
| "k_exec s (Handle_Signal q) =
     (if q < length (k_signals s) \<and> k_signals s ! q
      then Some (s\<lparr>k_signals := (k_signals s)[q := False]\<rparr>) else None)"

definition k_step :: "mutex_sys \<Rightarrow> mutex_sys \<Rightarrow> bool" where
  "k_step s t \<longleftrightarrow> (\<exists>a. k_exec s a = Some t)"

definition inside :: "mutex_sys \<Rightarrow> nat" where
  "inside s = count_if (\<lambda>c. c = Inside) (k_pcs s)"

definition constructed :: "mutex_sys \<Rightarrow> nat" where
  "constructed s = count_if (\<lambda>b. b) (k_built s)"

section \<open>The balance of the semaphore\<close>

lemma count_change:
  "p < length xs \<Longrightarrow> Q (xs ! p) = Q y \<Longrightarrow> count_if Q (xs[p := y]) = count_if Q xs"
  using count_if_update [of p xs Q y] by simp

definition balanced :: "nat \<Rightarrow> mutex_sys \<Rightarrow> bool" where
  "balanced v s \<longleftrightarrow> k_sem s + inside s \<le> v + constructed s \<and>
     (Exited \<notin> set (k_pcs s) \<longrightarrow> k_sem s + inside s = v + constructed s)"

lemma exits_kept:
  "i < length xs \<Longrightarrow> xs ! i \<noteq> Exited \<Longrightarrow> Exited \<notin> set (xs[i := y]) \<Longrightarrow> Exited \<notin> set xs"
  by (auto simp: in_set_conv_nth nth_list_update) (metis nth_list_update_neq)

lemma count_map_le:
  "count_if (\<lambda>c. c = Inside) (map (\<lambda>j. if P j then Exited else xs ! j) [0..<length xs]) \<le>
     count_if (\<lambda>c. c = Inside) xs"
proof -
  have "{j. j < length xs \<and> (if P j then Exited else xs ! j) = Inside} \<subseteq> {j. j < length xs \<and> xs ! j = Inside}"
    by auto
  then have "card {j. j < length xs \<and> (if P j then Exited else xs ! j) = Inside} \<le>
      card {j. j < length xs \<and> xs ! j = Inside}"
    by (intro card_mono) auto
  moreover have "{j. j < length xs \<and> map (\<lambda>j. if P j then Exited else xs ! j) [0..<length xs] ! j = Inside} =
      {j. j < length xs \<and> (if P j then Exited else xs ! j) = Inside}" by auto
  ultimately show ?thesis by (simp add: count_if_def length_filter_conv_card)
qed

lemma k_exec_balance:
  assumes "k_exec s a = Some t" and "balanced v s"
  shows "balanced v t"
proof (cases a)
  case (Construct p)
  then show ?thesis
    using assms count_if_update [of p "k_built s" "\<lambda>b. b" True]
    by (auto simp: balanced_def inside_def constructed_def split: if_splits)
next
  case (Enter i)
  then show ?thesis
    using assms count_if_update [of i "k_pcs s" "\<lambda>c. c = Inside" Inside] exits_kept [of i "k_pcs s" Inside]
    by (auto simp: balanced_def inside_def constructed_def uses_def split: if_splits)
next
  case (Block i)
  then show ?thesis
    using assms count_change [of i "k_pcs s" "\<lambda>c. c = Inside" Blocked] exits_kept [of i "k_pcs s" Blocked]
    by (auto simp: balanced_def inside_def constructed_def uses_def split: if_splits)
next
  case (Exit i)
  then show ?thesis
    using assms count_if_update [of i "k_pcs s" "\<lambda>c. c = Inside" Outside] exits_kept [of i "k_pcs s" Outside]
    by (auto simp: balanced_def inside_def constructed_def split: if_splits)
next
  case (Interrupt i)
  then have i: "i < length (k_pcs s)" and t: "t = s\<lparr>k_pcs := map (\<lambda>j. if k_owner s ! j = k_owner s ! i
      then Exited else k_pcs s ! j) [0..<length (k_pcs s)]\<rparr>" using assms(1) by (auto split: if_splits)
  have "k_pcs t ! i = Exited" "i < length (k_pcs t)" using i by (simp_all add: t)
  then have "Exited \<in> set (k_pcs t)" by (metis nth_mem)
  moreover have "inside t \<le> inside s" unfolding inside_def t by (simp add: count_map_le)
  ultimately show ?thesis using assms(2) by (simp add: balanced_def constructed_def t)
qed (use assms in \<open>auto simp: balanced_def inside_def constructed_def split: if_splits\<close>)

interpretation mutex: step_invariant k_step "balanced v" for v
  by unfold_locales (auto simp: k_step_def intro: k_exec_balance)

lemma k_start_balanced: "balanced v (k_start v n ow)"
  by (simp add: balanced_def k_start_def inside_def constructed_def)

text \<open>
  C25: the semaphore's value plus the number of threads inside the critical section never exceeds the
  value it started with plus the number of engines constructed, and is equal to that as long as no
  thread has exited in its wait (those of its process that were inside are lost to the balance). So
  what limits the threads inside is the number of engines ever constructed, not one.
\<close>

theorem mutex_counts_constructors:
  assumes "reachable k_step (k_start v n ow) s"
  shows "k_sem s + inside s \<le> v + constructed s \<and>
    (Exited \<notin> set (k_pcs s) \<longrightarrow> k_sem s + inside s = v + constructed s)"
  using mutex.reachable_inv [OF assms k_start_balanced] by (simp add: balanced_def)

section \<open>One thread per process\<close>

lemma replicate_front: "k < n \<Longrightarrow> replicate (n - k) x = x # replicate (n - Suc k) x"
  by (metis Suc_diff_Suc replicate_Suc)

lemma k_reach_built:
  assumes "k \<le> n"
  shows "reachable k_step (k_start v n ow) ((k_start v n ow)\<lparr>k_sem := v + k,
    k_built := replicate k True @ replicate (n - k) False\<rparr>)"
  using assms
proof (induction k)
  case 0
  then show ?case using reachable.reach_start [of k_step "k_start v n ow"] by (simp add: k_start_def)
next
  case (Suc k)
  then have "k_exec ((k_start v n ow)\<lparr>k_sem := v + k, k_built := replicate k True @ replicate (n - k) False\<rparr>)
      (Construct k) = Some ((k_start v n ow)\<lparr>k_sem := v + Suc k,
        k_built := replicate (Suc k) True @ replicate (n - Suc k) False\<rparr>)"
    using replicate_front [of k n False]
    by (simp add: k_start_def nth_append list_update_append replicate_append_same)
  with Suc show ?case by (metis Suc_leD reachable.reach_step k_step_def)
qed

definition all_in :: "nat \<Rightarrow> nat \<Rightarrow> mutex_sys" where
  "all_in k n = \<lparr>k_sem = n - k, k_owner = [0..<n], k_pcs = replicate k Inside @ replicate (n - k) Outside,
     k_built = replicate n True, k_signals = replicate n False\<rparr>"

lemma k_reach_in:
  assumes "k \<le> n"
  shows "reachable k_step (k_start 0 n [0..<n]) (all_in k n)"
  using assms
proof (induction k)
  case 0
  then show ?case using k_reach_built [of n n 0 "[0..<n]"] by (simp add: k_start_def all_in_def)
next
  case (Suc k)
  then have "k_exec (all_in k n) (Enter k) = Some (all_in (Suc k) n)"
    using replicate_front [of k n Outside]
    by (simp add: all_in_def uses_def nth_append list_update_append replicate_append_same)
  with Suc show ?case by (metis Suc_leD reachable.reach_step k_step_def)
qed

text \<open>
  From a fresh semaphore any number of processes can be inside the critical section
  at the same time, each having constructed its engine: the initialisation is not idempotent, as
  its comment claims, and two processes are enough to break mutual exclusion.
\<close>

theorem mutex_not_exclusive:
  "\<exists>s. reachable k_step (k_start 0 n [0..<n]) s \<and> inside s = n \<and> constructed s = n \<and> k_sem s = 0"
  using k_reach_in [of n n] by (intro exI [of _ "all_in n n"]) (simp add: all_in_def inside_def constructed_def)

theorem mutex_counts_constructors_witness: "k_sem (all_in 1 2) + inside (all_in 1 2) = 0 + 2"
proof -
  have "reachable k_step (k_start 0 2 [0..<2]) (all_in 1 2)" by (rule k_reach_in) simp
  from mutex_counts_constructors [OF this]
  show ?thesis by (simp add: all_in_def constructed_def numeral_2_eq_2)
qed

text \<open>Threads of different processes: whoever is outside finds the semaphore positive.\<close>

definition one_thread_each :: "nat \<Rightarrow> mutex_sys \<Rightarrow> bool" where
  "one_thread_each v s \<longleftrightarrow> balanced v s \<and> distinct (k_owner s) \<and> length (k_owner s) = length (k_pcs s) \<and>
     (\<forall>p\<in>set (k_owner s). p < length (k_built s)) \<and> Blocked \<notin> set (k_pcs s) \<and> Exited \<notin> set (k_pcs s) \<and>
     (\<forall>i<length (k_pcs s). k_pcs s ! i = Inside \<longrightarrow> k_built s ! (k_owner s ! i))"

lemma outside_positive:
  assumes "one_thread_each v s" and "uses s i" and "k_pcs s ! i \<noteq> Inside"
  shows "0 < k_sem s"
proof -
  note o = assms(1) [unfolded one_thread_each_def]
  let ?I = "{j. j < length (k_pcs s) \<and> k_pcs s ! j = Inside}"
  let ?B = "{p. p < length (k_built s) \<and> k_built s ! p}"
  have i: "i < length (k_pcs s)" "k_built s ! (k_owner s ! i)" using assms(2) by (simp_all add: uses_def)
  have inj: "inj_on ((!) (k_owner s)) (insert i ?I)"
    using o i by (auto simp: inj_on_def nth_eq_iff_index_eq)
  have sub: "(!) (k_owner s) ` insert i ?I \<subseteq> ?B" using o i by auto
  have fin: "finite ?I" "finite ?B" by auto
  have "i \<notin> ?I" using assms(3) by simp
  then have "Suc (card ?I) = card (insert i ?I)" using fin by simp
  also have "\<dots> = card ((!) (k_owner s) ` insert i ?I)" using card_image [OF inj] by simp
  also have "\<dots> \<le> card ?B" by (rule card_mono [OF fin(2) sub])
  finally have "inside s < constructed s"
    by (simp add: inside_def constructed_def count_if_def length_filter_conv_card)
  moreover have "k_sem s + inside s = v + constructed s" using o by (simp add: balanced_def)
  ultimately show ?thesis by linarith
qed

lemma one_thread_exec:
  assumes "k_exec s a = Some t" and "one_thread_each v s"
  shows "one_thread_each v t"
proof -
  note o = assms(2) [unfolded one_thread_each_def]
  have b: "balanced v t" by (rule k_exec_balance [OF assms(1)]) (use o in simp)
  have no: "\<not> (uses s i \<and> k_sem s = 0 \<and> k_pcs s ! i = Outside)" for i
    using outside_positive [OF assms(2), of i] by auto
  have nb: "k_pcs s ! i \<noteq> Blocked" if "i < length (k_pcs s)" for i using o that nth_mem by metis
  show ?thesis
  proof (cases a)
    case (Construct p)
    then show ?thesis using assms(1) b o by (auto simp: one_thread_each_def nth_list_update split: if_splits)
  next
    case (Enter i)
    then have t: "t = s\<lparr>k_sem := k_sem s - 1, k_pcs := (k_pcs s)[i := Inside]\<rparr>" and u: "uses s i"
      using assms(1) by (auto split: if_splits)
    show ?thesis
      using b o u set_update_subset_insert [of "k_pcs s" i Inside]
      by (auto simp: one_thread_each_def t uses_def nth_list_update)
  next
    case (Block i)
    then show ?thesis using assms(1) no [of i] by (auto split: if_splits)
  next
    case (Exit i)
    then have t: "t = s\<lparr>k_sem := k_sem s + 1, k_pcs := (k_pcs s)[i := Outside]\<rparr>" and "i < length (k_pcs s)"
      using assms(1) by (auto split: if_splits)
    then show ?thesis
      using b o set_update_subset_insert [of "k_pcs s" i Outside]
      by (auto simp: one_thread_each_def t nth_list_update)
  next
    case (Interrupt i)
    then show ?thesis using assms(1) nb [of i] by (auto split: if_splits)
  qed (use assms(1) b o in \<open>auto simp: one_thread_each_def split: if_splits\<close>)
qed

interpretation single: step_invariant k_step "one_thread_each v" for v
  by unfold_locales (auto simp: k_step_def intro: one_thread_exec)

text \<open>
  C29 (finding): when every process uses its engine from one thread, nobody ever waits for the mutex:
  a thread outside always finds the semaphore positive and enters, however many are inside. The
  critical section is not one; its waits, and with them the interrupted ones, occur only when a
  process has more sending threads.
\<close>

theorem mutex_never_waits:
  assumes "reachable k_step (k_start v n ow) s" and "distinct ow" and "set ow \<subseteq> {..<n}"
  shows "Blocked \<notin> set (k_pcs s) \<and>
    (\<forall>i. uses s i \<and> k_pcs s ! i = Outside \<longrightarrow> (\<exists>t. k_exec s (Enter i) = Some t \<and> inside t = inside s + 1))"
proof -
  have "one_thread_each v (k_start v n ow)"
    using assms(2,3) k_start_balanced [of v n ow] by (auto simp: one_thread_each_def k_start_def)
  from single.reachable_inv [OF assms(1) this] have o: "one_thread_each v s" .
  have "inside (s\<lparr>k_sem := k_sem s - 1, k_pcs := (k_pcs s)[i := Inside]\<rparr>) = inside s + 1"
    if "uses s i" "k_pcs s ! i = Outside" for i
    using that count_if_update [of i "k_pcs s" "\<lambda>c. c = Inside" Inside] by (simp add: inside_def uses_def)
  then have "\<exists>t. k_exec s (Enter i) = Some t \<and> inside t = inside s + 1" if "uses s i" "k_pcs s ! i = Outside" for i
    using that outside_positive [OF o that(1)] by simp
  then show ?thesis using o by (simp add: one_thread_each_def)
qed

theorem mutex_never_waits_witness:
  "\<exists>t. k_exec (all_in 1 2) (Enter 1) = Some t \<and> inside t = 2"
proof -
  have r: "reachable k_step (k_start 0 2 [0..<2]) (all_in 1 2)" by (rule k_reach_in) simp
  have "uses (all_in 1 2) 1 \<and> k_pcs (all_in 1 2) ! 1 = Outside" by (simp add: all_in_def uses_def numeral_2_eq_2)
  then have "\<exists>t. k_exec (all_in 1 2) (Enter 1) = Some t \<and> inside t = inside (all_in 1 2) + 1"
    using mutex_never_waits [OF r] by (simp add: atLeast0LessThan)
  moreover have "inside (all_in 1 2) = 1" by (simp add: all_in_def inside_def)
  ultimately show ?thesis by (simp only: one_add_one)
qed

section \<open>Interrupted waits\<close>









end
