(* ===== verification/Shm_System.thy ===== *)
theory Shm_System
  imports Shm_Channel
begin

text \<open>
  \<open>ShmEngine\<close> (\<open>shm_engine.hpp\<close>) with several processes: the interleaving of \<open>_send\<close>
  (one step per shared access, the wait loop that gives the mutex back included) with the reader
  threads, which run without the mutex when a signal wakes them.
  Process \<open>p\<close> has process id \<open>p + 1\<close> and is enrolled in entry \<open>p\<close>.
\<close>

section \<open>Senders and readers, interleaved\<close>

datatype writer_pc =
    W_Idle
  | W_Check nat "byte list"   \<comment> \<open>about to test entry \<open>i\<close> (holds the mutex)\<close>
  | W_Spin nat "byte list"    \<comment> \<open>about to compare the head of entry \<open>i\<close> (holds the mutex)\<close>
  | W_Yield nat "byte list"   \<comment> \<open>gave the mutex back, waiting to retry entry \<open>i\<close>\<close>

datatype reader_pc = R_Wait | R_Read

record shm_sys =
  chan :: shm_channel
  semv :: nat
  writers :: "writer_pc list"
  readers :: "reader_pc list"
  wakeups :: "nat list"               \<comment> \<open>the notification semaphores\<close>
  handled :: "byte list list list"  \<comment> \<open>the frames given to each process's \<open>_handle\<close>\<close>

definition pid_of :: "nat \<Rightarrow> int" where "pid_of p = int p + 1"

definition shm_start :: "nat \<Rightarrow> nat \<Rightarrow> shm_sys" where
  "shm_start n v =
     \<lparr>chan = fold (\<lambda>p ch. snd (shm_enroll (pid_of p) ch)) [0..<n] shm_zero, semv = v,
      writers = replicate n W_Idle, readers = replicate n R_Wait, wakeups = replicate n 0,
      handled = replicate n []\<rparr>"

datatype shm_act = Begin nat "byte list" | Advance nat | Wake nat | Read nat | Leave nat

definition set_writer :: "nat \<Rightarrow> writer_pc \<Rightarrow> shm_sys \<Rightarrow> shm_sys" where
  "set_writer p w s = s\<lparr>writers := (writers s)[p := w]\<rparr>"

definition shm_notify :: "int list \<Rightarrow> nat list \<Rightarrow> nat list" where
  "shm_notify sigs ks =
     map (\<lambda>q. if pid_of q \<in> set sigs then ks ! q + 1 else ks ! q) [0..<length ks]"

fun shm_advance :: "nat \<Rightarrow> writer_pc \<Rightarrow> shm_sys \<Rightarrow> shm_sys option" where
  "shm_advance p W_Idle s = None"
| "shm_advance p (W_Check i buf) s =
     (if i < PROCS
      then (if pids (chan s) ! i \<noteq> 0 \<and> pids (chan s) ! i \<noteq> pid_of p
            then Some (set_writer p (W_Spin i buf) s)
            else Some (set_writer p (W_Check (Suc i) buf) s))
      else Some (set_writer p W_Idle
             (s\<lparr>chan := shm_write buf (chan s),
                wakeups := shm_notify (shm_signals (pid_of p) (chan s)) (wakeups s),
                semv := semv s + 1\<rparr>)))"
| "shm_advance p (W_Spin i buf) s =
     (if tail (chan s) - heads (chan s) ! i < of_nat N
      then Some (set_writer p (W_Check (Suc i) buf) s)
      else Some (set_writer p (W_Yield i buf) (s\<lparr>semv := semv s + 1\<rparr>)))"
| "shm_advance p (W_Yield i buf) s =
     (if 0 < semv s then Some (set_writer p (W_Spin i buf) (s\<lparr>semv := semv s - 1\<rparr>)) else None)"

fun shm_exec :: "shm_sys \<Rightarrow> shm_act \<Rightarrow> shm_sys option" where
  "shm_exec s (Begin p buf) =
     (if p < length (writers s) \<and> writers s ! p = W_Idle \<and> 0 < semv s \<and> length buf \<le> frame_size
      then Some (set_writer p (W_Check 0 buf) (s\<lparr>semv := semv s - 1\<rparr>)) else None)"
| "shm_exec s (Advance p) =
     (if p < length (writers s) then shm_advance p (writers s ! p) s else None)"
| "shm_exec s (Wake p) =
     (if p < length (readers s) \<and> readers s ! p = R_Wait \<and> 0 < wakeups s ! p
      then Some (s\<lparr>wakeups := (wakeups s)[p := wakeups s ! p - 1], readers := (readers s)[p := R_Read]\<rparr>)
      else None)"
| "shm_exec s (Read p) =
     (if p < length (readers s) \<and> readers s ! p = R_Read
      then (if heads (chan s) ! p = tail (chan s)
            then Some (s\<lparr>readers := (readers s)[p := R_Wait]\<rparr>)
            else Some (s\<lparr>chan := snd (shm_read_one p (chan s)),
                         handled := (handled s)[p := handled s ! p @ [fst (shm_read_one p (chan s))]]\<rparr>))
      else None)"
| "shm_exec s (Leave p) =
     (if p < length (writers s) \<and> writers s ! p = W_Idle
      then Some (s\<lparr>chan := shm_leave (pid_of p) (chan s)\<rparr>) else None)"

fun shm_run :: "shm_sys \<Rightarrow> shm_act list \<Rightarrow> shm_sys option" where
  "shm_run s [] = Some s"
| "shm_run s (a # as) = (case shm_exec s a of None \<Rightarrow> None | Some t \<Rightarrow> shm_run t as)"

lemma shm_run_append:
  "shm_run s (as @ bs) = (case shm_run s as of None \<Rightarrow> None | Some t \<Rightarrow> shm_run t bs)"
  by (induction s as rule: shm_run.induct) (auto split: option.splits)

definition shm_runs :: "(shm_act \<Rightarrow> bool) \<Rightarrow> shm_sys \<Rightarrow> shm_sys \<Rightarrow> bool" where
  "shm_runs P s t \<longleftrightarrow> (\<exists>acts. shm_run s acts = Some t \<and> (\<forall>a\<in>set acts. P a))"

lemma shm_runs_refl [simp, intro]: "shm_runs P s s"
  unfolding shm_runs_def by (intro exI [of _ "[]"]) simp

lemma shm_runs_trans: "shm_runs P s t \<Longrightarrow> shm_runs P t u \<Longrightarrow> shm_runs P s u"
  unfolding shm_runs_def
  by (elim exE conjE, rename_tac as bs, rule_tac x = "as @ bs" in exI)
    (auto simp: shm_run_append)

lemma shm_runs_exec: "shm_exec s a = Some t \<Longrightarrow> P a \<Longrightarrow> shm_runs P s t"
  unfolding shm_runs_def by (intro exI [of _ "[a]"]) simp

lemma shm_runs_snoc: "shm_runs P s t \<Longrightarrow> shm_exec t a = Some u \<Longrightarrow> P a \<Longrightarrow> shm_runs P s u"
  by (blast intro: shm_runs_trans shm_runs_exec)

text \<open>The checks of \<open>_send\<close> succeed one after another when every other reader has room.\<close>

lemma set_writer_simps [simp]:
  "chan (set_writer p w s) = chan s" "semv (set_writer p w s) = semv s"
  "readers (set_writer p w s) = readers s" "wakeups (set_writer p w s) = wakeups s"
  "handled (set_writer p w s) = handled s" "writers (set_writer p w s) = (writers s)[p := w]"
  "set_writer p w (set_writer p w' s) = set_writer p w s"
  by (simp_all add: set_writer_def)

lemma check_run:
  assumes "i \<le> PROCS" and "p < length (writers s)" and "writers s ! p = W_Check i buf"
    and "shm_room (pid_of p) (chan s)" and "P (Advance p)"
  shows "shm_runs P s (set_writer p (W_Check PROCS buf) s)"
  using assms(1-4)
proof (induction "PROCS - i" arbitrary: i s)
  case 0
  then have "set_writer p (W_Check PROCS buf) s = s"
    by (metis diff_is_0_eq le_antisym list_update_id set_writer_def shm_sys.surjective
        shm_sys.update_convs(3) shm_sys.simps(3))
  then show ?case by simp
next
  case (Suc k)
  let ?t = "set_writer p (W_Check (Suc i) buf) s"
  have i: "i < PROCS" using Suc.hyps(2) by simp
  have "shm_runs P ?t (set_writer p (W_Check PROCS buf) ?t)"
    using Suc.hyps(2) Suc.prems i by (intro Suc.hyps(1) [of "Suc i"]) simp_all
  moreover have "shm_runs P s ?t"
  proof (cases "pids (chan s) ! i \<noteq> 0 \<and> pids (chan s) ! i \<noteq> pid_of p")
    case True
    let ?u = "set_writer p (W_Spin i buf) s"
    have "tail (chan s) - heads (chan s) ! i < of_nat N"
      using Suc.prems(4) i True by (simp add: shm_room_def list_all_iff)
    then have "shm_exec ?u (Advance p) = Some ?t" using Suc.prems by simp
    moreover have "shm_exec s (Advance p) = Some ?u" using Suc.prems i True by simp
    ultimately show ?thesis using assms(5) by (blast intro: shm_runs_trans shm_runs_exec)
  next
    case False
    then have "shm_exec s (Advance p) = Some ?t" using Suc.prems i by auto
    with assms(5) show ?thesis by (blast intro: shm_runs_exec)
  qed
  ultimately show ?case by (auto intro: shm_runs_trans)
qed

definition sent :: "nat \<Rightarrow> byte list \<Rightarrow> shm_sys \<Rightarrow> shm_sys" where
  "sent p buf s = s\<lparr>chan := shm_write buf (chan s),
     wakeups := shm_notify (shm_signals (pid_of p) (chan s)) (wakeups s)\<rparr>"

lemma runs_write:
  assumes "p < length (writers s)" and "writers s ! p = W_Check i buf" and "i \<le> PROCS"
    and "shm_room (pid_of p) (chan s)" and "P (Advance p)"
  shows "shm_runs P s (set_writer p W_Idle (sent p buf (s\<lparr>semv := semv s + 1\<rparr>)))"
proof -
  let ?t = "set_writer p (W_Check PROCS buf) s"
  have "shm_exec ?t (Advance p) = Some (set_writer p W_Idle (sent p buf (s\<lparr>semv := semv s + 1\<rparr>)))"
    using assms(1) by (simp add: sent_def set_writer_def)
  then show ?thesis using check_run [where P = P, OF assms(3,1,2,4,5)] assms(5) by (blast intro: shm_runs_snoc)
qed

lemma runs_send:
  assumes "p < length (writers s)" and "writers s ! p = W_Idle" and "0 < semv s"
    and "length buf \<le> frame_size" and "shm_room (pid_of p) (chan s)"
    and "P (Advance p)" and "P (Begin p buf)"
  shows "shm_runs P s (sent p buf s)"
proof -
  let ?t = "set_writer p (W_Check 0 buf) (s\<lparr>semv := semv s - 1\<rparr>)"
  have "shm_exec s (Begin p buf) = Some ?t" using assms by simp
  moreover have "shm_runs P ?t (set_writer p W_Idle (sent p buf (?t\<lparr>semv := semv ?t + 1\<rparr>)))"
    using assms by (intro runs_write [of p ?t 0]) simp_all
  moreover have "set_writer p W_Idle (sent p buf (?t\<lparr>semv := semv ?t + 1\<rparr>)) = sent p buf s"
    using assms(1-3) list_update_id [of "writers s" p] by (simp add: sent_def set_writer_def)
  ultimately show ?thesis using assms(7) by (metis shm_runs_exec shm_runs_trans)
qed

section \<open>Configurations\<close>

text \<open>
  \<open>at_cfg\<close> says that a run with permitted actions leads from the start of \<open>n\<close> processes
  to a state with these counters and program points; the rules follow one action each.
\<close>

definition cfg :: "nat \<Rightarrow> shm_sys \<Rightarrow> nat \<Rightarrow> u32 \<Rightarrow> u32 list \<Rightarrow> reader_pc list \<Rightarrow> nat list \<Rightarrow>
    writer_pc list \<Rightarrow> bool" where
  "cfg n s v t hs rs ks ws \<longleftrightarrow>
     semv s = v \<and> tail (chan s) = t \<and> heads (chan s) = hs \<and> readers s = rs \<and> wakeups s = ks \<and>
     writers s = ws \<and> pids (chan s) = map pid_of [0..<n] @ replicate (PROCS - n) 0 \<and>
     length rs = n \<and> length ks = n \<and> length ws = n \<and> n \<le> PROCS"

definition at_cfg :: "(shm_act \<Rightarrow> bool) \<Rightarrow> nat \<Rightarrow> nat \<Rightarrow> u32 \<Rightarrow> u32 list \<Rightarrow> reader_pc list \<Rightarrow>
    nat list \<Rightarrow> writer_pc list \<Rightarrow> bool" where
  "at_cfg P n v t hs rs ks ws \<longleftrightarrow> (\<exists>s. shm_runs P (shm_start n 1) s \<and> cfg n s v t hs rs ks ws)"

lemma pids_nth:
  "j < PROCS \<Longrightarrow> n \<le> PROCS \<Longrightarrow>
     (map pid_of [0..<n] @ replicate (PROCS - n) 0) ! j = (if j < n then pid_of j else 0)"
  by (simp add: nth_append)

lemma start_chan:
  assumes "n \<le> PROCS"
  shows "fold (\<lambda>p ch. snd (shm_enroll (pid_of p) ch)) [0..<n] shm_zero =
    shm_zero\<lparr>pids := map pid_of [0..<n] @ replicate (PROCS - n) 0\<rparr>"
  using assms
proof (induction n)
  case 0
  show ?case by (simp add: shm_zero_def)
next
  case (Suc n)
  let ?ps = "map pid_of [0..<n] @ replicate (PROCS - n) 0"
  have r: "replicate (PROCS - n) (0::int) = 0 # replicate (PROCS - Suc n) 0"
    using Suc.prems by (metis Suc_diff_Suc Suc_le_lessD replicate_Suc)
  have "first_index (\<lambda>p. p = 0) ?ps = Some n"
    using Suc.prems by (auto simp: first_index_Some nth_append pid_of_def)
  moreover have "?ps[n := pid_of n] = map pid_of [0..<Suc n] @ replicate (PROCS - Suc n) 0"
    by (simp add: r list_update_append)
  moreover have "(heads shm_zero)[n := tail shm_zero] = heads shm_zero"
    using Suc.prems by (simp add: shm_zero_def list_update_same_conv)
  ultimately show ?case using Suc by (simp add: shm_enroll_def)
qed

lemma at_start:
  "n \<le> PROCS \<Longrightarrow>
     at_cfg P n 1 0 (replicate PROCS 0) (replicate n R_Wait) (replicate n 0) (replicate n W_Idle)"
  unfolding at_cfg_def
  by (rule exI [of _ "shm_start n 1"])
    (simp add: cfg_def shm_start_def start_chan, simp add: shm_zero_def)

lemma at_step:
  assumes "at_cfg P n v t hs rs ks ws" and "P a"
    and "\<And>s. cfg n s v t hs rs ks ws \<Longrightarrow>
      \<exists>s'. shm_exec s a = Some s' \<and> cfg n s' v' t' hs' rs' ks' ws'"
  shows "at_cfg P n v' t' hs' rs' ks' ws'"
  using assms unfolding at_cfg_def by (blast intro: shm_runs_snoc)

definition bump :: "nat \<Rightarrow> nat list \<Rightarrow> nat list" where
  "bump p ks = map (\<lambda>q. if q \<noteq> p then ks ! q + 1 else ks ! q) [0..<length ks]"

lemma cfg_room:
  assumes "cfg n s v t hs rs ks ws" and "p < n"
  shows "shm_room (pid_of p) (chan s) \<longleftrightarrow> list_all (\<lambda>j. j \<noteq> p \<longrightarrow> t - hs ! j < 8) [0..<n]"
proof -
  have ps: "pids (chan s) ! j = (if j < n then pid_of j else 0)" if "j < PROCS" for j
    using assms that pids_nth [of j n] by (simp add: cfg_def)
  show ?thesis
    using assms ps by (auto simp: shm_room_def list_all_iff cfg_def pid_of_def N_def)
qed

lemma cfg_notify:
  assumes "cfg n s v t hs rs ks ws" and "p < n"
  shows "shm_notify (shm_signals (pid_of p) (chan s)) ks = bump p ks"
proof -
  have "pids (chan s) = map pid_of [0..<n] @ replicate (PROCS - n) 0" and "length ks = n"
    using assms by (simp_all add: cfg_def)
  then show ?thesis
    by (auto simp: shm_notify_def bump_def shm_signals_def pid_of_def intro!: map_cong)
qed

lemma at_send:
  assumes "at_cfg P n v t hs rs ks ws" and "P (Advance p)" and "P (Begin p [])"
    and "p < n" and "ws ! p = W_Idle" and "0 < v"
    and "list_all (\<lambda>j. j \<noteq> p \<longrightarrow> t - hs ! j < 8) [0..<n]"
  shows "at_cfg P n v (t + 1) hs rs (bump p ks) ws"
proof -
  obtain s where r: "shm_runs P (shm_start n 1) s" and c: "cfg n s v t hs rs ks ws"
    using assms(1) by (auto simp: at_cfg_def)
  have "shm_runs P s (sent p [] s)"
    using assms c cfg_room [OF c, of p] by (intro runs_send) (auto simp: cfg_def)
  moreover have "cfg n (sent p [] s) v (t + 1) hs rs (bump p ks) ws"
    using c cfg_notify [OF c assms(4)] by (simp add: cfg_def sent_def bump_def)
  ultimately show ?thesis using r unfolding at_cfg_def by (blast intro: shm_runs_trans)
qed

lemma at_wake:
  assumes "at_cfg P n v t hs rs ks ws" and "P (Wake p)" and "p < n" and "rs ! p = R_Wait"
    and "0 < ks ! p"
  shows "at_cfg P n v t hs (rs[p := R_Read]) (ks[p := ks ! p - 1]) ws"
  using assms(1,2) by (rule at_step) (use assms in \<open>simp add: cfg_def\<close>)

lemma at_read:
  assumes "at_cfg P n v t hs rs ks ws" and "P (Read p)" and "p < n" and "rs ! p = R_Read"
    and "hs ! p \<noteq> t"
  shows "at_cfg P n v t (hs[p := hs ! p + 1]) rs ks ws"
  using assms(1,2)
  by (rule at_step) (use assms in \<open>simp add: cfg_def shm_read_one_def Let_def\<close>)

lemma at_begin:
  assumes "at_cfg P n v t hs rs ks ws" and "P (Begin p [])" and "p < n" and "ws ! p = W_Idle"
    and "0 < v"
  shows "at_cfg P n (v - 1) t hs rs ks (ws[p := W_Check 0 []])"
  using assms(1,2) by (rule at_step) (use assms in \<open>simp add: cfg_def\<close>)

lemma at_check:
  assumes "at_cfg P n v t hs rs ks ws" and "P (Advance p)" and "p < n" and "ws ! p = W_Check i b"
    and "i < PROCS"
  shows "at_cfg P n v t hs rs ks
    (ws[p := if i < n \<and> i \<noteq> p then W_Spin i b else W_Check (Suc i) b])"
  using assms(1,2)
  by (rule at_step) (use assms in \<open>simp add: cfg_def pids_nth, simp add: pid_of_def\<close>)

lemma at_skip_rest:
  assumes "P (Advance p)" and "p < n" and "n \<le> i" and "i \<le> PROCS"
    and "at_cfg P n v t hs rs ks ws" and "ws ! p = W_Check i b" and "length ws = n"
  shows "at_cfg P n v t hs rs ks (ws[p := W_Check PROCS b])"
  using assms(3-7)
proof (induction "PROCS - i" arbitrary: i ws)
  case 0
  then have "ws[p := W_Check PROCS b] = ws" by (metis diff_is_0_eq le_antisym list_update_id)
  with 0 show ?case by simp
next
  case (Suc k)
  then have "at_cfg P n v t hs rs ks (ws[p := W_Check (Suc i) b])"
    using at_check [OF Suc.prems(3) assms(1,2) Suc.prems(4)] by simp
  moreover have "ws[p := W_Check (Suc i) b, p := W_Check PROCS b] = ws[p := W_Check PROCS b]" by simp
  ultimately show ?case
    using Suc.hyps(1) [of "Suc i" "ws[p := W_Check (Suc i) b]"] Suc.hyps(2) Suc.prems assms(2) by simp
qed

lemma at_write:
  assumes "at_cfg P n v t hs rs ks ws" and "P (Advance p)" and "p < n"
    and "ws ! p = W_Check PROCS []"
  shows "at_cfg P n (v + 1) (t + 1) hs rs (bump p ks) (ws[p := W_Idle])"
  using assms(1,2)
proof (rule at_step)
  fix s assume c: "cfg n s v t hs rs ks ws"
  let ?t = "set_writer p W_Idle (sent p [] (s\<lparr>semv := semv s + 1\<rparr>))"
  have "shm_exec s (Advance p) = Some ?t"
    using c assms by (simp add: cfg_def sent_def set_writer_def)
  moreover have "cfg n ?t (v + 1) (t + 1) hs rs (bump p ks) (ws[p := W_Idle])"
    using c cfg_notify [OF c assms(3)] by (simp add: cfg_def sent_def bump_def)
  ultimately show "\<exists>s'. shm_exec s (Advance p) = Some s' \<and>
      cfg n s' (v + 1) (t + 1) hs rs (bump p ks) (ws[p := W_Idle])" by blast
qed

lemma at_spin_room:
  assumes "at_cfg P n v t hs rs ks ws" and "P (Advance p)" and "p < n" and "ws ! p = W_Spin i b"
    and "t - hs ! i < 8"
  shows "at_cfg P n v t hs rs ks (ws[p := W_Check (Suc i) b])"
  using assms(1,2) by (rule at_step) (use assms in \<open>simp add: cfg_def N_def\<close>)

lemma at_spin_full:
  assumes "at_cfg P n v t hs rs ks ws" and "P (Advance p)" and "p < n" and "ws ! p = W_Spin i b"
    and "\<not> t - hs ! i < 8"
  shows "at_cfg P n (v + 1) t hs rs ks (ws[p := W_Yield i b])"
  using assms(1,2) by (rule at_step) (use assms in \<open>simp add: cfg_def N_def\<close>)

lemma at_relock:
  assumes "at_cfg P n v t hs rs ks ws" and "P (Advance p)" and "p < n" and "ws ! p = W_Yield i b"
    and "0 < v"
  shows "at_cfg P n (v - 1) t hs rs ks (ws[p := W_Spin i b])"
  using assms(1,2) by (rule at_step) (use assms in \<open>simp add: cfg_def\<close>)

section \<open>A race in the wait loop\<close>

text \<open>
  \<open>_send\<close> tests the readers one by one and gives the mutex back while it waits for one of
  them; the tests it passed before are not repeated. Process 0 passes reader 1 at a backlog of
  seven and waits for reader 2; process 2 reads one frame and sends one; process 0 then writes
  although reader 1 is full.
\<close>

lemma at_send_many:
  assumes "P (Advance p)" and "P (Begin p [])" and "p < n" and "ws ! p = W_Idle" and "0 < v"
    and "\<forall>j<n. j \<noteq> p \<longrightarrow> unat (t - hs ! j) + k \<le> 8" and "length ks = n"
    and "at_cfg P n v t hs rs ks ws"
  shows "at_cfg P n v (t + of_nat k) hs rs (map (\<lambda>q. if q \<noteq> p then ks ! q + k else ks ! q) [0..<n]) ws"
  using assms(6,7,8)
proof (induction k arbitrary: t ks)
  case 0
  moreover have "map (\<lambda>q. if q \<noteq> p then ks ! q + 0 else ks ! q) [0..<n] = ks"
    using 0 by (intro nth_equalityI) auto
  ultimately show ?case by simp
next
  case (Suc k)
  have lt: "t - hs ! j < 8" and up: "unat (t + 1 - hs ! j) + k \<le> 8" if "j < n" "j \<noteq> p" for j
  proof -
    have b: "unat (t - hs ! j) + Suc k \<le> 8" using Suc.prems(1) that by simp
    then show "t - hs ! j < 8" by (simp add: word_less_nat_alt)
    have "unat (t - hs ! j + 1) \<le> Suc (unat (t - hs ! j))"
      by (simp only: unat_word_ariths(1) unat_1 add_Suc_right add_0_right One_nat_def mod_less_eq_dividend)
    moreover have "t + 1 - hs ! j = t - hs ! j + 1" by simp
    ultimately have "unat (t + 1 - hs ! j) \<le> Suc (unat (t - hs ! j))" by (simp only:)
    with b show "unat (t + 1 - hs ! j) + k \<le> 8" by linarith
  qed
  have "at_cfg P n v (t + 1) hs rs (bump p ks) ws"
    by (rule at_send [OF Suc.prems(3) assms(1-5)]) (simp add: list_all_iff lt)
  from Suc.IH [OF _ _ this] up Suc.prems(2)
  have "at_cfg P n v (t + 1 + of_nat k) hs rs
      (map (\<lambda>q. if q \<noteq> p then bump p ks ! q + k else bump p ks ! q) [0..<n]) ws"
    by (simp add: bump_def)
  moreover have "map (\<lambda>q. if q \<noteq> p then bump p ks ! q + k else bump p ks ! q) [0..<n] =
      map (\<lambda>q. if q \<noteq> p then ks ! q + Suc k else ks ! q) [0..<n]"
    using Suc.prems(2) by (simp add: bump_def)
  ultimately show ?case by (simp add: add.assoc)
qed

text \<open>
  The run in three parts: process 1 falls eight frames behind; a sender looks at its head after it read
  one and goes on to process 2, for which it waits; meanwhile process 2 sends and makes room.
\<close>

abbreviation only_reads :: "nat \<Rightarrow> shm_act \<Rightarrow> bool" where
  "only_reads p a \<equiv> \<forall>buf. a \<noteq> Begin p buf"

lemma reader_one_behind:
  "at_cfg (only_reads 1) 3 1 8 [1,1,0,0,0,0,0,0] [R_Read,R_Read,R_Wait] [0,7,7] [W_Idle,W_Idle,W_Idle]"
proof -
  let ?P = "only_reads 1"
  have "at_cfg ?P 3 1 0 [0,0,0,0,0,0,0,0] [R_Wait,R_Wait,R_Wait] [0,0,0] [W_Idle,W_Idle,W_Idle]"
    using at_start [of 3 ?P] by (simp add: PROCS_def numeral_eq_Suc)
  from at_send [OF this, where p = 2]
  have "at_cfg ?P 3 1 1 [0,0,0,0,0,0,0,0] [R_Wait,R_Wait,R_Wait] [1,1,0] [W_Idle,W_Idle,W_Idle]"
    by (simp add: bump_def upt_conv_Cons)
  from at_read [OF at_wake [OF this, where p = 0], where p = 0]
  have "at_cfg ?P 3 1 1 [1,0,0,0,0,0,0,0] [R_Read,R_Wait,R_Wait] [0,1,0] [W_Idle,W_Idle,W_Idle]"
    by simp
  from at_send_many [OF _ _ _ _ _ _ _ this, where p = 0 and k = 7]
  have "at_cfg ?P 3 1 8 [1,0,0,0,0,0,0,0] [R_Read,R_Wait,R_Wait] [0,8,7] [W_Idle,W_Idle,W_Idle]"
    by (simp add: upt_conv_Cons less_Suc_eq numeral_3_eq_3)
  from at_read [OF at_wake [OF this, where p = 1], where p = 1]
  show ?thesis
    by simp
qed

lemma sender_past_reader_one:
  "at_cfg (only_reads 1) 3 0 8 [1,1,0,0,0,0,0,0] [R_Read,R_Read,R_Wait] [0,7,7] [W_Spin 2 [],W_Idle,W_Idle]"
proof -
  let ?P = "only_reads 1"
  from at_begin [OF reader_one_behind, where p = 0]
  have "at_cfg ?P 3 0 8 [1,1,0,0,0,0,0,0] [R_Read,R_Read,R_Wait] [0,7,7] [W_Check 0 [],W_Idle,W_Idle]"
    by simp
  from at_check [OF this, where p = 0 and i = 0]
  have "at_cfg ?P 3 0 8 [1,1,0,0,0,0,0,0] [R_Read,R_Read,R_Wait] [0,7,7] [W_Check 1 [],W_Idle,W_Idle]"
    by (simp add: PROCS_def)
  from at_check [OF this, where p = 0 and i = 1]
  have "at_cfg ?P 3 0 8 [1,1,0,0,0,0,0,0] [R_Read,R_Read,R_Wait] [0,7,7] [W_Spin 1 [],W_Idle,W_Idle]"
    by (simp add: PROCS_def)
  from at_spin_room [OF this, where p = 0 and i = 1]
  have "at_cfg ?P 3 0 8 [1,1,0,0,0,0,0,0] [R_Read,R_Read,R_Wait] [0,7,7] [W_Check (Suc (Suc 0)) [],W_Idle,W_Idle]"
    by simp
  then have "at_cfg ?P 3 0 8 [1,1,0,0,0,0,0,0] [R_Read,R_Read,R_Wait] [0,7,7] [W_Check 2 [],W_Idle,W_Idle]"
    by (simp only: numeral_2_eq_2)
  from at_check [OF this, where p = 0 and i = 2]
  show ?thesis
    by (simp add: PROCS_def)
qed

lemma reader_one_overrun:
  "at_cfg (only_reads 1) 3 1 10 [1,1,2,0,0,0,0,0] [R_Read,R_Read,R_Read] [1,9,7] [W_Idle,W_Idle,W_Idle]"
proof -
  let ?P = "only_reads 1"
  from at_spin_full [OF sender_past_reader_one, where p = 0 and i = 2]
  have "at_cfg ?P 3 1 8 [1,1,0,0,0,0,0,0] [R_Read,R_Read,R_Wait] [0,7,7] [W_Yield 2 [],W_Idle,W_Idle]"
    by simp
  from at_read [OF at_wake [OF this, where p = 2], where p = 2]
  have "at_cfg ?P 3 1 8 [1,1,1,0,0,0,0,0] [R_Read,R_Read,R_Read] [0,7,6] [W_Yield 2 [],W_Idle,W_Idle]"
    by simp
  from at_send [OF this, where p = 2]
  have "at_cfg ?P 3 1 9 [1,1,1,0,0,0,0,0] [R_Read,R_Read,R_Read] [1,8,6] [W_Yield 2 [],W_Idle,W_Idle]"
    by (simp add: bump_def upt_conv_Cons)
  from at_read [OF this, where p = 2]
  have "at_cfg ?P 3 1 9 [1,1,2,0,0,0,0,0] [R_Read,R_Read,R_Read] [1,8,6] [W_Yield 2 [],W_Idle,W_Idle]"
    by simp
  from at_relock [OF this, where p = 0 and i = 2]
  have "at_cfg ?P 3 0 9 [1,1,2,0,0,0,0,0] [R_Read,R_Read,R_Read] [1,8,6] [W_Spin 2 [],W_Idle,W_Idle]"
    by simp
  from at_spin_room [OF this, where p = 0 and i = 2]
  have "at_cfg ?P 3 0 9 [1,1,2,0,0,0,0,0] [R_Read,R_Read,R_Read] [1,8,6] [W_Check 3 [],W_Idle,W_Idle]"
    by simp
  from at_write [OF at_skip_rest [OF _ _ _ _ this, where p = 0 and i = 3], where p = 0]
  show ?thesis
    by (simp add: bump_def upt_conv_Cons PROCS_def)
qed

text \<open>
  C26 (finding): even with a mutex of value one there is a run of three processes after which process
  1, which never sends, has more unread frames than the ring has slots: a frame it had not read was
  overwritten.
\<close>

theorem send_overruns_reader:
  "\<exists>acts s. shm_run (shm_start 3 1) acts = Some s \<and> (\<forall>buf. Begin 1 buf \<notin> set acts) \<and>
     pids (chan s) ! 1 \<noteq> 0 \<and> N < backlog 1 (chan s)"
proof -
  let ?P = "only_reads 1"
  obtain s where "shm_runs ?P (shm_start 3 1) s"
    and s: "cfg 3 s 1 10 [1,1,2,0,0,0,0,0] [R_Read,R_Read,R_Read] [1,9,7] [W_Idle,W_Idle,W_Idle]"
    using reader_one_overrun by (auto simp: at_cfg_def)
  then obtain acts where "shm_run (shm_start 3 1) acts = Some s" and "\<forall>a\<in>set acts. ?P a"
    by (auto simp: shm_runs_def)
  moreover have "pids (chan s) ! 1 \<noteq> 0" and "N < backlog 1 (chan s)"
    using s by (simp_all add: cfg_def backlog_def N_def PROCS_def pid_of_def nth_append)
  ultimately show ?thesis by blast
qed

section \<open>A process that only sends stops everybody else\<close>

text \<open>
  A sender is not signalled for its own frames, so its reader thread sleeps while its backlog grows.
  When the backlog reaches eight every other sender waits for it, and nobody is left to wake it.
\<close>

fun behind :: "nat \<Rightarrow> writer_pc \<Rightarrow> bool" where
  "behind p W_Idle = True"
| "behind p (W_Check i buf) = (i \<le> p)"
| "behind p (W_Spin i buf) = (i \<le> p)"
| "behind p (W_Yield i buf) = (i \<le> p)"

definition stalled :: "nat \<Rightarrow> shm_sys \<Rightarrow> bool" where
  "stalled p s \<longleftrightarrow> p < PROCS \<and> length (pids (chan s)) = PROCS \<and> pids (chan s) ! p = pid_of p \<and>
     readers s ! p = R_Wait \<and> wakeups s ! p = 0 \<and> N \<le> backlog p (chan s) \<and>
     (\<forall>q<length (writers s). q \<noteq> p \<longrightarrow> behind p (writers s ! q))"


lemma pid_of_inj [simp]: "pid_of p = pid_of q \<longleftrightarrow> p = q"
  by (simp add: pid_of_def)

lemma pid_of_nonzero [simp]: "pid_of p \<noteq> 0"
  by (simp add: pid_of_def)



lemma stalled_semv [simp]: "stalled p (s\<lparr>semv := v\<rparr>) = stalled p s"
  by (simp add: stalled_def)



lemma shm_leave_simps [simp]:
  "tail (shm_leave pid ch) = tail ch" "heads (shm_leave pid ch) = heads ch"
  "length (pids (shm_leave pid ch)) = length (pids ch)"
  by (simp_all add: shm_leave_def Let_def)



text \<open>A writer that has passed the check of \<open>p\<close> writes all the same, and wakes \<open>p\<close>'s reader.\<close>

theorem passed_writer_ends_stall:
  assumes "pids (chan s) ! p = pid_of p" and "p < length (pids (chan s))" and "p < length (wakeups s)"
    and "q \<noteq> p" and "q < length (writers s)" and "writers s ! q = W_Check PROCS buf"
  shows "\<exists>t. shm_exec s (Advance q) = Some t \<and> tail (chan t) = tail (chan s) + 1 \<and> 0 < wakeups t ! p"
proof -
  have "pid_of p \<in> set (pids (chan s))" using assms(1,2) by (metis nth_mem)
  then have "pid_of p \<in> set (shm_signals (pid_of q) (chan s))" using assms(4) by (simp add: shm_signals_def)
  with assms(3,5,6) show ?thesis by (simp add: set_writer_def shm_notify_def shm_write_def Let_def)
qed



end
