(* ===== verification/Engine_Life.thy ===== *)
theory Engine_Life
  imports Shm_Channel
begin

text \<open>
  The beginning and the end of an engine: the constructor of \<open>ShmEngine\<close> against processes that
  already send, line by line (\<open>shm_engine.hpp\<close>), the order in which \<open>NIC<E>\<close> (\<open>nic.hpp\<close>) and
  its engine are destroyed while the engine's thread still runs, and the error paths of both
  constructors (\<open>raw_socket_engine.hpp\<close>).
\<close>

section \<open>A shared-memory engine starts\<close>

text \<open>
  The constructor's lines from \<open>enroll\<close> on. The forked processes inherit the gateway's SIGUSR1
  handler together with its \<open>_instance\<close>; in the gateway itself the signal's action is the default.
\<close>

datatype life_pc = L_Enroll | L_Sem_Init | L_Sigaction | L_Instance | L_Thread | L_Running

datatype instance_ptr = Nobody | Somebody_Else | Myself

datatype life_reader = LR_None | LR_Wait | LR_Read

record life =
  l_pc :: life_pc
  l_handler :: bool           \<comment> \<open>SIGUSR1 has a handler\<close>
  l_inst :: instance_ptr
  l_listed :: bool            \<comment> \<open>in the list of readers\<close>
  l_unread :: nat             \<comment> \<open>\<open>tail\<close> less the own head\<close>
  l_pending :: bool           \<comment> \<open>SIGUSR1 is pending\<close>
  l_notify :: nat
  l_reader :: life_reader
  l_killed :: bool
  l_since :: nat              \<comment> \<open>frames written since \<open>_instance\<close> was set\<close>

definition life_start :: "bool \<Rightarrow> life" where
  "life_start forked = \<lparr>l_pc = L_Enroll, l_handler = forked, l_inst = (if forked then Somebody_Else else Nobody),
     l_listed = False, l_unread = 0, l_pending = False, l_notify = 0, l_reader = LR_None, l_killed = False,
     l_since = 0\<rparr>"

datatype life_act = Line | Frame_Written | Signal_Taken | Woken | Reads

fun life_line :: "life_pc \<Rightarrow> life \<Rightarrow> life option" where
  "life_line L_Enroll s = Some (s\<lparr>l_pc := L_Sem_Init, l_listed := True, l_unread := 0\<rparr>)"
| "life_line L_Sem_Init s = Some (s\<lparr>l_pc := L_Sigaction, l_notify := 0\<rparr>)"
| "life_line L_Sigaction s = Some (s\<lparr>l_pc := L_Instance, l_handler := True\<rparr>)"
| "life_line L_Instance s = Some (s\<lparr>l_pc := L_Thread, l_inst := Myself\<rparr>)"
| "life_line L_Thread s = Some (s\<lparr>l_pc := L_Running, l_reader := LR_Wait\<rparr>)"
| "life_line L_Running s = None"

fun life_exec :: "life \<Rightarrow> life_act \<Rightarrow> life option" where
  "life_exec s Line = (if l_killed s then None else life_line (l_pc s) s)"
| "life_exec s Frame_Written =
     (if l_listed s \<and> l_unread s < N
      then Some (s\<lparr>l_unread := l_unread s + 1, l_pending := True,
                   l_since := (if l_inst s = Myself then l_since s + 1 else l_since s)\<rparr>) else None)"
| "life_exec s Signal_Taken =
     (if \<not> l_pending s \<or> l_killed s then None
      else if \<not> l_handler s then Some (s\<lparr>l_pending := False, l_killed := True\<rparr>)
      else if l_inst s = Myself then Some (s\<lparr>l_pending := False, l_notify := l_notify s + 1\<rparr>)
      else Some (s\<lparr>l_pending := False\<rparr>))"
| "life_exec s Woken =
     (if l_reader s = LR_Wait \<and> 0 < l_notify s
      then Some (s\<lparr>l_notify := l_notify s - 1, l_reader := LR_Read\<rparr>) else None)"
| "life_exec s Reads =
     (if l_reader s \<noteq> LR_Read then None
      else if l_unread s = 0 then Some (s\<lparr>l_reader := LR_Wait\<rparr>)
      else Some (s\<lparr>l_unread := l_unread s - 1\<rparr>))"

definition life_step :: "life \<Rightarrow> life \<Rightarrow> bool" where
  "life_step s t \<longleftrightarrow> (\<exists>a. life_exec s a = Some t)"

lemma life_reach_exec: "life_exec s a = Some t \<Longrightarrow> reachable life_step s0 s \<Longrightarrow> reachable life_step s0 t"
  by (metis reachable.reach_step life_step_def)

text \<open>The reader will look at the ring again.\<close>

definition awake :: "life \<Rightarrow> bool" where
  "awake s \<longleftrightarrow> l_pending s \<or> 0 < l_notify s \<or> l_reader s = LR_Read"

definition past_sem_init :: "life_pc \<Rightarrow> bool" where
  "past_sem_init c \<longleftrightarrow> c \<noteq> L_Enroll \<and> c \<noteq> L_Sem_Init"

definition life_ok :: "life \<Rightarrow> bool" where
  "life_ok s \<longleftrightarrow> (0 < l_since s \<and> 0 < l_unread s \<longrightarrow> awake s) \<and>
     (l_inst s = Myself \<longleftrightarrow> l_pc s = L_Thread \<or> l_pc s = L_Running) \<and>
     (l_inst s = Myself \<longrightarrow> l_handler s) \<and> (0 < l_since s \<longrightarrow> l_inst s = Myself) \<and>
     (l_pc s = L_Instance \<longrightarrow> l_handler s) \<and> (l_reader s \<noteq> LR_None \<longleftrightarrow> l_pc s = L_Running) \<and>
     (l_listed s \<longleftrightarrow> l_pc s \<noteq> L_Enroll)"

lemma life_exec_ok:
  assumes "life_exec s a = Some t" and "life_ok s"
  shows "life_ok t"
proof (cases a)
  case Line
  then have l: "life_line (l_pc s) s = Some t" using assms(1) by (simp split: if_splits)
  show ?thesis using l assms(2) by (cases "l_pc s") (auto simp: life_ok_def awake_def)
next
  case Frame_Written
  then have t: "t = s\<lparr>l_unread := l_unread s + 1, l_pending := True,
      l_since := (if l_inst s = Myself then l_since s + 1 else l_since s)\<rparr>"
    using assms(1) by (simp split: if_splits)
  show ?thesis using assms(2) by (cases "l_inst s = Myself") (simp_all add: t life_ok_def awake_def)
next
  case Signal_Taken
  then have "t = s\<lparr>l_pending := False, l_killed := True\<rparr> \<and> \<not> l_handler s \<or>
      t = s\<lparr>l_pending := False, l_notify := l_notify s + 1\<rparr> \<or>
      t = s\<lparr>l_pending := False\<rparr> \<and> l_inst s \<noteq> Myself"
    using assms(1) by (simp split: if_splits)
  then show ?thesis using assms(2) by (elim disjE conjE) (auto simp: life_ok_def awake_def)
next
  case Woken
  then have "t = s\<lparr>l_notify := l_notify s - 1, l_reader := LR_Read\<rparr>" "l_reader s = LR_Wait"
    using assms(1) by (simp_all split: if_splits)
  then show ?thesis using assms(2) by (simp add: life_ok_def awake_def)
next
  case Reads
  then have "t = s\<lparr>l_reader := LR_Wait\<rparr> \<and> l_unread s = 0 \<or> t = s\<lparr>l_unread := l_unread s - 1\<rparr>"
    and "l_reader s = LR_Read" using assms(1) by (auto split: if_splits)
  then show ?thesis using assms(2) by (elim disjE conjE) (simp_all add: life_ok_def awake_def)
qed

interpretation life: step_invariant life_step life_ok
  by unfold_locales (auto simp: life_step_def intro: life_exec_ok)

lemma life_start_ok: "life_ok (life_start forked)"
  by (simp add: life_ok_def life_start_def)

text \<open>
  A frame written after the constructor has set \<open>_instance\<close> is never slept over: as long as
  anything is unread, a signal is pending, the notification semaphore is positive or the reader is
  reading; and from then on no signal ends the process.
\<close>

theorem started_engine_wakes:
  assumes "reachable life_step (life_start forked) s" and "0 < l_since s" and "0 < l_unread s"
  shows "awake s \<and> (\<forall>t. life_exec s Signal_Taken = Some t \<longrightarrow> l_killed t = l_killed s \<and> 0 < l_notify t)"
proof -
  have "life_ok s" by (rule life.reachable_inv [OF assms(1) life_start_ok])
  with assms(2,3) show ?thesis by (auto simp: life_ok_def split: if_splits)
qed

theorem started_engine_wakes_witness:
  "awake ((life_start False)\<lparr>l_pc := L_Thread, l_handler := True, l_inst := Myself, l_listed := True, l_unread := 1,
     l_pending := True, l_since := 1\<rparr>)"
proof -
  let ?s = "\<lambda>c h i u p n. \<lparr>l_pc = c, l_handler = h, l_inst = i, l_listed = True, l_unread = u, l_pending = p,
     l_notify = 0, l_reader = LR_None, l_killed = False, l_since = n\<rparr>"
  let ?r = "reachable life_step (life_start False)"
  have "?r (?s L_Sem_Init False Nobody 0 False 0)"
    by (rule life_reach_exec [of _ Line, OF _ reachable.reach_start]) (simp add: life_start_def)
  then have "?r (?s L_Sigaction False Nobody 0 False 0)" by (rule life_reach_exec [of _ Line, rotated]) simp
  then have "?r (?s L_Instance True Nobody 0 False 0)" by (rule life_reach_exec [of _ Line, rotated]) simp
  then have "?r (?s L_Thread True Myself 0 False 0)" by (rule life_reach_exec [of _ Line, rotated]) simp
  then have "?r (?s L_Thread True Myself 1 True 1)"
    by (rule life_reach_exec [of _ Frame_Written, rotated]) (simp add: N_def)
  from started_engine_wakes [OF this] show ?thesis by (simp add: life_start_def)
qed

text \<open>
  The constructor enrols before it sets \<open>_instance\<close>. A frame written in between
  raises a signal that goes to the gateway's semaphore, inherited with \<open>_instance\<close>: the engine then
  runs with an unread frame, its reader asleep and nothing to wake it.
\<close>

theorem frame_missed_at_start:
  "\<exists>s. reachable life_step (life_start True) s \<and> l_pc s = L_Running \<and> l_unread s = 1 \<and> \<not> awake s \<and>
     life_exec s Line = None \<and> life_exec s Signal_Taken = None \<and> life_exec s Woken = None \<and>
     life_exec s Reads = None"
proof -
  let ?s = "\<lambda>c i u p r. \<lparr>l_pc = c, l_handler = True, l_inst = i, l_listed = True, l_unread = u, l_pending = p,
     l_notify = 0, l_reader = r, l_killed = False, l_since = 0\<rparr>"
  let ?r = "reachable life_step (life_start True)"
  have "?r (?s L_Sem_Init Somebody_Else 0 False LR_None)"
    by (rule life_reach_exec [of _ Line, OF _ reachable.reach_start]) (simp add: life_start_def)
  then have "?r (?s L_Sem_Init Somebody_Else 1 True LR_None)"
    by (rule life_reach_exec [of _ Frame_Written, rotated]) (simp add: N_def)
  then have "?r (?s L_Sem_Init Somebody_Else 1 False LR_None)"
    by (rule life_reach_exec [of _ Signal_Taken, rotated]) simp
  then have "?r (?s L_Sigaction Somebody_Else 1 False LR_None)"
    by (rule life_reach_exec [of _ Line, rotated]) simp
  then have "?r (?s L_Instance Somebody_Else 1 False LR_None)"
    by (rule life_reach_exec [of _ Line, rotated]) simp
  then have "?r (?s L_Thread Myself 1 False LR_None)"
    by (rule life_reach_exec [of _ Line, rotated]) simp
  then have "?r (?s L_Running Myself 1 False LR_Wait)"
    by (rule life_reach_exec [of _ Line, rotated]) simp
  then show ?thesis
    by (intro exI [of _ "?s L_Running Myself 1 False LR_Wait"]) (simp add: awake_def)
qed

text \<open>In the gateway the same frame, taken before \<open>sigaction\<close>, ends the process.\<close>

lemma killed_at_start:
  "\<exists>s. reachable life_step (life_start False) s \<and> l_killed s"
proof -
  let ?s = "\<lambda>u p k. \<lparr>l_pc = L_Sem_Init, l_handler = False, l_inst = Nobody, l_listed = True, l_unread = u,
     l_pending = p, l_notify = 0, l_reader = LR_None, l_killed = k, l_since = 0\<rparr>"
  let ?r = "reachable life_step (life_start False)"
  have "?r (?s 0 False False)"
    by (rule life_reach_exec [of _ Line, OF _ reachable.reach_start]) (simp add: life_start_def)
  then have "?r (?s 1 True False)" by (rule life_reach_exec [of _ Frame_Written, rotated]) (simp add: N_def)
  then have "?r (?s 1 False True)" by (rule life_reach_exec [of _ Signal_Taken, rotated]) simp
  then show ?thesis by (intro exI [of _ "?s 1 False True"]) simp
qed

section \<open>A NIC and its engine are destroyed\<close>

text \<open>
  What the destroying thread still has to do. \<open>NIC<RawSocketEngine>\<close>'s destructor calls \<open>stop\<close>;
  \<open>ShmEngine\<close> has no such method, so its thread is only joined in its own destructor, after the
  NIC's members, the pool of buffers among them. From the engine's destructor on, \<open>_handle\<close> is the
  engine's own, which prints.
\<close>

datatype close_op = Stop_Flag | Ignore_Signal | Unlist | Post | Join | Members_Die | Base_Begins

definition raw_close :: "close_op list" where
  "raw_close = [Stop_Flag, Ignore_Signal, Post, Join, Members_Die, Base_Begins]"

definition shm_close :: "close_op list" where
  "shm_close = [Members_Die, Base_Begins, Ignore_Signal, Unlist, Stop_Flag, Post, Join]"

datatype close_reader = CR_Wait | CR_Drain | CR_Handle | CR_End

record closing =
  c_rest :: "close_op list"
  c_running :: bool
  c_notify :: nat
  c_frames :: nat
  c_ignored :: bool
  c_listed :: bool
  c_buffers :: bool          \<comment> \<open>the NIC's members are alive\<close>
  c_nic :: bool              \<comment> \<open>\<open>_handle\<close> is the NIC's\<close>
  c_reader :: close_reader

definition close_start :: "close_op list \<Rightarrow> closing" where
  "close_start ops = \<lparr>c_rest = ops, c_running = True, c_notify = 0, c_frames = 0, c_ignored = False,
     c_listed = True, c_buffers = True, c_nic = True, c_reader = CR_Wait\<rparr>"

datatype close_act = Close | Arrives | Reader_Steps

fun close_line :: "close_op \<Rightarrow> closing \<Rightarrow> closing option" where
  "close_line Stop_Flag s = Some (s\<lparr>c_running := False\<rparr>)"
| "close_line Ignore_Signal s = Some (s\<lparr>c_ignored := True\<rparr>)"
| "close_line Unlist s = Some (s\<lparr>c_listed := False\<rparr>)"
| "close_line Post s = Some (s\<lparr>c_notify := c_notify s + 1\<rparr>)"
| "close_line Join s = (if c_reader s = CR_End then Some s else None)"
| "close_line Members_Die s = Some (s\<lparr>c_buffers := False\<rparr>)"
| "close_line Base_Begins s = Some (s\<lparr>c_nic := False\<rparr>)"

text \<open>The raw engine's \<open>_drain\<close> tests \<open>_running\<close> before each frame (\<open>checks\<close>), \<open>_try_read\<close> does not.\<close>

fun close_read :: "bool \<Rightarrow> close_reader \<Rightarrow> closing \<Rightarrow> closing option" where
  "close_read checks CR_Wait s =
     (if 0 < c_notify s
      then Some (s\<lparr>c_notify := c_notify s - 1, c_reader := (if c_running s then CR_Drain else CR_End)\<rparr>) else None)"
| "close_read checks CR_Drain s =
     (if 0 < c_frames s \<and> (checks \<longrightarrow> c_running s)
      then Some (s\<lparr>c_frames := c_frames s - 1, c_reader := (if c_nic s then CR_Handle else CR_Drain)\<rparr>)
      else Some (s\<lparr>c_reader := (if c_running s then CR_Wait else CR_End)\<rparr>))"
| "close_read checks CR_Handle s = Some (s\<lparr>c_reader := CR_Drain\<rparr>)"
| "close_read checks CR_End s = None"

fun close_exec :: "bool \<Rightarrow> closing \<Rightarrow> close_act \<Rightarrow> closing option" where
  "close_exec checks s Close =
     (case c_rest s of [] \<Rightarrow> None | x # xs \<Rightarrow> map_option (\<lambda>t. t\<lparr>c_rest := xs\<rparr>) (close_line x s))"
| "close_exec checks s Arrives =
     (if c_listed s
      then Some (s\<lparr>c_frames := c_frames s + 1, c_notify := (if c_ignored s then c_notify s else c_notify s + 1)\<rparr>)
      else None)"
| "close_exec checks s Reader_Steps = close_read checks (c_reader s) s"

definition close_step :: "bool \<Rightarrow> closing \<Rightarrow> closing \<Rightarrow> bool" where
  "close_step checks s t \<longleftrightarrow> (\<exists>a. close_exec checks s a = Some t)"

lemma close_reach_exec:
  "close_exec checks s a = Some t \<Longrightarrow> reachable (close_step checks) s0 s \<Longrightarrow> reachable (close_step checks) s0 t"
  by (metis reachable.reach_step close_step_def)

definition uses_dead_buffers :: "closing \<Rightarrow> bool" where
  "uses_dead_buffers s \<longleftrightarrow> c_reader s = CR_Handle \<and> \<not> c_buffers s"

text \<open>The order that makes a close safe: the thread is joined before the members go.\<close>

fun join_first :: "close_op list \<Rightarrow> bool" where
  "join_first [] = False"
| "join_first (x # xs) = (x = Join \<or> x \<noteq> Members_Die \<and> join_first xs)"

lemma close_exec_cases [consumes 1, case_names close arrives reader]:
  assumes "close_exec checks s a = Some t"
  obtains (close) x xs u where "a = Close" and "c_rest s = x # xs" and "close_line x s = Some u" and "t = u\<lparr>c_rest := xs\<rparr>"
  | (arrives) "a = Arrives" and "t = s\<lparr>c_frames := c_frames s + 1,
      c_notify := (if c_ignored s then c_notify s else c_notify s + 1)\<rparr>"
  | (reader) "a = Reader_Steps" and "close_read checks (c_reader s) s = Some t"
  using assms by (cases a) (auto split: list.splits if_splits)

lemma close_read_keeps:
  "close_read checks r s = Some t \<Longrightarrow> c_rest t = c_rest s \<and> c_buffers t = c_buffers s \<and> c_running t = c_running s"
  by (cases r) (auto split: if_splits)

definition close_safe :: "closing \<Rightarrow> bool" where
  "close_safe s \<longleftrightarrow> c_reader s = CR_End \<or> c_buffers s \<and> join_first (c_rest s)"

interpretation joined: step_invariant "close_step checks" close_safe for checks
proof unfold_locales
  fix s t
  assume "close_step checks s t" and inv: "close_safe s"
  then obtain a where a: "close_exec checks s a = Some t" by (auto simp: close_step_def)
  from a show "close_safe t"
  proof (cases rule: close_exec_cases)
    case (close x xs u)
    then show ?thesis using inv by (cases x) (auto simp: close_safe_def split: if_splits)
  next
    case reader
    then show ?thesis using inv close_read_keeps [OF reader(2)] by (auto simp: close_safe_def)
  qed (use inv in \<open>simp_all add: close_safe_def\<close>)
qed

text \<open>
  C33: a NIC on the raw socket is destroyed safely: in no interleaving with arriving frames does its
  engine's thread handle a frame in buffers that are already destroyed.
\<close>

theorem raw_close_safe:
  assumes "reachable (close_step True) (close_start raw_close) s"
  shows "\<not> uses_dead_buffers s"
proof -
  have "close_safe (close_start raw_close)" by (simp add: close_safe_def close_start_def raw_close_def)
  from joined.reachable_inv [OF assms this] show ?thesis by (auto simp: close_safe_def uses_dead_buffers_def)
qed

theorem raw_close_safe_witness:
  "\<not> uses_dead_buffers ((close_start raw_close)\<lparr>c_rest := tl raw_close, c_running := False\<rparr>)"
proof (rule raw_close_safe)
  show "reachable (close_step True) (close_start raw_close)
      ((close_start raw_close)\<lparr>c_rest := tl raw_close, c_running := False\<rparr>)"
    by (rule close_reach_exec [of _ _ Close, OF _ reachable.reach_start]) (simp add: close_start_def raw_close_def)
qed

text \<open>
  C34 (finding): a NIC on the shared memory is not: there is a run in which the pool of buffers is
  destroyed while the reader thread is handling a frame with it, and one in which the thread starts
  to handle a frame only afterwards.
\<close>

theorem shm_close_unsafe:
  "\<exists>s t. reachable (close_step False) (close_start shm_close) s \<and> c_reader s = CR_Drain \<and> \<not> c_buffers s \<and>
     close_exec False s Reader_Steps = Some t \<and> uses_dead_buffers t"
proof -
  let ?s = "\<lambda>ops k f b r. \<lparr>c_rest = ops, c_running = True, c_notify = k, c_frames = f, c_ignored = False,
     c_listed = True, c_buffers = b, c_nic = True, c_reader = r\<rparr>"
  let ?r = "reachable (close_step False) (close_start shm_close)"
  have "?r (?s shm_close 1 1 True CR_Wait)"
    by (rule close_reach_exec [of _ _ Arrives, OF _ reachable.reach_start]) (simp add: close_start_def)
  then have "?r (?s shm_close 0 1 True CR_Drain)"
    by (rule close_reach_exec [of _ _ Reader_Steps, rotated]) simp
  then have "?r (?s (tl shm_close) 0 1 False CR_Drain)"
    by (rule close_reach_exec [of _ _ Close, rotated]) (simp add: shm_close_def)
  moreover have "close_exec False (?s (tl shm_close) 0 1 False CR_Drain) Reader_Steps =
      Some (?s (tl shm_close) 0 0 False CR_Handle)" by simp
  ultimately show ?thesis
    by (intro exI [of _ "?s (tl shm_close) 0 1 False CR_Drain"]
        exI [of _ "?s (tl shm_close) 0 0 False CR_Handle"]) (simp add: uses_dead_buffers_def)
qed

text \<open>The flag is cleared and the semaphore posted, in this order, before the thread is waited for.\<close>

definition close_live :: "closing \<Rightarrow> bool" where
  "close_live s \<longleftrightarrow> (Stop_Flag \<notin> set (c_rest s) \<longrightarrow> \<not> c_running s) \<and>
     (Post \<notin> set (c_rest s) \<and> c_reader s = CR_Wait \<longrightarrow> 0 < c_notify s) \<and>
     (\<exists>pre. pre @ c_rest s = raw_close \<or> pre @ c_rest s = shm_close)"

lemma close_suffix:
  assumes "pre @ x # xs = raw_close \<or> pre @ x # xs = shm_close"
  shows "(Post \<in> set (x # xs) \<or> Stop_Flag \<notin> set (x # xs)) \<and> (Post \<notin> set xs \<longrightarrow> Stop_Flag \<notin> set xs) \<and>
    (x = Join \<longrightarrow> Post \<notin> set xs) \<and> (x = Post \<longrightarrow> Stop_Flag \<notin> set xs) \<and>
    (x \<noteq> Stop_Flag \<and> Stop_Flag \<notin> set xs \<longrightarrow> Stop_Flag \<notin> set (x # xs))"
  using assms by (auto simp: raw_close_def shm_close_def Cons_eq_append_conv append_eq_Cons_conv)

interpretation live: step_invariant "close_step checks" close_live for checks
proof unfold_locales
  fix s t
  assume "close_step checks s t" and inv: "close_live s"
  then obtain a where a: "close_exec checks s a = Some t" by (auto simp: close_step_def)
  from a show "close_live t"
  proof (cases rule: close_exec_cases)
    case (close x xs u)
    obtain pre where d: "pre @ x # xs = raw_close \<or> pre @ x # xs = shm_close"
      using inv close(2) by (auto simp: close_live_def)
    then have "(pre @ [x]) @ xs = raw_close \<or> (pre @ [x]) @ xs = shm_close" by simp
    then have "\<exists>pre. pre @ xs = raw_close \<or> pre @ xs = shm_close" by blast
    with inv close close_suffix [OF d] show ?thesis
      by (cases x) (auto simp: close_live_def split: if_splits)
  next
    case arrives
    then show ?thesis using inv by (auto simp: close_live_def)
  next
    case reader
    from inv obtain pre where d: "pre @ c_rest s = raw_close \<or> pre @ c_rest s = shm_close"
      by (auto simp: close_live_def)
    have "Stop_Flag \<notin> set (c_rest s)" if "Post \<notin> set (c_rest s)"
      using d that close_suffix [of pre] by (cases "c_rest s") auto
    with inv close_read_keeps [OF reader(2)] reader(2) show ?thesis
      by (cases "c_reader s") (auto simp: close_live_def split: if_splits)
  qed
qed

text \<open>
  Neither destructor can hang: whenever it waits in \<open>join\<close> for a thread that has not ended, that
  thread can make a step.
\<close>

theorem close_not_blocked:
  assumes "ops = raw_close \<or> ops = shm_close" and "reachable (close_step checks) (close_start ops) s"
    and "c_rest s = Join # rest" and "c_reader s \<noteq> CR_End"
  shows "\<exists>t. close_exec checks s Reader_Steps = Some t \<and> c_reader t \<noteq> CR_Wait"
proof -
  have "close_live (close_start ops)"
    using assms(1) by (auto simp: close_live_def close_start_def raw_close_def shm_close_def)
  from live.reachable_inv [OF assms(2) this] have l: "close_live s" .
  then obtain pre where "pre @ Join # rest = raw_close \<or> pre @ Join # rest = shm_close"
    using assms(3) by (auto simp: close_live_def)
  from close_suffix [OF this] l assms(3,4) show ?thesis
    by (cases "c_reader s") (auto simp: close_live_def)
qed

definition shm_closing :: "nat \<Rightarrow> closing" where
  "shm_closing k = \<lparr>c_rest = drop k shm_close, c_running = (k < 5), c_notify = (if k < 6 then 0 else 1), c_frames = 0,
     c_ignored = (3 \<le> k), c_listed = (k < 4), c_buffers = (k < 1), c_nic = (k < 2), c_reader = CR_Wait\<rparr>"

lemma shm_closing_reachable: "k \<le> 6 \<Longrightarrow> reachable (close_step checks) (close_start shm_close) (shm_closing k)"
proof (induction k)
  case 0
  then show ?case
    using reachable.reach_start [of "close_step checks" "close_start shm_close"]
    by (simp add: close_start_def shm_closing_def)
next
  case (Suc k)
  have "k \<in> {0, 1, 2, 3, 4, 5}" using Suc.prems by auto
  then have "close_exec checks (shm_closing k) Close = Some (shm_closing (Suc k))"
    by (auto simp: shm_closing_def shm_close_def)
  then show ?case by (rule close_reach_exec) (use Suc in simp)
qed

theorem close_not_blocked_witness:
  "\<exists>t. close_exec False (shm_closing 6) Reader_Steps = Some t"
proof -
  have "c_rest (shm_closing 6) = [Join]" "c_reader (shm_closing 6) \<noteq> CR_End"
    by (simp_all add: shm_closing_def shm_close_def)
  from close_not_blocked [OF _ shm_closing_reachable this] show ?thesis by blast
qed

section \<open>Constructors that fail\<close>

text \<open>What the system calls of \<open>RawSocketEngine\<close>'s constructor return, and what is left behind.\<close>

record raw_calls =
  rc_socket :: int
  rc_ifindex :: "int option"
  rc_hwaddr :: "mac option"
  rc_bind :: bool
  rc_setown :: bool
  rc_getfl :: int
  rc_setfl :: bool

datatype raw_error = Socket_Failed | No_Interface | No_Mac | Bind_Failed | Setown_Failed | Async_Failed

record raw_traces =
  open_fd :: bool
  instance_set :: bool
  handler_set :: bool

definition raw_construct :: "raw_calls \<Rightarrow> (raw_error + int \<times> mac) \<times> raw_traces" where
  "raw_construct c =
     (let closed = \<lparr>open_fd = False, instance_set = False, handler_set = False\<rparr>;
          opened = closed\<lparr>open_fd := True\<rparr>;
          known = opened\<lparr>instance_set := True, handler_set := True\<rparr>
      in if rc_socket c < 0 then (Inl Socket_Failed, closed)
         else case rc_ifindex c of None \<Rightarrow> (Inl No_Interface, opened)
         | Some i \<Rightarrow> (case rc_hwaddr c of None \<Rightarrow> (Inl No_Mac, opened)
         | Some a \<Rightarrow>
             if \<not> rc_bind c then (Inl Bind_Failed, opened)
             else if \<not> rc_setown c then (Inl Setown_Failed, known)
             else if rc_getfl c < 0 \<or> \<not> rc_setfl c then (Inl Async_Failed, known)
             else (Inr (i, a), known)))"

text \<open>
  The network engine's constructor succeeds exactly when all of its calls do; when it
  throws (no destructor runs then) the socket stays open unless it was the one that failed, and if
  the last configuration fails the SIGIO handler stays installed with \<open>_instance\<close> pointing to the
  engine that was never built.
\<close>

theorem raw_construct_errors:
  "case raw_construct c of
     (Inr (i, a), t) \<Rightarrow> 0 \<le> rc_socket c \<and> rc_ifindex c = Some i \<and> rc_hwaddr c = Some a \<and> rc_bind c \<and>
       rc_setown c \<and> 0 \<le> rc_getfl c \<and> rc_setfl c \<and> open_fd t \<and> instance_set t \<and> handler_set t
   | (Inl e, t) \<Rightarrow> \<not> (0 \<le> rc_socket c \<and> rc_ifindex c \<noteq> None \<and> rc_hwaddr c \<noteq> None \<and> rc_bind c \<and>
       rc_setown c \<and> 0 \<le> rc_getfl c \<and> rc_setfl c) \<and> open_fd t = (e \<noteq> Socket_Failed) \<and>
       instance_set t = (e = Setown_Failed \<or> e = Async_Failed) \<and> handler_set t = instance_set t"
  by (auto simp: raw_construct_def Let_def split: option.splits if_splits)

text \<open>\<open>ShmEngine\<close>'s constructor ends the process on every error, the ninth reader among them.\<close>

record shm_calls =
  sc_shmget :: int
  sc_shmat :: bool
  sc_semget :: int
  sc_semop :: bool

datatype shm_exit = Shmget | Shmat | Semget | Semop | No_Slot

definition shm_construct :: "shm_calls \<Rightarrow> int \<Rightarrow> shm_channel \<Rightarrow> shm_exit + int \<times> shm_channel" where
  "shm_construct c pid ch =
     (if sc_shmget c < 0 then Inl Shmget
      else if \<not> sc_shmat c then Inl Shmat
      else if sc_semget c < 0 then Inl Semget
      else if \<not> sc_semop c then Inl Semop
      else case shm_enroll pid ch of (i, ch') \<Rightarrow> if i < 0 then Inl No_Slot else Inr (i, ch'))"

text \<open>
  \<open>ShmEngine\<close>'s constructor gets an entry of the list of readers, starting at the tail, when its
  calls succeed and an entry is free, and ends the process otherwise; the entries of processes that
  exited without their destructor stay taken.
\<close>

theorem shm_construct_result:
  "case shm_construct c pid ch of
     Inr (i, ch') \<Rightarrow> 0 \<le> i \<and> nat i < length (pids ch) \<and> pids ch ! nat i = 0 \<and>
       ch' = ch\<lparr>pids := (pids ch)[nat i := pid], heads := (heads ch)[nat i := tail ch]\<rparr>
   | Inl e \<Rightarrow> (e = No_Slot) = (0 \<le> sc_shmget c \<and> sc_shmat c \<and> 0 \<le> sc_semget c \<and> sc_semop c \<and> 0 \<notin> set (pids ch))"
  by (auto simp: shm_construct_def shm_enroll_def first_index_Some first_index_None split: option.splits if_splits)

end
