(* ===== verification/Nic.thy ===== *)
theory Nic
  imports Wire Observe
begin

text \<open>
  The buffer (\<open>buffer.hpp\<close>) and the buffer pool of a NIC (\<open>nic.hpp\<close>): allocation of
  the first free slot, release, and \<open>NIC::receive\<close>. The locale \<open>buffer_pool\<close> is what
  \<open>Protocol::send\<close> relies on: an allocated slot was free, and releasing it makes the pool as
  available as before.
\<close>

section \<open>Buffer\<close>

datatype buf_state = FREE | ALLOCATED | RECEIVED

record buffer =
  b_frame :: frame
  b_size :: nat
  b_valid :: bool
  b_state :: buf_state
  b_owner :: "nat option"  \<comment> \<open>the NIC that manages the buffer; \<open>None\<close> is the null pointer\<close>

text \<open>The constructor leaves the frame and the owner as the memory was (\<open>junk\<close>).\<close>

definition new_buffer :: "buffer \<Rightarrow> buffer" where
  "new_buffer junk = junk\<lparr>b_state := FREE, b_size := 0, b_valid := False\<rparr>"

definition is_free :: "buffer \<Rightarrow> bool" where "is_free b \<longleftrightarrow> b_state b = FREE"

definition allocate :: "buffer \<Rightarrow> buffer" where
  "allocate b = b\<lparr>b_state := ALLOCATED, b_size := 0, b_valid := False\<rparr>"

definition received :: "nat \<Rightarrow> buffer \<Rightarrow> buffer" where
  "received sz b = b\<lparr>b_state := RECEIVED, b_size := sz, b_valid := (0 < sz)\<rparr>"

text \<open>\<open>release\<close> does not clear the owner.\<close>

definition release :: "buffer \<Rightarrow> buffer" where
  "release b = b\<lparr>b_state := FREE, b_size := 0, b_valid := False\<rparr>"

section \<open>The pool\<close>

definition fill_alloc :: "nat \<Rightarrow> mac \<Rightarrow> mac \<Rightarrow> u16 \<Rightarrow> nat \<Rightarrow> buffer \<Rightarrow> buffer" where
  "fill_alloc self src dst prot sz b =
     (allocate b)\<lparr>b_size := 6 * 2 + 2 + sz,
        b_frame := set_frame_type (htons prot) (set_frame_src src (set_frame_dst dst (b_frame b))),
        b_owner := Some self\<rparr>"

definition pool_alloc :: "nat \<Rightarrow> mac \<Rightarrow> mac \<Rightarrow> u16 \<Rightarrow> nat \<Rightarrow> buffer list \<Rightarrow> nat option \<times> buffer list" where
  "pool_alloc self src dst prot sz bs =
     (case first_index is_free bs of
        None \<Rightarrow> (None, bs)
      | Some i \<Rightarrow> (Some i, bs[i := fill_alloc self src dst prot sz (bs ! i)]))"

definition pool_free :: "nat \<Rightarrow> buffer list \<Rightarrow> buffer list" where
  "pool_free i bs = bs[i := release (bs ! i)]"

definition free_slots :: "buffer list \<Rightarrow> nat set" where
  "free_slots bs = {i. i < length bs \<and> is_free (bs ! i)}"

locale buffer_pool =
  fixes alloc :: "'k \<Rightarrow> 'p \<Rightarrow> nat option \<times> 'p"
    and rel :: "nat \<Rightarrow> 'p \<Rightarrow> 'p"
    and avail :: "'p \<Rightarrow> nat set"
    and slots :: "'p \<Rightarrow> nat set"
  assumes alloc_Some: "alloc k p = (Some i, p') \<Longrightarrow>
      i \<in> avail p \<and> avail p' = avail p - {i} \<and> slots p' = slots p"
    and alloc_None: "alloc k p = (None, p') \<Longrightarrow> avail p = {} \<and> p' = p"
    and rel_avail: "i \<in> slots p \<Longrightarrow> avail (rel i p) = insert i (avail p) \<and> slots (rel i p) = slots p"
    and avail_slots: "avail p \<subseteq> slots p"
    and slots_finite: "finite (slots p)"
begin

lemma alloc_rel:
  assumes "alloc k p = (Some i, p')"
  shows "avail (rel i p') = avail p"
proof -
  have i: "i \<in> avail p" and av: "avail p' = avail p - {i}" and sl: "slots p' = slots p"
    using alloc_Some [OF assms] by simp_all
  have "i \<in> slots p'" using i sl avail_slots [of p] by auto
  then have "avail (rel i p') = insert i (avail p')" using rel_avail by simp
  then show ?thesis using i av by (simp add: insert_absorb)
qed

lemma alloc_succeeds_iff: "(\<exists>i p'. alloc k p = (Some i, p')) \<longleftrightarrow> avail p \<noteq> {}"
proof -
  obtain r p' where "alloc k p = (r, p')" by fastforce
  then show ?thesis using alloc_Some [of k p _ p'] alloc_None [of k p p'] by (cases r) auto
qed

lemma alloc_card: "alloc k p = (Some i, p') \<Longrightarrow> Suc (card (avail p')) = card (avail p)"
  using alloc_Some [of k p i p'] avail_slots [of p] slots_finite [of p]
  by (metis card_Suc_Diff1 finite_subset)

end

lemma is_free_simps [simp]:
  "\<not> is_free (fill_alloc k s d t n b)" "\<not> is_free (allocate b)" "is_free (release b)"
  "\<not> is_free (received n b)" "is_free (new_buffer b)"
  "is_free (b\<lparr>b_size := n\<rparr>) = is_free b" "is_free (b\<lparr>b_frame := f\<rparr>) = is_free b"
  by (simp_all add: is_free_def fill_alloc_def allocate_def release_def received_def new_buffer_def)

interpretation nic_pool: buffer_pool "\<lambda>(self, src, dst, prot, sz). pool_alloc self src dst prot sz"
  pool_free free_slots "\<lambda>bs. {i. i < length bs}"
proof (unfold_locales, goal_cases)
  case (1 k p i p')
  then show ?case
    by (auto simp: pool_alloc_def free_slots_def first_index_Some nth_list_update
        split: option.splits prod.splits if_splits)
next
  case (2 k p p')
  then show ?case
    by (auto simp: pool_alloc_def free_slots_def first_index_None split: option.splits prod.splits)
next
  case (3 i p)
  then show ?case by (auto simp: pool_free_def free_slots_def nth_list_update)
next
  case (4 p)
  then show ?case by (auto simp: free_slots_def)
next
  case (5 p)
  then show ?case by simp
qed

text \<open>The frame an allocation prepares.\<close>

lemma fill_alloc_frame:
  assumes "length (b_frame b) = frame_size" and "length src = 6" and "length dst = 6"
  shows "length (b_frame (fill_alloc k src dst t n b)) = frame_size"
    and "frame_dst (b_frame (fill_alloc k src dst t n b)) = dst"
    and "frame_src (b_frame (fill_alloc k src dst t n b)) = src"
    and "frame_type (b_frame (fill_alloc k src dst t n b)) = htons t"
  using assms
  by (simp_all add: fill_alloc_def allocate_def set_frame_type_def set_frame_src_def
      set_frame_dst_def frame_dst_def frame_src_def frame_type_def frame_size_def MTU_def mem_simps)

section \<open>NIC::receive\<close>

text \<open>\<open>None\<close> is the result -1; otherwise the source address and the bytes copied out.\<close>

definition nic_receive :: "nat \<Rightarrow> buffer \<Rightarrow> (mac \<times> byte list) option" where
  "nic_receive sz b =
     (if is_free b then None
      else let hs = 6 * 2 + 2;
               payload = (if hs < b_size b then b_size b - hs else 0);
               len = min sz payload
           in Some (frame_src (b_frame b), take len (frame_data (b_frame b))))"

section \<open>The NIC\<close>

text \<open>
  A process has one \<open>Protocol\<close> object; it is the only observer a NIC can have, possibly
  attached more than once.
\<close>

record nic =
  n_address :: mac
  pool :: "buffer list"
  n_observers :: "(u16 \<times> unit) list"

definition new_nic :: "mac \<Rightarrow> buffer list \<Rightarrow> nic" where
  "new_nic a junk = \<lparr>n_address = a, pool = map new_buffer junk, n_observers = []\<rparr>"

definition pool_ok :: "buffer list \<Rightarrow> bool" where
  "pool_ok bs \<longleftrightarrow> length bs = BUFFER_COUNT \<and> (\<forall>b\<in>set bs. length (b_frame b) = frame_size)"

lemma pool_ok_update:
  "pool_ok bs \<Longrightarrow> length (b_frame b) = frame_size \<Longrightarrow> pool_ok (bs[i := b])"
  by (auto simp: pool_ok_def dest!: set_update_subset_insert [THEN subsetD])

lemma pool_ok_frame: "pool_ok bs \<Longrightarrow> i < length bs \<Longrightarrow> length (b_frame (bs ! i)) = frame_size"
  by (auto simp: pool_ok_def)

lemma pool_ok_free: "pool_ok bs \<Longrightarrow> i < length bs \<Longrightarrow> pool_ok (pool_free i bs)"
  by (auto simp: pool_free_def release_def pool_ok_frame intro!: pool_ok_update)

lemma free_slots_finite [simp]: "finite (free_slots bs)"
  by (simp add: free_slots_def)

text \<open>
  \<open>alloc\<close> hands out the first free slot of the pool and only a free one, leaves every
  other slot as it was, prepares the frame with the destination, the NIC's own address and the
  protocol number, and fails only when no slot is free; freeing the slot makes the pool exactly as
  available as before.
\<close>

theorem alloc_then_free:
  assumes "pool_ok bs" and "length src = 6" and "length dst = 6"
    and "pool_alloc self src dst prot sz bs = (r, bs')"
  shows "case r of
      None \<Rightarrow> free_slots bs = {} \<and> bs' = bs
    | Some i \<Rightarrow> is_free (bs ! i) \<and> (\<forall>j<i. \<not> is_free (bs ! j)) \<and> (\<forall>j. j \<noteq> i \<longrightarrow> bs' ! j = bs ! j) \<and>
        b_size (bs' ! i) = 14 + sz \<and> b_owner (bs' ! i) = Some self \<and>
        frame_dst (b_frame (bs' ! i)) = dst \<and> frame_src (b_frame (bs' ! i)) = src \<and>
        frame_type (b_frame (bs' ! i)) = htons prot \<and>
        free_slots (pool_free i bs') = free_slots bs"
proof (cases r)
  case None
  with assms(4) show ?thesis using nic_pool.alloc_None [of "(self, src, dst, prot, sz)" bs bs'] by simp
next
  case (Some i)
  with assms(4) have i: "first_index is_free bs = Some i"
    and bs': "bs' = bs[i := fill_alloc self src dst prot sz (bs ! i)]"
    by (auto simp: pool_alloc_def split: option.splits)
  have "i < length bs" using i by (simp add: first_index_Some)
  moreover have "length (b_frame (bs ! i)) = frame_size"
    using assms(1) \<open>i < length bs\<close> by (rule pool_ok_frame)
  moreover have "free_slots (pool_free i bs') = free_slots bs"
    using nic_pool.alloc_rel [of "(self, src, dst, prot, sz)" bs i bs'] assms(4) Some by simp
  moreover have "b_size (fill_alloc self src dst prot sz (bs ! i)) = 14 + sz"
    and "b_owner (fill_alloc self src dst prot sz (bs ! i)) = Some self"
    by (simp_all add: fill_alloc_def)
  ultimately show ?thesis
    using Some i bs' fill_alloc_frame [OF _ assms(2,3)] by (simp add: first_index_Some)
qed

text \<open>A pool of cleared memory, for the witnesses.\<close>

definition zero_buffer :: buffer where
  "zero_buffer = \<lparr>b_frame = replicate frame_size 0, b_size = 0, b_valid = False, b_state = FREE,
     b_owner = None\<rparr>"

definition zero_pool :: "buffer list" where
  "zero_pool = map new_buffer (replicate BUFFER_COUNT zero_buffer)"

lemma pool_ok_zero [simp]: "pool_ok zero_pool"
  by (simp add: pool_ok_def zero_pool_def zero_buffer_def new_buffer_def)

lemma zero_pool_nth: "i < BUFFER_COUNT \<Longrightarrow> zero_pool ! i = zero_buffer"
  by (simp add: zero_pool_def zero_buffer_def new_buffer_def)

lemma first_free_zero_pool: "first_index is_free zero_pool = Some 0"
  by (simp add: first_index_Some zero_pool_nth BUFFER_COUNT_def zero_pool_def)

theorem alloc_then_free_witness:
  "\<exists>bs'. pool_alloc 3 (replicate 6 7) BROADCAST PROTO 20 zero_pool = (Some 0, bs') \<and>
     b_size (bs' ! 0) = 34 \<and> frame_dst (b_frame (bs' ! 0)) = BROADCAST \<and>
     free_slots (pool_free 0 bs') = free_slots zero_pool"
proof -
  obtain bs' where a: "pool_alloc 3 (replicate 6 7) BROADCAST PROTO 20 zero_pool = (Some 0, bs')"
    by (simp add: pool_alloc_def first_free_zero_pool)
  have "length BROADCAST = 6" by (simp add: BROADCAST_def)
  with a alloc_then_free [of zero_pool "replicate 6 7" BROADCAST 3 PROTO 20 "Some 0" bs']
  show ?thesis by simp
qed

end
