(* ===== verification/Stack.thy ===== *)
theory Stack
  imports Nic "HOL-Library.Multiset"
begin

text \<open>
  One process's protocol stack: its NICs, the \<open>Protocol\<close> object (\<open>protocol.hpp\<close>), the
  communicators (\<open>communicator.hpp\<close>), the consumers subscribed to them
  (\<open>endpoint.hpp\<close>, \<open>concurrent.hpp\<close>) and the heap of \<open>Message\<close> objects that
  travel by pointer between the receiving thread and the consumers. NICs, communicators and
  consumers are named by their index. \<open>Position::quadrant()\<close>, read from the kernel, is the
  argument \<open>pos\<close>. What the NICs hand to their engines is the trace \<open>on_wire\<close>.
\<close>

record comm =
  c_address :: address
  c_subscribers :: "(u16 \<times> nat) list"

record node =
  nics :: "nic list"
  p_nics :: "nat list"
  p_observers :: "(u16 \<times> nat) list"
  p_quadrant :: byte
  comms :: "comm list"
  consumers :: "nat conc_obs list"
  heap :: "nat \<Rightarrow> message option"
  next_ptr :: nat
  fresh :: message      \<comment> \<open>what \<open>new\<close> finds in the memory it returns\<close>
  on_wire :: "(nat \<times> byte list) list"

section \<open>Protocol\<close>

subsection \<open>NICs and quadrant\<close>

definition proto_attach_nic :: "nat \<Rightarrow> node \<Rightarrow> node" where
  "proto_attach_nic n s =
     s\<lparr>nics := (nics s)[n := (nics s ! n)\<lparr>n_observers := attach () PROTO (n_observers (nics s ! n))\<rparr>],
       p_nics := p_nics s @ [n]\<rparr>"

definition proto_detach_nic :: "nat \<Rightarrow> node \<Rightarrow> node" where
  "proto_detach_nic n s =
     s\<lparr>nics := (nics s)[n := (nics s ! n)\<lparr>n_observers := detach () PROTO (n_observers (nics s ! n))\<rparr>],
       p_nics := filter (\<lambda>m. m \<noteq> n) (p_nics s)\<rparr>"

definition proto_new :: "nat \<Rightarrow> node \<Rightarrow> node" where
  "proto_new n s = (proto_attach_nic n s)\<lparr>p_quadrant := 255\<rparr>"

definition proto_destroy :: "node \<Rightarrow> node" where
  "proto_destroy s =
     (fold (\<lambda>n s. s\<lparr>nics := (nics s)[n := (nics s ! n)\<lparr>n_observers :=
        detach () PROTO (n_observers (nics s ! n))\<rparr>]\<rparr>) (p_nics s) s)\<lparr>p_nics := []\<rparr>"

definition set_quadrant :: "byte \<Rightarrow> node \<Rightarrow> node" where
  "set_quadrant q s = s\<lparr>p_quadrant := q AND 0x3\<rparr>"

definition get_quadrant :: "node \<Rightarrow> byte" where "get_quadrant s = p_quadrant s"

definition my_quadrant :: "byte \<Rightarrow> node \<Rightarrow> byte" where
  "my_quadrant pos s = (if get_quadrant s = 255 then pos else get_quadrant s)"

definition accept :: "byte \<Rightarrow> byte \<Rightarrow> node \<Rightarrow> bool" where
  "accept pos q s \<longleftrightarrow>
     (if get_quadrant s = 255 then q = pos else q = get_quadrant s)"

definition verifica_quadrante :: "byte \<Rightarrow> frame \<Rightarrow> node \<Rightarrow> bool" where
  "verifica_quadrante pos f s \<longleftrightarrow>
     src_quadrant (pkt_header f) = (if p_quadrant s \<noteq> 255 then p_quadrant s else pos)"

subsection \<open>Sending\<close>

definition put_header :: "header \<Rightarrow> frame \<Rightarrow> frame" where
  "put_header h f = poke 14 (enc_header h) f"

text \<open>
  One turn of the loop over the NICs. \<open>alloc\<close> is called with \<open>htons(PROTO)\<close> and applies
  \<open>htons\<close> again. The payload copy is defined only inside the frame.
\<close>

definition send_one :: "byte \<Rightarrow> address \<Rightarrow> address \<Rightarrow> byte list \<Rightarrow> nat \<Rightarrow> nat \<Rightarrow> node
    \<Rightarrow> runtime_error + node" where
  "send_one pos src dst dat sz n s =
     (let nc = nics s ! n in
      case pool_alloc n (n_address nc) (paddr dst) (htons PROTO) (header_size + sz) (pool nc) of
        (None, bs) \<Rightarrow> Inr s
      | (Some i, bs) \<Rightarrow>
          let h = \<lparr>src_port = htons (port src), dst_port = htons (port dst),
                   payload_size = htons (of_nat sz), src_quadrant = my_quadrant pos s\<rparr>;
              f = put_header h (b_frame (bs ! i))
          in if length dat < sz then Inl Out_Of_Bounds
             else and_then (memcpy (14 + header_size) (take sz dat) f) (\<lambda>f'.
               Inr (s\<lparr>nics := (nics s)[n := nc\<lparr>pool := pool_free i (bs[i := (bs ! i)\<lparr>b_frame := f'\<rparr>])\<rparr>],
                      on_wire := on_wire s @ [(n, take (b_size (bs ! i)) f')]\<rparr>)))"

fun send_nics :: "byte \<Rightarrow> address \<Rightarrow> address \<Rightarrow> byte list \<Rightarrow> nat \<Rightarrow> nat list \<Rightarrow> node
    \<Rightarrow> runtime_error + node" where
  "send_nics pos src dst dat sz [] s = Inr s"
| "send_nics pos src dst dat sz (n # ns) s =
     and_then (send_one pos src dst dat sz n s) (send_nics pos src dst dat sz ns)"

definition proto_send :: "byte \<Rightarrow> address \<Rightarrow> address \<Rightarrow> byte list \<Rightarrow> nat \<Rightarrow> node
    \<Rightarrow> runtime_error + (int \<times> node)" where
  "proto_send pos src dst dat sz s =
     and_then (send_nics pos src dst dat sz (p_nics s) s) (\<lambda>s'. Inr (int sz, s'))"

subsection \<open>Receiving\<close>

text \<open>
  \<open>receive\<close> copies as many bytes as the header announces, at most \<open>sz\<close>; the announced
  size is not compared with the frame's length.
\<close>

definition proto_receive :: "nat \<Rightarrow> frame \<Rightarrow> runtime_error + (nat \<times> address \<times> byte list)" where
  "proto_receive sz f =
     (let len = min sz (unat (ntohs (payload_size (pkt_header f)))) in
      if length (pkt_data f) < len then Inl Out_Of_Bounds
      else Inr (len, \<lparr>paddr = frame_src f, port = ntohs (src_port (pkt_header f))\<rparr>,
                take len (pkt_data f)))"

definition proto_attach :: "nat \<Rightarrow> u16 \<Rightarrow> node \<Rightarrow> node" where
  "proto_attach c p s = s\<lparr>p_observers := attach c p (p_observers s)\<rparr>"

definition proto_detach :: "nat \<Rightarrow> u16 \<Rightarrow> node \<Rightarrow> node" where
  "proto_detach c p s = s\<lparr>p_observers := detach c p (p_observers s)\<rparr>"

definition the_frame :: "nat \<Rightarrow> nat \<Rightarrow> node \<Rightarrow> frame" where
  "the_frame n i s = b_frame (pool (nics s ! n) ! i)"

text \<open>A buffer is released only when its owner is set.\<close>

definition proto_free :: "nat \<Rightarrow> nat \<Rightarrow> node \<Rightarrow> node" where
  "proto_free n i s =
     (case b_owner (pool (nics s ! n) ! i) of None \<Rightarrow> s
      | Some ow \<Rightarrow> s\<lparr>nics := (nics s)[n := (nics s ! n)\<lparr>pool := pool_free i (pool (nics s ! n))\<rparr>]\<rparr>)"

section \<open>Communicator\<close>

definition comm_create :: "address \<Rightarrow> node \<Rightarrow> node" where
  "comm_create a s =
     proto_attach (length (comms s)) (port a)
       (s\<lparr>comms := comms s @ [\<lparr>c_address = a, c_subscribers = []\<rparr>]\<rparr>)"

definition comm_destroy :: "nat \<Rightarrow> node \<Rightarrow> node" where
  "comm_destroy c s = proto_detach c (port (c_address (comms s ! c))) s"

definition comm_send :: "byte \<Rightarrow> nat \<Rightarrow> message \<Rightarrow> node \<Rightarrow> runtime_error + (bool \<times> node)" where
  "comm_send pos c m s =
     (let a = c_address (comms s ! c) in
      and_then (proto_send pos a \<lparr>paddr = BROADCAST, port = port a\<rparr> (m_data m) (m_size m) s)
        (\<lambda>(r, s'). Inr (0 < r, s')))"

definition comm_send_to :: "byte \<Rightarrow> nat \<Rightarrow> message \<Rightarrow> mac \<Rightarrow> node \<Rightarrow> runtime_error + (bool \<times> node)" where
  "comm_send_to pos c m dst s =
     and_then (proto_send pos (c_address (comms s ! c)) \<lparr>paddr = dst, port = 0\<rparr> (m_data m) (m_size m) s)
       (\<lambda>(r, s'). Inr (0 < r, s'))"

definition comm_share :: "byte \<Rightarrow> nat \<Rightarrow> message \<Rightarrow> u16 \<Rightarrow> node \<Rightarrow> runtime_error + (bool \<times> node)" where
  "comm_share pos c m p s =
     (let a = c_address (comms s ! c) in
      and_then (proto_send pos a \<lparr>paddr = paddr a, port = p\<rparr> (m_data m) (m_size m) s)
        (\<lambda>(r, s'). Inr (0 < r, s')))"

definition comm_subscribe :: "nat \<Rightarrow> nat \<Rightarrow> node \<Rightarrow> node" where
  "comm_subscribe c k s =
     s\<lparr>comms := (comms s)[c := (comms s ! c)\<lparr>c_subscribers :=
        attach k (port (c_address (comms s ! c))) (c_subscribers (comms s ! c))\<rparr>]\<rparr>"

definition comm_unsubscribe :: "nat \<Rightarrow> nat \<Rightarrow> node \<Rightarrow> node" where
  "comm_unsubscribe c k s =
     s\<lparr>comms := (comms s)[c := (comms s ! c)\<lparr>c_subscribers :=
        detach k (port (c_address (comms s ! c))) (c_subscribers (comms s ! c))\<rparr>]\<rparr>"

definition delete_msg :: "nat \<Rightarrow> node \<Rightarrow> runtime_error + node" where
  "delete_msg p s =
     (if heap s p = None then Inl Use_After_Free else Inr (s\<lparr>heap := (heap s)(p := None)\<rparr>))"

text \<open>A consumer's \<open>update\<close>: the pointer goes into its queue.\<close>

definition deliver :: "nat \<Rightarrow> nat \<Rightarrow> node \<Rightarrow> node" where
  "deliver p k s = s\<lparr>consumers := (consumers s)[k := co_update p (consumers s ! k)]\<rparr>"

definition received_message :: "frame \<Rightarrow> message \<Rightarrow> runtime_error + message" where
  "received_message f junk =
     (let m = new_message junk in
      and_then (proto_receive MAX_SIZE f) (\<lambda>(len, from, bytes).
        and_then (memcpy 0 bytes (m_data m)) (\<lambda>d.
          Inr (set_origin (src_quadrant (pkt_header f))
                 (set_src (paddr from) (set_size len (m\<lparr>m_data := d\<rparr>)))))))"

definition comm_update :: "nat \<Rightarrow> nat \<Rightarrow> nat \<Rightarrow> node \<Rightarrow> runtime_error + node" where
  "comm_update n i c s =
     (let cm = comms s ! c; ptr = next_ptr s in
      and_then (received_message (the_frame n i s) (fresh s)) (\<lambda>m.
        let s1 = s\<lparr>heap := (heap s)(ptr \<mapsto> m), next_ptr := ptr + 1\<rparr> in
        if m_size m = 0 then delete_msg ptr s1
        else case notify (c_subscribers cm) (port (c_address cm)) (deliver ptr) s1 of
               (notified, s2) \<Rightarrow> if notified then Inr s2 else delete_msg ptr s2))"

section \<open>Protocol: dispatch of a received buffer\<close>

definition proto_notify :: "nat \<Rightarrow> nat \<Rightarrow> u16 \<Rightarrow> node \<Rightarrow> runtime_error + node" where
  "proto_notify n i p s =
     snd (notify (p_observers s) p (\<lambda>c r. and_then r (comm_update n i c)) (Inr s))"

definition proto_update :: "nat \<Rightarrow> nat \<Rightarrow> node \<Rightarrow> runtime_error + node" where
  "proto_update n i s =
     (let f = the_frame n i s; h = pkt_header f; p = ntohs (dst_port h) in
      if p = 0 then
        (if unat (ntohs (payload_size h)) = sizeof_ptp then
           let ptp = dec_ptp (pkt_data f) in
           if message_type ptp = 1 \<or> message_type ptp = 3 then
             and_then (proto_notify n i PORT_TIME_CLIENT s) (\<lambda>s. Inr (proto_free n i s))
           else and_then (and_then (proto_notify n i PORT_RSU s) (proto_notify n i PORT_GATEWAY))
                  (\<lambda>s. Inr (proto_free n i s))
         else and_then (proto_notify n i PORT_GATEWAY s) (\<lambda>s. Inr (proto_free n i s)))
      else and_then (proto_notify n i p s) (\<lambda>s. Inr (proto_free n i s)))"

section \<open>NIC: a frame arrives from the engine\<close>

definition put_frame :: "frame \<Rightarrow> nat \<Rightarrow> buffer \<Rightarrow> runtime_error + buffer" where
  "put_frame raw len b =
     (if length raw < len then Inl Out_Of_Bounds
      else and_then (memcpy 0 (take len raw) (b_frame (allocate b)))
             (\<lambda>f. Inr ((allocate b)\<lparr>b_size := len, b_frame := f\<rparr>)))"

definition nic_handle :: "byte \<Rightarrow> nat \<Rightarrow> frame \<Rightarrow> nat \<Rightarrow> node \<Rightarrow> runtime_error + node" where
  "nic_handle pos n raw len s =
     (if \<not> verifica_quadrante pos raw s then Inr s
      else let nc = nics s ! n in
      case first_index is_free (pool nc) of
        None \<Rightarrow> Inr s
      | Some i \<Rightarrow> and_then (put_frame raw len (pool nc ! i)) (\<lambda>b.
          let s1 = s\<lparr>nics := (nics s)[n := nc\<lparr>pool := (pool nc)[i := b]\<rparr>]\<rparr> in
          snd (notify (n_observers nc) (ntohs (frame_type (b_frame b)))
                 (\<lambda>u r. and_then r (proto_update n i)) (Inr s1))))"

section \<open>Endpoint\<close>

definition endpoint_create :: "nat \<Rightarrow> node \<Rightarrow> node" where
  "endpoint_create c s =
     comm_subscribe c (length (consumers s))
       (s\<lparr>consumers := consumers s @ [co_new (port (c_address (comms s ! c)))]\<rparr>)"

text \<open>\<open>receive\<close> copies the message out and deletes it; the result says whether it has bytes.\<close>

definition endpoint_receive :: "nat \<Rightarrow> message \<Rightarrow> node
    \<Rightarrow> runtime_error + (bool \<times> message \<times> node)" where
  "endpoint_receive k msg s =
     and_then (co_updated_for (consumers s ! k)) (\<lambda>(d, ob).
       let s1 = s\<lparr>consumers := (consumers s)[k := ob]\<rparr> in
       case d of
         None \<Rightarrow> Inr (False, set_size 0 msg, s1)
       | Some p \<Rightarrow> (case heap s1 p of
             None \<Rightarrow> Inl Use_After_Free
           | Some m \<Rightarrow> and_then (delete_msg p s1) (\<lambda>s2. Inr (0 < m_size m, m, s2))))"

fun delete_all :: "nat list \<Rightarrow> node \<Rightarrow> runtime_error + node" where
  "delete_all [] s = Inr s"
| "delete_all (p # ps) s = and_then (delete_msg p s) (delete_all ps)"

definition endpoint_destroy :: "nat \<Rightarrow> nat \<Rightarrow> node \<Rightarrow> runtime_error + node" where
  "endpoint_destroy c k s =
     (let s1 = comm_unsubscribe c k s in
      and_then (delete_all (co_drain (queue (consumers s1 ! k))) s1) (\<lambda>s2.
        Inr (s2\<lparr>consumers := (consumers s2)[k := (consumers s2 ! k)\<lparr>sem := 0, queue := []\<rparr>]\<rparr>)))"

end
