(* ===== verification/Stack_Memory.thy ===== *)
theory Stack_Memory
  imports Stack
begin

text \<open>
  Memory safety of the stack: who owns a received \<open>Message\<close>. The invariant \<open>node_ok\<close>
  says that the live messages are exactly the ones waiting in some consumer's queue, each in one
  queue once; it is kept by every operation when a communicator has at most one subscriber. With
  two subscribers on one communicator a message is deleted twice.
\<close>

section \<open>The invariant\<close>

definition queued :: "node \<Rightarrow> nat list" where
  "queued s = concat (map queue (consumers s))"

definition heap_ok :: "node \<Rightarrow> bool" where
  "heap_ok s \<longleftrightarrow> distinct (queued s) \<and> set (queued s) = dom (heap s) \<and>
     (\<forall>p\<in>dom (heap s). p < next_ptr s) \<and> (\<forall>m\<in>ran (heap s). message_ok m \<and> 0 < m_size m) \<and>
     (\<forall>ob\<in>set (consumers s). co_ok ob)"

definition nic_ok :: "nic \<Rightarrow> bool" where
  "nic_ok nc \<longleftrightarrow> pool_ok (pool nc) \<and> length (n_address nc) = 6"

definition comm_ok :: "nat \<Rightarrow> comm \<Rightarrow> bool" where
  "comm_ok nk c \<longleftrightarrow> length (paddr (c_address c)) = 6 \<and> length (c_subscribers c) \<le> 1 \<and>
     (\<forall>(r, k)\<in>set (c_subscribers c). k < nk)"

definition wired :: "node \<Rightarrow> bool" where
  "wired s \<longleftrightarrow> (\<forall>nc\<in>set (nics s). nic_ok nc) \<and> (\<forall>n\<in>set (p_nics s). n < length (nics s)) \<and>
     (\<forall>(r, c)\<in>set (p_observers s). c < length (comms s)) \<and>
     (\<forall>c\<in>set (comms s). comm_ok (length (consumers s)) c)"

definition node_ok :: "node \<Rightarrow> bool" where
  "node_ok s \<longleftrightarrow> heap_ok s \<and> wired s"

lemma mset_queued_update:
  "k < length cs \<Longrightarrow>
     mset (concat (map queue (cs[k := ob]))) + mset (queue (cs ! k)) =
     mset (concat (map queue cs)) + mset (queue ob)"
proof (induction cs arbitrary: k)
  case Nil
  then show ?case by simp
next
  case (Cons c cs)
  then show ?case by (cases k) (auto simp: ac_simps)
qed

lemma mset_distinct_set:
  "mset xs = mset ys \<Longrightarrow> distinct xs = distinct ys \<and> set xs = set ys"
  by (metis mset_eq_imp_distinct_iff mset_eq_setD)

lemma queued_deliver:
  assumes "k < length (consumers s)"
  shows "mset (queued (deliver p k s)) = add_mset p (mset (queued s))"
  using mset_queued_update [OF assms, of "co_update p (consumers s ! k)"]
  by (simp add: queued_def deliver_def)

lemma queue_in_queued:
  "k < length (consumers s) \<Longrightarrow> p \<in> set (queue (consumers s ! k)) \<Longrightarrow> p \<in> set (queued s)"
  by (auto simp: queued_def)

section \<open>Delivery of one message\<close>

lemma node_fields [simp]:
  "queued (s\<lparr>heap := h\<rparr>) = queued s" "queued (s\<lparr>next_ptr := n\<rparr>) = queued s"
  "queued (s\<lparr>nics := x\<rparr>) = queued s" "queued (s\<lparr>on_wire := w\<rparr>) = queued s"
  "queued (s\<lparr>comms := cm\<rparr>) = queued s" "queued (s\<lparr>p_observers := po\<rparr>) = queued s"
  by (simp_all add: queued_def)

lemma length_frame_data: "length f = frame_size \<Longrightarrow> length (pkt_data f) = PROTOCOL_MTU"
  by (simp add: pkt_data_def frame_size_def MTU_def PROTOCOL_MTU_def header_size_def)

text \<open>From a whole frame the message is built without a fault, and it is well formed.\<close>

lemma received_message_ok:
  assumes "length f = frame_size"
  obtains m where "received_message f junk = Inr m" and "message_ok m"
    and "m_size m = min MAX_SIZE (unat (ntohs (payload_size (pkt_header f))))"
    and "msg_bytes m = take (m_size m) (pkt_data f)" and "m_src m = frame_src f"
    and "origin m = src_quadrant (pkt_header f) AND 0x3"
proof -
  define len where "len = min MAX_SIZE (unat (ntohs (payload_size (pkt_header f))))"
  have len: "len \<le> MAX_SIZE" "len \<le> length (pkt_data f)"
    using length_frame_data [OF assms]
    by (simp_all add: len_def MAX_SIZE_def PROTOCOL_MTU_def MTU_def header_size_def)
  define m where "m = set_origin (src_quadrant (pkt_header f)) (set_src (frame_src f) (set_size len
      ((new_message junk)\<lparr>m_data := poke 0 (take len (pkt_data f)) (replicate MAX_SIZE 0)\<rparr>)))"
  have "received_message f junk = Inr m"
    using len by (simp add: received_message_def proto_receive_def memcpy_def new_message_def
        Let_def len_def [symmetric] m_def)
  moreover have "message_ok m" and "msg_bytes m = take (m_size m) (pkt_data f)"
    using len by (simp_all add: m_def message_ok_def msg_bytes_def set_origin_def set_src_def
        set_size_def poke_def new_message_def)
  moreover have "m_size m = len" and "m_src m = frame_src f"
    and "origin m = src_quadrant (pkt_header f) AND 0x3"
    by (simp_all add: m_def set_origin_def set_src_def set_size_def origin_def and.assoc)
  ultimately show ?thesis using that len_def by blast
qed

lemma notify_one:
  assumes "length os \<le> 1"
  shows "notify os c upd s =
    (case os of [] \<Rightarrow> (False, s) | (r, x) # _ \<Rightarrow> if r = c then (True, upd x s) else (False, s))"
  using assms by (cases os) (auto simp: notify_def)

lemma heap_ok_new:
  assumes "heap_ok s" and "message_ok m" and "0 < m_size m" and "k < length (consumers s)"
  shows "heap_ok (deliver (next_ptr s) k
    (s\<lparr>heap := (heap s)(next_ptr s \<mapsto> m), next_ptr := next_ptr s + 1\<rparr>))" (is "heap_ok ?t")
proof -
  have "k < length (consumers (s\<lparr>heap := (heap s)(next_ptr s \<mapsto> m), next_ptr := next_ptr s + 1\<rparr>))"
    using assms(4) by simp
  from queued_deliver [OF this]
  have "mset (queued ?t) = mset (next_ptr s # queued s)" by simp
  from mset_distinct_set [OF this]
  have d: "distinct (queued ?t) = distinct (next_ptr s # queued s)"
    and st: "set (queued ?t) = insert (next_ptr s) (set (queued s))" by simp_all
  have fresh: "next_ptr s \<notin> dom (heap s)" using assms(1) by (auto simp: heap_ok_def)
  have "set (consumers ?t) \<subseteq> insert (co_update (next_ptr s) (consumers s ! k)) (set (consumers s))"
    by (simp add: deliver_def set_update_subset_insert)
  moreover have "co_ok (consumers s ! k)" using assms(1,4) by (simp add: heap_ok_def)
  ultimately have "\<forall>ob\<in>set (consumers ?t). co_ok ob"
    using assms(1) by (auto simp: heap_ok_def)
  moreover have "heap ?t = (heap s)(next_ptr s \<mapsto> m)" and "next_ptr ?t = next_ptr s + 1"
    by (simp_all add: deliver_def)
  ultimately show ?thesis
    using assms d st fresh by (auto simp: heap_ok_def ran_def less_Suc_eq)
qed

lemma heap_ok_next: "heap_ok s \<Longrightarrow> heap_ok (s\<lparr>next_ptr := next_ptr s + 1\<rparr>)"
  by (auto simp: heap_ok_def intro: less_SucI)

text \<open>\<open>Communicator::update\<close> hands the message to the subscriber or deletes it again.\<close>

lemma comm_update_ok:
  assumes "node_ok s" and "c < length (comms s)" and "length (the_frame n i s) = frame_size"
  obtains t where "comm_update n i c s = Inr t" and "node_ok t" and "nics t = nics s"
    and "p_nics t = p_nics s" and "p_observers t = p_observers s" and "comms t = comms s"
    and "length (consumers t) = length (consumers s)" and "p_quadrant t = p_quadrant s"
proof -
  obtain m where m: "received_message (the_frame n i s) (fresh s) = Inr m" "message_ok m"
    using received_message_ok [OF assms(3)] by metis
  let ?p = "next_ptr s"
  let ?s1 = "s\<lparr>heap := (heap s)(?p \<mapsto> m), next_ptr := ?p + 1\<rparr>"
  let ?cm = "comms s ! c"
  have ok: "comm_ok (length (consumers s)) ?cm"
    using assms(1,2) by (simp add: node_ok_def wired_def)
  have heap_s: "heap_ok s" and wired_s: "wired s" using assms(1) by (simp_all add: node_ok_def)
  have "heap s ?p = None" using heap_s by (auto simp: heap_ok_def)
  then have del: "delete_msg ?p ?s1 = Inr (s\<lparr>next_ptr := ?p + 1\<rparr>)"
    by (simp add: delete_msg_def fun_upd_idem)
  have del_ok: "node_ok (s\<lparr>next_ptr := ?p + 1\<rparr>)"
    using heap_ok_next [OF heap_s] wired_s by (simp add: node_ok_def wired_def)
  show ?thesis
  proof (cases "m_size m = 0 \<or> receivers (c_subscribers ?cm) (port (c_address ?cm)) = []")
    case True
    then have "comm_update n i c s = Inr (s\<lparr>next_ptr := ?p + 1\<rparr>)"
      using m(1) del by (auto simp: comm_update_def Let_def notify_eq)
    then show ?thesis using that del_ok by simp
  next
    case False
    then obtain k where k: "receivers (c_subscribers ?cm) (port (c_address ?cm)) = [k]"
      and "k < length (consumers s)"
      using ok by (cases "c_subscribers ?cm") (auto simp: comm_ok_def split: if_splits)
    then have "comm_update n i c s = Inr (deliver ?p k ?s1)"
      using m(1) False by (simp add: comm_update_def Let_def notify_eq)
    moreover have "heap_ok (deliver ?p k ?s1)"
      using heap_ok_new [OF heap_s m(2)] False \<open>k < length (consumers s)\<close> by simp
    moreover have "wired (deliver ?p k ?s1)"
      using wired_s by (simp add: deliver_def wired_def)
    ultimately show ?thesis using that by (simp add: deliver_def node_ok_def)
  qed
qed

section \<open>A frame from the engine\<close>

definition same_layout :: "node \<Rightarrow> node \<Rightarrow> bool" where
  "same_layout s t \<longleftrightarrow> length (nics t) = length (nics s) \<and> p_nics t = p_nics s \<and>
     p_observers t = p_observers s \<and> comms t = comms s \<and> p_quadrant t = p_quadrant s \<and>
     length (consumers t) = length (consumers s)"

lemma same_layout_refl [simp]: "same_layout s s"
  by (simp add: same_layout_def)

lemma same_layout_trans: "same_layout s t \<Longrightarrow> same_layout t u \<Longrightarrow> same_layout s u"
  by (simp add: same_layout_def)

lemma node_ok_nic: "node_ok s \<Longrightarrow> n < length (nics s) \<Longrightarrow> nic_ok (nics s ! n)"
  by (simp add: node_ok_def wired_def)

lemma node_ok_frame:
  assumes "node_ok s" and "n < length (nics s)" and "i < BUFFER_COUNT"
  shows "length (the_frame n i s) = frame_size"
  using node_ok_nic [OF assms(1,2)] assms(3) by (simp add: nic_ok_def the_frame_def pool_ok_def)

lemma fold_comm_update_ok:
  assumes "node_ok s" and "\<forall>c\<in>set cs. c < length (comms s)" and "n < length (nics s)"
    and "i < BUFFER_COUNT"
  shows "\<exists>t. fold (\<lambda>c r. and_then r (comm_update n i c)) cs (Inr s) = Inr t \<and> node_ok t \<and>
    same_layout s t \<and> nics t = nics s"
  using assms
proof (induction cs arbitrary: s)
  case Nil
  then show ?case by simp
next
  case (Cons c cs)
  have "c < length (comms s)" using Cons.prems by simp
  from comm_update_ok [OF Cons.prems(1) this node_ok_frame [OF Cons.prems(1,3,4)]]
  obtain t where t: "comm_update n i c s = Inr t" "node_ok t" "same_layout s t" "comms t = comms s"
      "nics t = nics s"
    unfolding same_layout_def by metis
  have "\<exists>u. fold (\<lambda>c r. and_then r (comm_update n i c)) cs (Inr t) = Inr u \<and> node_ok u \<and>
    same_layout t u \<and> nics u = nics t"
    by (rule Cons.IH [OF t(2)]) (use Cons.prems t in auto)
  then show ?case using t same_layout_trans by (auto simp: fold_simps)
qed

lemma receivers_subset: "c \<in> set (receivers os p) \<Longrightarrow> (p, c) \<in> set os"
  by (auto simp: receivers_def)

lemma proto_notify_ok:
  assumes "node_ok s" and "n < length (nics s)" and "i < BUFFER_COUNT"
  obtains t where "proto_notify n i p s = Inr t" and "node_ok t" and "same_layout s t" and "nics t = nics s"
proof -
  have "\<forall>c\<in>set (receivers (p_observers s) p). c < length (comms s)"
    using assms(1) by (auto simp: node_ok_def wired_def dest: receivers_subset)
  from fold_comm_update_ok [OF assms(1) this assms(2,3)] that
  show ?thesis by (auto simp: proto_notify_def notify_eq)
qed

lemma wired_nic_update:
  "wired s \<Longrightarrow> nic_ok nc \<Longrightarrow> wired (s\<lparr>nics := (nics s)[n := nc]\<rparr>)"
  using set_update_subset_insert [of "nics s" n nc] by (auto simp: wired_def)

lemma node_ok_nic_update:
  assumes "node_ok s" and "nic_ok nc"
  shows "node_ok (s\<lparr>nics := (nics s)[n := nc]\<rparr>)"
  using assms wired_nic_update by (simp add: node_ok_def heap_ok_def)

lemma proto_free_ok:
  assumes "node_ok s" and "n < length (nics s)" and "i < BUFFER_COUNT"
  shows "node_ok (proto_free n i s) \<and> same_layout s (proto_free n i s)"
proof -
  have nc: "nic_ok (nics s ! n)" by (rule node_ok_nic [OF assms(1,2)])
  then have "i < length (pool (nics s ! n))" using assms(3) by (simp add: nic_ok_def pool_ok_def)
  with nc have "nic_ok ((nics s ! n)\<lparr>pool := pool_free i (pool (nics s ! n))\<rparr>)"
    by (simp add: nic_ok_def pool_ok_free)
  from node_ok_nic_update [OF assms(1) this, of n] assms(1) show ?thesis
    by (simp add: proto_free_def same_layout_def split: option.splits)
qed

text \<open>The shape of \<open>Protocol::update\<close>: a list of ports is notified, then the buffer freed.\<close>

definition dispatch_ports :: "frame \<Rightarrow> u16 list" where
  "dispatch_ports f =
     (let p = ntohs (dst_port (pkt_header f));
          is_ptp = unat (ntohs (payload_size (pkt_header f))) = 13;
          t = message_type (dec_ptp (pkt_data f))
      in if p \<noteq> 0 then [p] else if \<not> is_ptp then [PORT_GATEWAY]
         else if t = 1 \<or> t = 3 then [PORT_TIME_CLIENT] else [PORT_RSU, PORT_GATEWAY])"

definition notify_ports :: "nat \<Rightarrow> nat \<Rightarrow> u16 list \<Rightarrow> node \<Rightarrow> runtime_error + node" where
  "notify_ports n i ps s = fold (\<lambda>p r. and_then r (proto_notify n i p)) ps (Inr s)"

lemma proto_update_eq:
  "proto_update n i s =
     and_then (notify_ports n i (dispatch_ports (the_frame n i s)) s) (\<lambda>t. Inr (proto_free n i t))"
  by (simp add: proto_update_def dispatch_ports_def notify_ports_def Let_def sizeof_ptp_def)

lemma notify_ports_ok:
  assumes "node_ok s" and "n < length (nics s)" and "i < BUFFER_COUNT"
  shows "\<exists>t. notify_ports n i ps s = Inr t \<and> node_ok t \<and> same_layout s t \<and> nics t = nics s"
  using assms
proof (induction ps arbitrary: s)
  case Nil
  then show ?case by (simp add: notify_ports_def)
next
  case (Cons p ps)
  obtain t where t: "proto_notify n i p s = Inr t" "node_ok t" "same_layout s t" "nics t = nics s"
    by (rule proto_notify_ok [OF Cons.prems])
  then have "n < length (nics t)" using Cons.prems by (simp add: same_layout_def)
  from Cons.IH [OF t(2) this Cons.prems(3)] t same_layout_trans
  show ?case by (auto simp: notify_ports_def)
qed

lemma proto_update_ok:
  assumes "node_ok s" and "n < length (nics s)" and "i < BUFFER_COUNT"
  obtains t where "proto_update n i s = Inr t" and "node_ok t" and "same_layout s t"
    and "nics t = nics (proto_free n i s)"
proof -
  obtain t where t: "notify_ports n i (dispatch_ports (the_frame n i s)) s = Inr t" "node_ok t"
      "same_layout s t" "nics t = nics s"
    using notify_ports_ok [OF assms] by blast
  have nics_eq: "nics (proto_free n i t) = nics (proto_free n i s)"
    using t(4) by (simp add: proto_free_def split: option.splits)
  have "n < length (nics t)" using assms(2) t(4) by simp
  from proto_free_ok [OF t(2) this assms(3)] t that same_layout_trans nics_eq
  show ?thesis by (auto simp: proto_update_eq)
qed

lemma fold_proto_update_ok:
  assumes "node_ok s" and "n < length (nics s)" and "i < BUFFER_COUNT"
  shows "\<exists>t. fold (\<lambda>u r. and_then r (proto_update n i)) us (Inr s) = Inr t \<and> node_ok t \<and>
    same_layout s t"
  using assms
proof (induction us arbitrary: s)
  case Nil
  then show ?case by simp
next
  case (Cons u us)
  obtain t where t: "proto_update n i s = Inr t" "node_ok t" "same_layout s t"
    by (rule proto_update_ok [OF Cons.prems])
  then have "n < length (nics t)" using Cons.prems by (simp add: same_layout_def)
  from Cons.IH [OF t(2) this Cons.prems(3)] t same_layout_trans show ?case by auto
qed

lemma put_frame_ok:
  assumes "length (b_frame b) = frame_size" and "len \<le> length raw" and "len \<le> frame_size"
  shows "put_frame raw len b =
      Inr ((allocate b)\<lparr>b_size := len, b_frame := poke 0 (take len raw) (b_frame b)\<rparr>)"
  using assms by (simp add: put_frame_def memcpy_def allocate_def)

lemma nic_handle_ok:
  assumes "node_ok s" and "n < length (nics s)" and "len \<le> length raw" and "len \<le> frame_size"
  obtains t where "nic_handle pos n raw len s = Inr t" and "node_ok t" and "same_layout s t"
proof (cases "\<not> verifica_quadrante pos raw s \<or> first_index is_free (pool (nics s ! n)) = None")
  case True
  then have "nic_handle pos n raw len s = Inr s" by (auto simp: nic_handle_def)
  with that assms(1) show ?thesis by simp
next
  case False
  then obtain i where i: "first_index is_free (pool (nics s ! n)) = Some i"
    and q: "verifica_quadrante pos raw s" by auto
  have nc: "nic_ok (nics s ! n)" by (rule node_ok_nic [OF assms(1,2)])
  have "i < length (pool (nics s ! n))" using i by (simp add: first_index_Some)
  then have fr: "length (b_frame (pool (nics s ! n) ! i)) = frame_size" and i2: "i < BUFFER_COUNT"
    using nc by (simp_all add: nic_ok_def pool_ok_def)
  define b where "b = (allocate (pool (nics s ! n) ! i))\<lparr>b_size := len,
    b_frame := poke 0 (take len raw) (b_frame (pool (nics s ! n) ! i))\<rparr>"
  define s1 where "s1 = s\<lparr>nics := (nics s)[n := (nics s ! n)\<lparr>pool := (pool (nics s ! n))[i := b]\<rparr>]\<rparr>"
  have "length (b_frame b) = frame_size" using fr assms(3,4) by (simp add: b_def)
  then have "nic_ok ((nics s ! n)\<lparr>pool := (pool (nics s ! n))[i := b]\<rparr>)"
    using nc by (simp add: nic_ok_def pool_ok_update)
  from node_ok_nic_update [OF assms(1) this, of n] have "node_ok s1" by (simp add: s1_def)
  moreover have "n < length (nics s1)" using assms(2) by (simp add: s1_def)
  moreover have "same_layout s s1" by (simp add: s1_def same_layout_def)
  ultimately obtain t where "node_ok t" and "same_layout s t" and
      "fold (\<lambda>u r. and_then r (proto_update n i))
         (receivers (n_observers (nics s ! n)) (ntohs (frame_type (b_frame b)))) (Inr s1) = Inr t"
    using fold_proto_update_ok i2 same_layout_trans by blast
  moreover have "put_frame raw len (pool (nics s ! n) ! i) = Inr b"
    using put_frame_ok [OF fr assms(3,4)] by (simp add: b_def)
  ultimately show ?thesis
    using that q i by (simp add: nic_handle_def notify_eq s1_def Let_def)
qed

text \<open>
  An accepted frame of the protocol's type on a NIC with one attachment, spelled out: the first
  free slot takes the frame, \<open>Protocol::update\<close> runs once on it.
\<close>

lemma nic_handle_accepted:
  assumes "node_ok s" and "n < length (nics s)" and "len \<le> length raw" and "len \<le> frame_size"
    and "verifica_quadrante pos raw s" and "first_index is_free (pool (nics s ! n)) = Some i"
    and "n_observers (nics s ! n) = [(PROTO, ())]"
  defines "b \<equiv> (allocate (pool (nics s ! n) ! i))\<lparr>b_size := len,
    b_frame := poke 0 (take len raw) (b_frame (pool (nics s ! n) ! i))\<rparr>"
  defines "s1 \<equiv> s\<lparr>nics := (nics s)[n := (nics s ! n)\<lparr>pool := (pool (nics s ! n))[i := b]\<rparr>]\<rparr>"
  assumes "ntohs (frame_type (b_frame b)) = PROTO"
  shows "nic_handle pos n raw len s = proto_update n i s1" and "node_ok s1" and "i < BUFFER_COUNT"
    and "the_frame n i s1 = b_frame b" and "length (b_frame b) = frame_size"
    and "same_layout s s1"
proof -
  have nc: "nic_ok (nics s ! n)" by (rule node_ok_nic [OF assms(1,2)])
  have i: "i < length (pool (nics s ! n))" using assms(6) by (simp add: first_index_Some)
  then have fr: "length (b_frame (pool (nics s ! n) ! i)) = frame_size"
    using nc by (simp add: nic_ok_def pool_ok_def)
  show "i < BUFFER_COUNT" using nc i by (simp add: nic_ok_def pool_ok_def)
  show fb: "length (b_frame b) = frame_size" using fr assms(3,4) by (simp add: b_def)
  then have "nic_ok ((nics s ! n)\<lparr>pool := (pool (nics s ! n))[i := b]\<rparr>)"
    using nc by (simp add: nic_ok_def pool_ok_update)
  from node_ok_nic_update [OF assms(1) this, of n] show "node_ok s1" by (simp add: s1_def)
  show "the_frame n i s1 = b_frame b" using assms(2) i by (simp add: s1_def the_frame_def)
  show "same_layout s s1" by (simp add: s1_def same_layout_def)
  have "put_frame raw len (pool (nics s ! n) ! i) = Inr b"
    using put_frame_ok [OF fr assms(3,4)] by (simp add: b_def)
  then show "nic_handle pos n raw len s = proto_update n i s1"
    using assms(5-7,10) by (simp add: nic_handle_def notify_eq s1_def Let_def)
qed

text \<open>\<open>Communicator::update\<close> with a subscriber, spelled out.\<close>

lemma comm_update_delivers:
  assumes "received_message (the_frame n i s) (fresh s) = Inr m" and "m_size m \<noteq> 0"
    and "receivers (c_subscribers (comms s ! c)) (port (c_address (comms s ! c))) = ks" and "ks \<noteq> []"
  shows "comm_update n i c s = Inr (fold (deliver (next_ptr s)) ks
    (s\<lparr>heap := (heap s)(next_ptr s \<mapsto> m), next_ptr := next_ptr s + 1\<rparr>))"
  using assms by (simp add: comm_update_def Let_def notify_eq)

end
