(* ===== verification/Stack_Delivery.thy ===== *)
theory Stack_Delivery
  imports Stack_Memory
begin

text \<open>
  The stack end to end: the bytes a send puts on the wire, that sending gives back every buffer it
  takes, and that a message sent by one process is the message a consumer of another process receives.
\<close>

section \<open>Sending\<close>

text \<open>The bytes a frame of the protocol has.\<close>

definition wire_frame :: "mac \<Rightarrow> address \<Rightarrow> address \<Rightarrow> byte \<Rightarrow> byte list \<Rightarrow> byte list" where
  "wire_frame mac src dst q payload =
     paddr dst @ mac @ le_encode 2 PROTO @
     enc_header \<lparr>src_port = htons (port src), dst_port = htons (port dst),
       payload_size = htons (of_nat (length payload)), src_quadrant = q\<rparr> @ payload"

lemma take_poke_end:
  "off \<le> length mem \<Longrightarrow> n = off + length xs \<Longrightarrow> take n (poke off xs mem) = take off mem @ xs"
  by (simp add: poke_def)

lemma filled_frame:
  fixes k :: nat and sz :: nat
  assumes "length (b_frame b) = frame_size" and "length mac = 6" and "length (paddr dst) = 6"
    and "length payload \<le> PROTOCOL_MTU"
    and "h = \<lparr>src_port = htons (port src), dst_port = htons (port dst),
       payload_size = htons (of_nat (length payload)), src_quadrant = q\<rparr>"
  defines "f \<equiv> put_header h (b_frame (fill_alloc k mac (paddr dst) (htons PROTO) sz b))"
  shows "length f = frame_size"
    and "take (14 + header_size + length payload) (poke (14 + header_size) payload f) =
      wire_frame mac src dst q payload"
proof -
  let ?f0 = "b_frame b"
  let ?f1 = "poke 0 (paddr dst) ?f0"
  let ?f2 = "poke 6 mac ?f1"
  let ?f3 = "poke 12 (le_encode 2 PROTO) ?f2"
  have hl: "length (enc_header h) = 7"
    using header_codec.enc_length [of h] by (simp add: header_size_def)
  have f: "f = poke 14 (enc_header h) ?f3"
    by (simp add: f_def put_header_def fill_alloc_def allocate_def set_frame_dst_def
        set_frame_src_def set_frame_type_def)
  have l1: "length ?f1 = frame_size" using assms(1,3) by (simp add: frame_size_def)
  have l2: "length ?f2 = frame_size" using l1 assms(2) by (simp add: frame_size_def)
  have l3: "length ?f3 = frame_size" using l2 by (simp add: frame_size_def)
  show lf: "length f = frame_size" using l3 hl by (simp add: f frame_size_def MTU_def)
  have "take (14 + header_size + length payload) (poke (14 + header_size) payload f) =
      take 21 f @ payload"
    using lf by (simp add: take_poke_end header_size_def frame_size_def MTU_def)
  also have "take 21 f = take 14 ?f3 @ enc_header h"
    using l3 hl by (simp add: f take_poke_end frame_size_def MTU_def)
  also have "take 14 ?f3 = take 12 ?f2 @ le_encode 2 PROTO"
    using l2 by (simp add: take_poke_end frame_size_def MTU_def)
  also have "take 12 ?f2 = take 6 ?f1 @ mac"
    using l1 assms(2) by (simp add: take_poke_end frame_size_def MTU_def)
  also have "take 6 ?f1 = paddr dst"
    using assms(1,3) by (simp add: take_poke_end frame_size_def MTU_def)
  finally show "take (14 + header_size + length payload) (poke (14 + header_size) payload f) =
      wire_frame mac src dst q payload"
    by (simp add: wire_frame_def assms(5))
qed

text \<open>
  One NIC: nothing happens when its pool is exhausted; otherwise the frame goes out and the pool
  is as available as before.
\<close>

lemma send_one_spec:
  assumes "node_ok s" and "n < length (nics s)" and "length (paddr dst) = 6"
    and "sz \<le> length dat" and "sz \<le> PROTOCOL_MTU"
  defines "mac \<equiv> n_address (nics s ! n)"
  obtains t where "send_one pos src dst dat sz n s = Inr t" and "node_ok t" and "same_layout s t"
    and "free_slots (pool (nics t ! n)) = free_slots (pool (nics s ! n))"
    and "\<And>m. m \<noteq> n \<Longrightarrow> nics t ! m = nics s ! m"
    and "map n_address (nics t) = map n_address (nics s)"
    and "map n_observers (nics t) = map n_observers (nics s)"
    and "heap t = heap s" and "consumers t = consumers s" and "p_quadrant t = p_quadrant s"
    and "on_wire t = on_wire s @
      (if free_slots (pool (nics s ! n)) = {} then []
       else [(n, wire_frame mac src dst (my_quadrant pos s) (take sz dat))])"
proof -
  let ?nc = "nics s ! n"
  let ?h = "\<lparr>src_port = htons (port src), dst_port = htons (port dst),
       payload_size = htons (of_nat sz), src_quadrant = my_quadrant pos s\<rparr>"
  have nc: "nic_ok ?nc" by (rule node_ok_nic [OF assms(1,2)])
  show ?thesis
  proof (cases "first_index is_free (pool ?nc)")
    case None
    then have "free_slots (pool ?nc) = {}" by (auto simp: free_slots_def first_index_None)
    moreover have "send_one pos src dst dat sz n s = Inr s"
      using None by (simp add: send_one_def pool_alloc_def Let_def)
    ultimately show ?thesis using that assms(1) by simp
  next
    case (Some i)
    let ?b = "fill_alloc n mac (paddr dst) (htons PROTO) (header_size + sz) (pool ?nc ! i)"
    let ?f = "put_header ?h (b_frame ?b)"
    let ?f' = "poke (14 + header_size) (take sz dat) ?f"
    have i: "i < length (pool ?nc)" and free: "is_free (pool ?nc ! i)"
      using Some by (simp_all add: first_index_Some)
    then have fr: "length (b_frame (pool ?nc ! i)) = frame_size"
      using nc by (simp add: nic_ok_def pool_ok_def)
    have mac: "length mac = 6" using nc by (simp add: nic_ok_def mac_def)
    have sz: "length (take sz dat) = sz" using assms(4) by simp
    have lf: "length ?f = frame_size"
      and w: "take (14 + header_size + sz) ?f' = wire_frame mac src dst (my_quadrant pos s) (take sz dat)"
      using filled_frame [OF fr mac assms(3), of "take sz dat" ?h src "my_quadrant pos s" n
          "header_size + sz"] assms(5) sz by auto
    have fit: "14 + header_size + sz \<le> length ?f"
      using lf assms(5) by (simp add: frame_size_def PROTOCOL_MTU_def header_size_def MTU_def)
    let ?p = "(pool ?nc)[i := release (?b\<lparr>b_frame := ?f'\<rparr>)]"
    let ?t = "s\<lparr>nics := (nics s)[n := ?nc\<lparr>pool := ?p\<rparr>],
      on_wire := on_wire s @ [(n, wire_frame mac src dst (my_quadrant pos s) (take sz dat))]\<rparr>"
    have bs: "b_size ?b = 14 + header_size + sz" by (simp add: fill_alloc_def)
    have "send_one pos src dst dat sz n s = Inr ?t"
      using Some i fit assms(4) w bs
      by (simp add: send_one_def pool_alloc_def Let_def mac_def [symmetric] memcpy_def sz
          pool_free_def)
    moreover have "length (b_frame (release (?b\<lparr>b_frame := ?f'\<rparr>))) = frame_size"
      using fit lf sz by (simp add: release_def)
    then have "nic_ok (?nc\<lparr>pool := ?p\<rparr>)" using nc by (simp add: nic_ok_def pool_ok_update)
    from node_ok_nic_update [OF assms(1) this, of n] have "node_ok ?t"
      by (simp add: node_ok_def heap_ok_def wired_def)
    moreover have "free_slots ?p = free_slots (pool ?nc)"
      using i free by (auto simp: free_slots_def nth_list_update)
    moreover have "free_slots (pool ?nc) \<noteq> {}" using i free by (auto simp: free_slots_def)
    moreover have "map n_address (nics ?t) = map n_address (nics s)"
      "map n_observers (nics ?t) = map n_observers (nics s)"
      using assms(2) by (simp_all add: list_eq_iff_nth_eq nth_list_update)
    ultimately show ?thesis using that assms(2) by (simp add: same_layout_def)
  qed
qed

definition frames_out :: "node \<Rightarrow> nat list \<Rightarrow> address \<Rightarrow> address \<Rightarrow> byte \<Rightarrow> byte list
    \<Rightarrow> (nat \<times> byte list) list" where
  "frames_out s ns src dst q payload =
     concat (map (\<lambda>n. if free_slots (pool (nics s ! n)) = {} then []
       else [(n, wire_frame (n_address (nics s ! n)) src dst q payload)]) ns)"

definition same_pools :: "node \<Rightarrow> node \<Rightarrow> bool" where
  "same_pools s t \<longleftrightarrow> (\<forall>n<length (nics s). free_slots (pool (nics t ! n)) = free_slots (pool (nics s ! n)))"

definition same_but_nics :: "node \<Rightarrow> node \<Rightarrow> bool" where
  "same_but_nics s t \<longleftrightarrow> heap t = heap s \<and> consumers t = consumers s \<and> p_quadrant t = p_quadrant s \<and>
     map n_address (nics t) = map n_address (nics s) \<and> map n_observers (nics t) = map n_observers (nics s)"

lemma map_nth_eq: "map f xs = map f ys \<Longrightarrow> n < length xs \<Longrightarrow> f (xs ! n) = f (ys ! n)"
  by (metis length_map nth_map)

lemma my_quadrant_cong: "p_quadrant t = p_quadrant s \<Longrightarrow> my_quadrant pos t = my_quadrant pos s"
  by (simp add: my_quadrant_def get_quadrant_def)

lemma send_nics_spec:
  assumes "node_ok s" and "\<forall>n\<in>set ns. n < length (nics s)" and "length (paddr dst) = 6"
    and "sz \<le> length dat" and "sz \<le> PROTOCOL_MTU"
  shows "\<exists>t. send_nics pos src dst dat sz ns s = Inr t \<and> node_ok t \<and> same_layout s t \<and>
    same_pools s t \<and> same_but_nics s t \<and>
    on_wire t = on_wire s @ frames_out s ns src dst (my_quadrant pos s) (take sz dat)"
  using assms(1,2)
proof (induction ns arbitrary: s)
  case Nil
  then show ?case by (simp add: same_pools_def same_but_nics_def frames_out_def)
next
  case (Cons n ns)
  have n: "n < length (nics s)" using Cons.prems by simp
  obtain u where u: "send_one pos src dst dat sz n s = Inr u" "node_ok u" "same_layout s u"
      "same_pools s u" "same_but_nics s u"
      "on_wire u = on_wire s @ frames_out s [n] src dst (my_quadrant pos s) (take sz dat)"
  proof (rule send_one_spec [OF Cons.prems(1) n assms(3-5), of pos src])
    fix t
    assume t: "send_one pos src dst dat sz n s = Inr t" "node_ok t" "same_layout s t"
      and f: "free_slots (pool (nics t ! n)) = free_slots (pool (nics s ! n))"
      and o: "\<And>m. m \<noteq> n \<Longrightarrow> nics t ! m = nics s ! m"
      and r: "map n_address (nics t) = map n_address (nics s)"
        "map n_observers (nics t) = map n_observers (nics s)" "heap t = heap s"
        "consumers t = consumers s" "p_quadrant t = p_quadrant s"
      and w: "on_wire t = on_wire s @ (if free_slots (pool (nics s ! n)) = {} then []
        else [(n, wire_frame (n_address (nics s ! n)) src dst (my_quadrant pos s) (take sz dat))])"
    have "free_slots (pool (nics t ! m)) = free_slots (pool (nics s ! m))" for m
      using f o [of m] by (cases "m = n") simp_all
    then have "same_pools s t" by (simp add: same_pools_def)
    with t r w show thesis by (intro that) (simp_all add: same_but_nics_def frames_out_def)
  qed
  have len: "length (nics u) = length (nics s)" using u(3) by (simp add: same_layout_def)
  obtain t where t: "send_nics pos src dst dat sz ns u = Inr t" "node_ok t" "same_layout u t"
      "same_pools u t" "same_but_nics u t"
      "on_wire t = on_wire u @ frames_out u ns src dst (my_quadrant pos u) (take sz dat)"
    using Cons.IH [OF u(2)] Cons.prems(2) len by auto
  have "frames_out u ns src dst q x = frames_out s ns src dst q x" for q x
    unfolding frames_out_def
  proof (intro arg_cong [where f = concat] map_cong refl)
    fix m assume "m \<in> set ns"
    then have m: "m < length (nics s)" using Cons.prems(2) by simp
    then have "free_slots (pool (nics u ! m)) = free_slots (pool (nics s ! m))"
      and "n_address (nics u ! m) = n_address (nics s ! m)"
      using u(4,5) map_nth_eq [of n_address "nics u" "nics s" m] len
      by (simp_all add: same_pools_def same_but_nics_def)
    then show "(if free_slots (pool (nics u ! m)) = {} then []
         else [(m, wire_frame (n_address (nics u ! m)) src dst q x)]) =
       (if free_slots (pool (nics s ! m)) = {} then []
         else [(m, wire_frame (n_address (nics s ! m)) src dst q x)])" by simp
  qed
  moreover have "my_quadrant pos u = my_quadrant pos s"
    using u(5) by (intro my_quadrant_cong) (simp add: same_but_nics_def)
  ultimately have "on_wire t = on_wire s @ frames_out s (n # ns) src dst (my_quadrant pos s) (take sz dat)"
    using t(6) u(6) by (simp add: frames_out_def)
  moreover have "same_pools s t" and "same_but_nics s t"
    using u(4,5) t(4,5) len by (simp_all add: same_pools_def same_but_nics_def)
  ultimately show ?case
    using u(1,3) t(1-3) same_layout_trans by auto
qed

section \<open>A process\<close>

text \<open>
  A process at start-up: one NIC per address, cleared memory, the \<open>Protocol\<close> on the first
  NIC and, in \<open>boot\<close>, a communicator with an endpoint on one port.
\<close>

definition process :: "mac list \<Rightarrow> node" where
  "process macs = \<lparr>nics = map (\<lambda>a. new_nic a (replicate BUFFER_COUNT zero_buffer)) macs,
     p_nics = [], p_observers = [], p_quadrant = 0, comms = [], consumers = [], heap = Map.empty,
     next_ptr = 0,
     fresh = \<lparr>m_data = replicate MAX_SIZE 0, m_size = 0, m_src = replicate 6 0, m_origin = 0,
       m_timestamp = 0, m_data_type = 0, m_msg_type = 0\<rparr>,
     on_wire = []\<rparr>"

definition boot :: "mac \<Rightarrow> u16 \<Rightarrow> node" where
  "boot a p = endpoint_create 0 (comm_create \<lparr>paddr = a, port = p\<rparr> (proto_new 0 (process [a])))"

lemma boot_fields:
  "nics (boot a p) = [\<lparr>n_address = a, pool = zero_pool, n_observers = [(PROTO, ())]\<rparr>]"
  "p_nics (boot a p) = [0]" "p_observers (boot a p) = [(p, 0)]" "p_quadrant (boot a p) = 255"
  "comms (boot a p) = [\<lparr>c_address = \<lparr>paddr = a, port = p\<rparr>, c_subscribers = [(p, 0)]\<rparr>]"
  "consumers (boot a p) = [co_new p]" "heap (boot a p) = Map.empty" "next_ptr (boot a p) = 0"
  "on_wire (boot a p) = []"
  by (simp_all add: boot_def endpoint_create_def comm_create_def proto_new_def process_def
      comm_subscribe_def proto_attach_def proto_attach_nic_def new_nic_def zero_pool_def attach_def)

lemma boot_ok: "length a = 6 \<Longrightarrow> node_ok (boot a p)"
  by (simp add: node_ok_def heap_ok_def wired_def boot_fields queued_def nic_ok_def comm_ok_def
      co_new_def co_ok_def)

lemma free_slots_zero_pool: "free_slots zero_pool = {..<128}"
  by (auto simp: free_slots_def zero_pool_nth BUFFER_COUNT_def is_free_def zero_buffer_def)
    (simp_all add: zero_pool_def BUFFER_COUNT_def)

definition some_mac :: mac where "some_mac = [2, 0, 0, 0, 0, 7]"

definition text_message :: "byte list \<Rightarrow> message" where
  "text_message bs = \<lparr>m_data = bs @ replicate (MAX_SIZE - length bs) 0, m_size = length bs,
     m_src = some_mac, m_origin = 0, m_timestamp = 0, m_data_type = 0, m_msg_type = 0\<rparr>"

lemma text_message_ok: "length bs \<le> MAX_SIZE \<Longrightarrow> message_ok (text_message bs)"
  by (simp add: text_message_def message_ok_def)

section \<open>What a send does\<close>

text \<open>
  \<open>Protocol::send\<close> of a payload that fits a frame never faults; it hands to every
  attached NIC with a free buffer exactly the frame made of destination, the NIC's address, the
  protocol number 0x8888, the header and the payload, in the order of the NICs, and gives every
  buffer back.
\<close>

theorem send_frames:
  assumes "node_ok s" and "length (paddr dst) = 6" and "sz \<le> length dat" and "sz \<le> PROTOCOL_MTU"
  shows "\<exists>t. proto_send pos src dst dat sz s = Inr (int sz, t) \<and>
    on_wire t = on_wire s @ frames_out s (p_nics s) src dst (my_quadrant pos s) (take sz dat) \<and>
    (\<forall>n<length (nics s). free_slots (pool (nics t ! n)) = free_slots (pool (nics s ! n))) \<and>
    heap t = heap s \<and> consumers t = consumers s"
proof -
  have "\<forall>n\<in>set (p_nics s). n < length (nics s)" using assms(1) by (simp add: node_ok_def wired_def)
  from send_nics_spec [OF assms(1) this assms(2-4), of pos src] show ?thesis
    by (auto simp: proto_send_def same_pools_def same_but_nics_def)
qed

lemma wire_bytes:
  "le_encode 2 PROTO = [0x88, 0x88]"
  "enc_header \<lparr>src_port = htons 9, dst_port = htons 9, payload_size = htons 3, src_quadrant = 1\<rparr> =
     [0, 9, 0, 9, 0, 3, 1]"
  by code_simp+

theorem send_frames_witness:
  "\<exists>t. proto_send 1 \<lparr>paddr = some_mac, port = 9\<rparr> \<lparr>paddr = BROADCAST, port = 9\<rparr> [1, 2, 3] 3 (boot some_mac 9)
      = Inr (3, t) \<and>
    on_wire t = [(0, BROADCAST @ some_mac @ [0x88, 0x88, 0, 9, 0, 9, 0, 3, 1, 1, 2, 3])]"
proof -
  have "\<exists>t. proto_send 1 \<lparr>paddr = some_mac, port = 9\<rparr> \<lparr>paddr = BROADCAST, port = 9\<rparr> [1, 2, 3] 3 (boot some_mac 9)
      = Inr (int 3, t) \<and> on_wire t = on_wire (boot some_mac 9) @ frames_out (boot some_mac 9)
        (p_nics (boot some_mac 9)) \<lparr>paddr = some_mac, port = 9\<rparr> \<lparr>paddr = BROADCAST, port = 9\<rparr>
        (my_quadrant 1 (boot some_mac 9)) (take 3 [1, 2, 3])"
    using send_frames [of "boot some_mac 9" "\<lparr>paddr = BROADCAST, port = 9\<rparr>" 3 "[1, 2, 3]" 1
        "\<lparr>paddr = some_mac, port = 9\<rparr>"] boot_ok [of some_mac 9]
    by (auto simp: some_mac_def BROADCAST_def PROTOCOL_MTU_def MTU_def header_size_def)
  moreover have "frames_out (boot some_mac 9) (p_nics (boot some_mac 9))
      \<lparr>paddr = some_mac, port = 9\<rparr> \<lparr>paddr = BROADCAST, port = 9\<rparr>
      (my_quadrant 1 (boot some_mac 9)) (take 3 [1, 2, 3]) =
      [(0, BROADCAST @ some_mac @ [0x88, 0x88, 0, 9, 0, 9, 0, 3, 1, 1, 2, 3])]"
    by (simp add: frames_out_def boot_fields free_slots_zero_pool wire_frame_def my_quadrant_def
        get_quadrant_def lessThan_empty_iff wire_bytes)
  ultimately show ?thesis by (simp add: boot_fields)
qed

text \<open>
  The comment promises -1 on error and a loop that stops at the first success; when no
  NIC has a free buffer, nothing goes out and the result is still the size, so
  \<open>Communicator::send\<close> reports success.
\<close>

theorem send_reports_success_unsent:
  assumes "node_ok s" and "c < length (comms s)" and "message_ok m" and "0 < m_size m"
    and "\<forall>n\<in>set (p_nics s). free_slots (pool (nics s ! n)) = {}"
  shows "\<exists>t. comm_send pos c m s = Inr (True, t) \<and> on_wire t = on_wire s"
proof -
  have p: "\<forall>n\<in>set (p_nics s). n < length (nics s)" using assms(1) by (simp add: node_ok_def wired_def)
  have "m_size m \<le> length (m_data m)" and "m_size m \<le> PROTOCOL_MTU"
    using assms(3) by (simp_all add: message_ok_def MAX_SIZE_def PROTOCOL_MTU_def MTU_def header_size_def)
  moreover have "frames_out s (p_nics s) src dst q x = []" for src dst q x
    using assms(5) by (simp add: frames_out_def)
  ultimately show ?thesis
    using send_nics_spec [OF assms(1) p, of "\<lparr>paddr = BROADCAST, port = port (c_address (comms s ! c))\<rparr>"
        "m_size m" "m_data m" pos "c_address (comms s ! c)"] assms(4)
    by (auto simp: comm_send_def proto_send_def Let_def BROADCAST_def)
qed

text \<open>A process whose buffers are all taken by frames that arrived.\<close>

definition deaf :: "node \<Rightarrow> node" where
  "deaf s = s\<lparr>nics := map (\<lambda>nc. nc\<lparr>pool := map allocate (pool nc)\<rparr>) (nics s)\<rparr>"

theorem send_reports_success_unsent_witness:
  "\<exists>t. comm_send 0 0 (text_message [5]) (deaf (boot some_mac 9)) = Inr (True, t) \<and> on_wire t = []"
proof -
  have "node_ok (deaf (boot some_mac 9))"
    using boot_ok [of some_mac 9]
    by (auto simp: some_mac_def node_ok_def heap_ok_def wired_def deaf_def queued_def boot_fields
        nic_ok_def pool_ok_def allocate_def zero_pool_def)
  moreover have "free_slots (pool (nics (deaf (boot some_mac 9)) ! 0)) = {}"
    by (auto simp: deaf_def boot_fields free_slots_def)
  ultimately have "\<exists>t. comm_send 0 0 (text_message [5]) (deaf (boot some_mac 9)) = Inr (True, t) \<and>
      on_wire t = on_wire (deaf (boot some_mac 9))"
    by (intro send_reports_success_unsent text_message_ok)
      (simp_all add: deaf_def boot_fields text_message_def MAX_SIZE_def)
  then show ?thesis by (simp add: deaf_def boot_fields)
qed

section \<open>From one process to another\<close>

text \<open>
  The engine passes a whole frame object whose first bytes are the ones that were sent. What the
  receiver reads there is what the sender put.
\<close>

lemma htons_PROTO [simp]: "htons PROTO = PROTO"
  by code_simp

lemma peek_prefix:
  assumes "take (length w) f = w" and "i + n \<le> length w"
  shows "peek i n f = peek i n w"
  using assms peek_take [of i n "length w" f] by simp

lemma peek_append_mid: "i = length xs \<Longrightarrow> n = length ys \<Longrightarrow> peek i n (xs @ ys @ zs) = ys"
  by (simp add: peek_def)

lemma wire_frame_fields:
  assumes "w = wire_frame mac src dst q payload" and "take (length w) f = w"
    and "length mac = 6" and "length (paddr dst) = 6"
  shows "length w = 14 + header_size + length payload"
    and "frame_type f = PROTO" and "frame_src f = mac"
    and "pkt_header f = \<lparr>src_port = htons (port src), dst_port = htons (port dst),
       payload_size = htons (of_nat (length payload)), src_quadrant = q\<rparr>"
    and "take (length payload) (pkt_data f) = payload"
proof -
  define h where "h = \<lparr>src_port = htons (port src), dst_port = htons (port dst),
       payload_size = htons (of_nat (length payload)), src_quadrant = q\<rparr>"
  have w: "w = paddr dst @ mac @ le_encode 2 PROTO @ enc_header h @ payload"
    by (simp add: assms(1) wire_frame_def h_def)
  have hl: "length (enc_header h) = 7"
    using header_codec.enc_length [of h] by (simp add: header_size_def)
  show lw: "length w = 14 + header_size + length payload"
    using assms(3,4) hl by (simp add: w header_size_def)
  have at: "peek i j f = peek i j w" if "i + j \<le> 21" for i j
    by (rule peek_prefix [OF assms(2)]) (use that lw in \<open>simp add: header_size_def\<close>)
  have "peek 12 2 w = le_encode 2 PROTO" unfolding w
    using peek_append_mid [of 12 "paddr dst @ mac" 2 "le_encode 2 PROTO" "enc_header h @ payload"]
      assms(3,4) by simp
  with at [of 12 2] show "frame_type f = PROTO" by (simp add: frame_type_def)
  have "peek 6 6 w = mac" unfolding w
    by (rule peek_append_mid) (simp_all only: assms(3,4))
  with at [of 6 6] show "frame_src f = mac" by (simp add: frame_src_def)
  have "peek 14 7 ((paddr dst @ mac @ le_encode 2 PROTO) @ enc_header h @ payload) = enc_header h"
  proof (rule peek_append_mid)
    show "14 = length (paddr dst @ mac @ le_encode 2 PROTO)" using assms(3,4) by simp
    show "7 = length (enc_header h)" using hl by simp
  qed
  then have "peek 14 7 w = enc_header h" by (simp only: w append_assoc)
  with at [of 14 7] have "peek 14 header_size f = enc_header h" by (simp add: header_size_def)
  then show "pkt_header f = \<lparr>src_port = htons (port src), dst_port = htons (port dst),
       payload_size = htons (of_nat (length payload)), src_quadrant = q\<rparr>"
    using header_codec.dec_enc [of h] by (simp add: pkt_header_def h_def)
  have "take (length payload) (drop (14 + header_size) f) = drop (14 + header_size) (take (length w) f)"
    using lw by (simp add: take_drop ac_simps)
  also have "\<dots> = payload" using assms(2-4) hl by (simp add: w header_size_def)
  finally show "take (length payload) (pkt_data f) = payload" by (simp add: pkt_data_def)
qed

lemma unat_size: "n \<le> MAX_SIZE \<Longrightarrow> unat (of_nat n :: u16) = n"
  by (simp add: MAX_SIZE_def unat_of_nat)

text \<open>A message object as a communicator builds it from a frame of the protocol.\<close>

lemma received_from_wire:
  assumes "w = wire_frame mac src dst q payload" and "take (length w) f = w"
    and "length mac = 6" and "length (paddr dst) = 6" and "length f = frame_size"
    and "length payload \<le> MAX_SIZE"
  obtains m where "received_message f junk = Inr m" and "message_ok m"
    and "m_size m = length payload" and "msg_bytes m = payload" and "m_src m = mac"
    and "origin m = q AND 0x3"
proof -
  note fields = wire_frame_fields [OF assms(1-4)]
  obtain m where m: "received_message f junk = Inr m" "message_ok m"
    "m_size m = min MAX_SIZE (unat (ntohs (payload_size (pkt_header f))))"
    "msg_bytes m = take (m_size m) (pkt_data f)" "m_src m = frame_src f"
    "origin m = src_quadrant (pkt_header f) AND 0x3"
    by (rule received_message_ok [OF assms(5)])
  have "m_size m = length payload" using m(3) fields(4) unat_size [OF assms(6)] assms(6) by simp
  with m fields that show ?thesis by simp
qed

lemma verifica_quadrante_eq:
  "verifica_quadrante pos f s \<longleftrightarrow> src_quadrant (pkt_header f) = my_quadrant pos s"
  by (simp add: verifica_quadrante_def my_quadrant_def get_quadrant_def)

lemma free_slot_exists: "free_slots bs \<noteq> {} \<Longrightarrow> \<exists>i. first_index is_free bs = Some i"
  by (cases "first_index is_free bs") (auto simp: free_slots_def first_index_None)

text \<open>
  A frame of the protocol, in the receiver's quadrant and for the port of one communicator, ends
  as one new message in the queue of every subscriber of that communicator.
\<close>

lemma handle_delivers:
  assumes ok: "node_ok s" and n: "n < length (nics s)" and nobs: "n_observers (nics s ! n) = [(PROTO, ())]"
    and free: "free_slots (pool (nics s ! n)) \<noteq> {}"
    and w: "w = wire_frame mac src dst (my_quadrant pos s) payload" and "length mac = 6"
    and "length (paddr dst) = 6" and pl: "length payload \<le> MAX_SIZE" "payload \<noteq> []"
    and raw: "length raw = frame_size" "take (length w) raw = w"
    and p: "port dst \<noteq> 0" "receivers (p_observers s) (port dst) = [c]"
    and subs: "receivers (c_subscribers (comms s ! c)) (port (c_address (comms s ! c))) = [k]"
  obtains t m where "nic_handle pos n raw (length w) s = Inr t" and "node_ok t"
    and "heap t = (heap s)(next_ptr s \<mapsto> m)"
    and "consumers t = (consumers s)[k := co_update (next_ptr s) (consumers s ! k)]"
    and "msg_bytes m = payload" and "m_size m = length payload" and "m_src m = mac"
    and "origin m = my_quadrant pos s AND 0x3"
proof -
  note fields = wire_frame_fields [OF w raw(2) assms(6,7)]
  obtain i where i: "first_index is_free (pool (nics s ! n)) = Some i"
    using free_slot_exists [OF free] by blast
  have len: "length w \<le> length raw" "length w \<le> frame_size"
    using fields(1) pl(1) raw(1) by (simp_all add: header_size_def frame_size_def MTU_def MAX_SIZE_def)
  have q: "verifica_quadrante pos raw s" using fields(4) by (simp add: verifica_quadrante_eq)
  define b where "b = (allocate (pool (nics s ! n) ! i))\<lparr>b_size := length w,
    b_frame := poke 0 (take (length w) raw) (b_frame (pool (nics s ! n) ! i))\<rparr>"
  define s1 where "s1 = s\<lparr>nics := (nics s)[n := (nics s ! n)\<lparr>pool := (pool (nics s ! n))[i := b]\<rparr>]\<rparr>"
  have fb: "take (length w) (b_frame b) = w" using raw by (simp add: b_def poke_def)
  note bf = wire_frame_fields [OF w fb assms(6,7)]
  have "ntohs (frame_type (b_frame b)) = PROTO" using bf(2) by (simp add: ntohs_def)
  note acc = nic_handle_accepted [OF ok n len q i nobs, folded b_def, folded s1_def, OF this]
  obtain m where m: "received_message (b_frame b) (fresh s) = Inr m" "message_ok m"
      "m_size m = length payload" "msg_bytes m = payload" "m_src m = mac"
      "origin m = my_quadrant pos s AND 0x3"
    by (rule received_from_wire [OF w fb assms(6,7) acc(5) pl(1)])
  let ?u = "deliver (next_ptr s) k (s1\<lparr>heap := (heap s)(next_ptr s \<mapsto> m), next_ptr := next_ptr s + 1\<rparr>)"
  have "comm_update n i c s1 = Inr ?u"
    using comm_update_delivers [of n i s1 m c "[k]"] m(1,3) pl(2) subs acc(4)
    by (simp add: s1_def)
  moreover have "dispatch_ports (the_frame n i s1) = [port dst]"
    using p(1) bf(4) acc(4) by (simp add: dispatch_ports_def Let_def)
  moreover have "receivers (p_observers s1) (port dst) = [c]" using p(2) by (simp add: s1_def)
  ultimately have "proto_update n i s1 = Inr (proto_free n i ?u)"
    by (simp add: proto_update_eq notify_ports_def proto_notify_def notify_eq)
  with acc(1) have h: "nic_handle pos n raw (length w) s = Inr (proto_free n i ?u)" by simp
  obtain t where "nic_handle pos n raw (length w) s = Inr t" and t: "node_ok t"
    by (rule nic_handle_ok [OF ok n len, of pos])
  with h have "node_ok (proto_free n i ?u)" by simp
  with h that m show ?thesis
    by (simp add: proto_free_def deliver_def s1_def split: option.splits)
qed

text \<open>What a broadcast of a communicator puts on the wire of a process with one NIC.\<close>

lemma comm_send_wire:
  assumes "node_ok A" and "p_nics A = [n]" and "free_slots (pool (nics A ! n)) \<noteq> {}"
    and "message_ok msg" and "0 < m_size msg"
    and "w = wire_frame (n_address (nics A ! n)) (c_address (comms A ! c))
        \<lparr>paddr = BROADCAST, port = port (c_address (comms A ! c))\<rparr> (my_quadrant pos A) (msg_bytes msg)"
  shows "\<exists>A'. comm_send pos c msg A = Inr (True, A') \<and> on_wire A' = on_wire A @ [(n, w)]"
    and "length (n_address (nics A ! n)) = 6" and "length w \<le> frame_size"
    and "length (msg_bytes msg) \<le> MAX_SIZE" and "msg_bytes msg \<noteq> []"
proof -
  let ?a = "c_address (comms A ! c)" and ?mac = "n_address (nics A ! n)"
  let ?dst = "\<lparr>paddr = BROADCAST, port = port ?a\<rparr>"
  have msg: "m_size msg \<le> length (m_data msg)" "m_size msg \<le> PROTOCOL_MTU" "m_size msg \<le> MAX_SIZE"
    using assms(4) by (simp_all add: message_ok_def MAX_SIZE_def PROTOCOL_MTU_def MTU_def header_size_def)
  have n: "\<forall>m\<in>set [n]. m < length (nics A)" using assms(1,2) by (simp add: node_ok_def wired_def)
  show mac: "length ?mac = 6" using node_ok_nic [OF assms(1)] n by (simp add: nic_ok_def)
  have bc: "length (paddr ?dst) = 6" by (simp add: BROADCAST_def)
  from send_nics_spec [OF assms(1) n bc msg(1,2), of pos ?a]
  obtain A' where "send_nics pos ?a ?dst (m_data msg) (m_size msg) [n] A = Inr A'"
      "on_wire A' = on_wire A @ frames_out A [n] ?a ?dst (my_quadrant pos A) (msg_bytes msg)"
    by (auto simp: msg_bytes_def)
  then show "\<exists>A'. comm_send pos c msg A = Inr (True, A') \<and> on_wire A' = on_wire A @ [(n, w)]"
    using assms(2,3,5) by (simp add: comm_send_def proto_send_def Let_def frames_out_def assms(6))
  have pl: "length (msg_bytes msg) = m_size msg" using msg(1) by (simp add: msg_bytes_def)
  have "length w = 14 + header_size + m_size msg"
    using wire_frame_fields(1) [OF assms(6), of w] mac bc pl by simp
  then show "length w \<le> frame_size" using msg(3) by (simp add: header_size_def frame_size_def MTU_def MAX_SIZE_def)
  show "length (msg_bytes msg) \<le> MAX_SIZE" "msg_bytes msg \<noteq> []" using pl msg(3) assms(5) by auto
qed

text \<open>
  C1: a non-empty message sent by \<open>Communicator::send\<close> on one process and carried to a NIC
  of another process in the same quadrant is returned by \<open>Endpoint::receive\<close> there with the
  same bytes, the sender's MAC address and the sender's quadrant, and leaves no message object
  behind.
\<close>

theorem message_arrives:
  assumes "node_ok A" and "p_nics A = [n]" and "free_slots (pool (nics A ! n)) \<noteq> {}"
    and "c < length (comms A)" and "port (c_address (comms A ! c)) = p" and "p \<noteq> 0"
    and "message_ok msg" and "0 < m_size msg"
    and "node_ok B" and "nb < length (nics B)" and "n_observers (nics B ! nb) = [(PROTO, ())]"
    and "free_slots (pool (nics B ! nb)) \<noteq> {}" and "my_quadrant posB B = my_quadrant posA A"
    and "receivers (p_observers B) p = [cb]"
    and "receivers (c_subscribers (comms B ! cb)) (port (c_address (comms B ! cb))) = [k]"
    and "k < length (consumers B)" and "queue (consumers B ! k) = []"
    and "length memory = frame_size"
  shows "\<exists>A' w B' got B''.
    comm_send posA c msg A = Inr (True, A') \<and> on_wire A' = on_wire A @ [(n, w)] \<and>
    nic_handle posB nb (poke 0 w memory) (length w) B = Inr B' \<and>
    endpoint_receive k out B' = Inr (True, got, B'') \<and>
    msg_bytes got = msg_bytes msg \<and> m_src got = n_address (nics A ! n) \<and>
    origin got = my_quadrant posA A AND 0x3 \<and> heap B'' = heap B"
proof -
  let ?a = "c_address (comms A ! c)" and ?dst = "\<lparr>paddr = BROADCAST, port = p\<rparr>"
  let ?mac = "n_address (nics A ! n)"
  define w where "w = wire_frame ?mac ?a ?dst (my_quadrant posB B) (msg_bytes msg)"
  have w: "w = wire_frame ?mac ?a \<lparr>paddr = BROADCAST, port = port ?a\<rparr> (my_quadrant posA A) (msg_bytes msg)"
    using assms(5,13) by (simp add: w_def)
  note sent = comm_send_wire [OF assms(1-3,7,8) w]
  from sent(1) obtain A' where A': "comm_send posA c msg A = Inr (True, A')" "on_wire A' = on_wire A @ [(n, w)]" by blast
  have bc: "length (paddr ?dst) = 6" by (simp add: BROADCAST_def)
  have raw: "length (poke 0 w memory) = frame_size" "take (length w) (poke 0 w memory) = w"
    using sent(3) assms(18) by (simp_all add: poke_def)
  obtain B' m where B': "nic_handle posB nb (poke 0 w memory) (length w) B = Inr B'" "node_ok B'"
      "heap B' = (heap B)(next_ptr B \<mapsto> m)"
      "consumers B' = (consumers B)[k := co_update (next_ptr B) (consumers B ! k)]"
      "msg_bytes m = msg_bytes msg" "m_size m = length (msg_bytes msg)" "m_src m = ?mac"
      "origin m = my_quadrant posB B AND 0x3"
    using handle_delivers [OF assms(9-12) w_def sent(2) bc sent(4,5) raw, of cb k] assms(6,14,15) by auto
  have fresh: "heap B (next_ptr B) = None"
    using assms(9) by (auto simp: node_ok_def heap_ok_def)
  have "co_ok (consumers B ! k)" using assms(9,16) by (simp add: node_ok_def heap_ok_def)
  then have "co_updated_for (consumers B' ! k) =
      Inr (Some (next_ptr B), (consumers B' ! k)\<lparr>sem := 0, queue := []\<rparr>)"
    using B'(4) assms(16,17) by (simp add: co_updated_for_ok)
  then have "endpoint_receive k out B' = Inr (True, m,
      (B'\<lparr>consumers := (consumers B')[k := (consumers B' ! k)\<lparr>sem := 0, queue := []\<rparr>]\<rparr>)\<lparr>heap := heap B\<rparr>)"
    using B'(3,6) fresh sent(5) by (simp add: endpoint_receive_def Let_def delete_msg_def fun_upd_idem)
  then show ?thesis using A' B' assms(13) by auto
qed

lemma boot_receivers:
  "receivers (p_observers (boot a p)) p = [0]"
  "receivers (c_subscribers (comms (boot a p) ! 0)) (port (c_address (comms (boot a p) ! 0))) = [0]"
  by (simp_all add: boot_fields)

theorem message_arrives_witness:
  "\<exists>A' w B' got B''.
    comm_send 2 0 (text_message [1, 2, 3]) (boot some_mac 9) = Inr (True, A') \<and>
    on_wire A' = on_wire (boot some_mac 9) @ [(0, w)] \<and>
    nic_handle 2 0 (poke 0 w (replicate frame_size 0)) (length w) (boot (replicate 6 1) 9) = Inr B' \<and>
    endpoint_receive 0 (text_message []) B' = Inr (True, got, B'') \<and>
    msg_bytes got = msg_bytes (text_message [1, 2, 3]) \<and>
    m_src got = n_address (nics (boot some_mac 9) ! 0) \<and>
    origin got = my_quadrant 2 (boot some_mac 9) AND 0x3 \<and> heap B'' = heap (boot (replicate 6 1) 9)"
  by (rule message_arrives [where p = 9 and cb = 0])
    (simp_all add: boot_ok some_mac_def boot_receivers text_message_ok MAX_SIZE_def,
     simp_all add: boot_fields text_message_def co_new_def free_slots_zero_pool my_quadrant_def
       get_quadrant_def lessThan_empty_iff MAX_SIZE_def)

end
