(* ===== verification/Stack_Lifetimes.thy ===== *)
theory Stack_Lifetimes
  imports Stack_Delivery
begin

text \<open>
  How long the stack's objects live. Buffers: when a received buffer goes back to the pool.
  Messages: every operation of a process keeps the invariant \<open>node_ok\<close> and never touches a
  deleted message, as long as a communicator has at most one subscriber; two subscribers break it.
  Frames of other quadrants leave no trace.
\<close>

section \<open>Frames of another quadrant\<close>

text \<open>
  A message sent in one quadrant and carried to a process in another changes nothing there: no
  buffer is taken, no message is created, no observer runs.
\<close>

theorem other_quadrant_ignored:
  assumes "node_ok A" and "p_nics A = [n]" and "free_slots (pool (nics A ! n)) \<noteq> {}"
    and "c < length (comms A)" and "message_ok msg" and "my_quadrant posB B \<noteq> my_quadrant posA A"
  shows "\<exists>A' w. comm_send posA c msg A = Inr (0 < m_size msg, A') \<and>
    on_wire A' = on_wire A @ [(n, w)] \<and>
    nic_handle posB nb (poke 0 w memory) (length w) B = Inr B"
proof -
  let ?a = "c_address (comms A ! c)"
  let ?dst = "\<lparr>paddr = BROADCAST, port = port ?a\<rparr>"
  let ?mac = "n_address (nics A ! n)"
  define w where "w = wire_frame ?mac ?a ?dst (my_quadrant posA A) (msg_bytes msg)"
  have msg: "m_size msg \<le> length (m_data msg)" "m_size msg \<le> PROTOCOL_MTU"
    using assms(5) by (simp_all add: message_ok_def MAX_SIZE_def PROTOCOL_MTU_def MTU_def header_size_def)
  have n: "n < length (nics A)" using assms(1,2) by (simp add: node_ok_def wired_def)
  have mac: "length ?mac = 6" using node_ok_nic [OF assms(1) n] by (simp add: nic_ok_def)
  have bc: "length (paddr ?dst) = 6" by (simp add: BROADCAST_def)
  have "\<forall>m\<in>set [n]. m < length (nics A)" using n by simp
  from send_nics_spec [OF assms(1) this bc msg, of posA ?a]
  obtain A' where "send_nics posA ?a ?dst (m_data msg) (m_size msg) [n] A = Inr A'"
      "on_wire A' = on_wire A @ frames_out A [n] ?a ?dst (my_quadrant posA A) (msg_bytes msg)"
    by (auto simp: msg_bytes_def)
  then have sent: "comm_send posA c msg A = Inr (0 < m_size msg, A')"
      "on_wire A' = on_wire A @ [(n, w)]"
    using assms(2,3) by (simp_all add: comm_send_def proto_send_def Let_def frames_out_def w_def)
  have "take (length w) (poke 0 w memory) = w" by (simp add: poke_def)
  from wire_frame_fields(4) [OF w_def this mac bc]
  have "\<not> verifica_quadrante posB (poke 0 w memory) B"
    using assms(6) by (simp add: verifica_quadrante_eq)
  then show ?thesis using sent by (auto simp: nic_handle_def)
qed

theorem other_quadrant_ignored_witness:
  "\<exists>A' w. comm_send 2 0 (text_message [1, 2, 3]) (boot some_mac 9) =
      Inr (0 < m_size (text_message [1, 2, 3]), A') \<and>
    on_wire A' = on_wire (boot some_mac 9) @ [(0, w)] \<and>
    nic_handle 1 0 (poke 0 w []) (length w) (boot some_mac 9) = Inr (boot some_mac 9)"
  by (rule other_quadrant_ignored)
    (simp_all add: boot_ok some_mac_def text_message_ok MAX_SIZE_def,
     simp_all add: boot_fields free_slots_zero_pool my_quadrant_def get_quadrant_def
       lessThan_empty_iff)

section \<open>Received buffers\<close>

lemma free_slots_taken:
  "i < length bs \<Longrightarrow> \<not> is_free b \<Longrightarrow> free_slots (bs[i := b]) = free_slots bs - {i}"
  by (auto simp: free_slots_def nth_list_update split: if_splits)

lemma free_slots_back:
  "i < length bs \<Longrightarrow> is_free (bs ! i) \<Longrightarrow> free_slots (pool_free i (bs[i := b])) = free_slots bs"
  by (auto simp: free_slots_def pool_free_def nth_list_update split: if_splits)

lemma received_buffer_step:
  assumes "node_ok s" and "n < length (nics s)" and "len \<le> length raw" and "14 \<le> len"
    and "len \<le> frame_size" and "verifica_quadrante pos raw s" and "frame_type raw = PROTO"
    and "first_index is_free (pool (nics s ! n)) = Some i"
    and "n_observers (nics s ! n) = [(PROTO, ())]"
  shows "\<exists>t. nic_handle pos n raw len s = Inr t \<and>
    free_slots (pool (nics t ! n)) =
      (if b_owner (pool (nics s ! n) ! i) = None then free_slots (pool (nics s ! n)) - {i}
       else free_slots (pool (nics s ! n))) \<and>
    map b_owner (pool (nics t ! n)) = map b_owner (pool (nics s ! n)) \<and>
    n_observers (nics t ! n) = [(PROTO, ())] \<and> p_quadrant t = p_quadrant s \<and>
    length (nics t) = length (nics s) \<and> node_ok t \<and> same_layout s t \<and>
    map n_address (nics t) = map n_address (nics s)"
proof -
  define b where "b = (allocate (pool (nics s ! n) ! i))\<lparr>b_size := len,
    b_frame := poke 0 (take len raw) (b_frame (pool (nics s ! n) ! i))\<rparr>"
  define s1 where "s1 = s\<lparr>nics := (nics s)[n := (nics s ! n)\<lparr>pool := (pool (nics s ! n))[i := b]\<rparr>]\<rparr>"
  have "frame_type (b_frame b) = frame_type raw"
    using assms(3,4) by (simp add: b_def frame_type_def peek_poke_within peek_take)
  then have "ntohs (frame_type (b_frame b)) = PROTO" using assms(7) by (simp add: ntohs_def)
  note acc = nic_handle_accepted [OF assms(1-3,5,6,8,9), folded b_def, folded s1_def, OF this]
  have i: "i < length (pool (nics s ! n))" and free: "is_free (pool (nics s ! n) ! i)"
    using assms(8) by (simp_all add: first_index_Some)
  have n1: "n < length (nics s1)" using assms(2) by (simp add: s1_def)
  obtain t where t: "proto_update n i s1 = Inr t" "node_ok t" "same_layout s1 t"
      "nics t = nics (proto_free n i s1)"
    by (rule proto_update_ok [OF acc(2) n1 acc(3)])
  have own: "b_owner (pool (nics s1 ! n) ! i) = b_owner (pool (nics s ! n) ! i)"
    using i assms(2) by (simp add: s1_def b_def allocate_def)
  have nf: "\<not> is_free b" by (simp add: b_def is_free_def allocate_def)
  have "free_slots (pool (nics t ! n)) =
      (if b_owner (pool (nics s ! n) ! i) = None then free_slots (pool (nics s ! n)) - {i}
       else free_slots (pool (nics s ! n)))"
    using t(4) own i assms(2) free_slots_taken [OF i nf] free_slots_back [OF i free, of b]
    by (auto simp: proto_free_def s1_def split: option.splits)
  moreover have "map b_owner (pool (nics t ! n)) = map b_owner (pool (nics s ! n))"
    using t(4) i assms(2)
    by (auto simp: proto_free_def s1_def b_def allocate_def release_def pool_free_def
        list_eq_iff_nth_eq nth_list_update split: option.splits)
  moreover have "n_observers (nics t ! n) = [(PROTO, ())]"
    using t(4) assms(2,9) by (auto simp: proto_free_def s1_def split: option.splits)
  moreover have "p_quadrant t = p_quadrant s" and "length (nics t) = length (nics s)"
    using t(3) by (simp_all add: same_layout_def s1_def)
  moreover have "same_layout s t" using t(3) by (simp add: same_layout_def s1_def)
  moreover have "map n_address (nics t) = map n_address (nics s)"
    using t(4) assms(2) by (auto simp: proto_free_def s1_def list_eq_iff_nth_eq nth_list_update split: option.splits)
  ultimately show ?thesis using acc(1) t by auto
qed

text \<open>
  After an accepted frame has been processed, its buffer is back in the pool exactly when the
  slot had an owner, that is, when it was used for sending before; a slot that never was stays
  taken.
\<close>

theorem received_buffer_fate:
  assumes "node_ok s" and "n < length (nics s)" and "len \<le> length raw" and "14 \<le> len"
    and "len \<le> frame_size" and "verifica_quadrante pos raw s" and "frame_type raw = PROTO"
    and "first_index is_free (pool (nics s ! n)) = Some i"
    and "n_observers (nics s ! n) = [(PROTO, ())]"
  shows "\<exists>t. nic_handle pos n raw len s = Inr t \<and>
    free_slots (pool (nics t ! n)) =
      (if b_owner (pool (nics s ! n) ! i) = None then free_slots (pool (nics s ! n)) - {i}
       else free_slots (pool (nics s ! n)))"
  using received_buffer_step [OF assms] by blast

text \<open>A PTP frame as another process puts it on the wire.\<close>

definition ptp_wire :: "byte \<Rightarrow> byte list" where
  "ptp_wire q = wire_frame some_mac \<lparr>paddr = some_mac, port = 9\<rparr> \<lparr>paddr = BROADCAST, port = 0\<rparr> q
     (enc_ptp \<lparr>message_type = 0, timestamp = 0, seq = 0\<rparr>)"

lemma ptp_wire_fields:
  "length (ptp_wire q) = 34" "frame_type (ptp_wire q) = PROTO"
  "src_quadrant (pkt_header (ptp_wire q)) = q"
  using wire_frame_fields [OF ptp_wire_def, of q "ptp_wire q"] ptp_codec.enc_length
  by (simp_all add: some_mac_def BROADCAST_def header_size_def sizeof_ptp_def)

theorem received_buffer_fate_witness:
  "\<exists>t. nic_handle 2 0 (ptp_wire 2) 34 (boot some_mac 9) = Inr t \<and>
     free_slots (pool (nics t ! 0)) = {1..<128}"
proof -
  have "\<exists>t. nic_handle 2 0 (ptp_wire 2) 34 (boot some_mac 9) = Inr t \<and>
    free_slots (pool (nics t ! 0)) =
      (if b_owner (pool (nics (boot some_mac 9) ! 0) ! 0) = None
       then free_slots (pool (nics (boot some_mac 9) ! 0)) - {0}
       else free_slots (pool (nics (boot some_mac 9) ! 0)))"
    by (rule received_buffer_fate)
      (simp_all add: boot_ok some_mac_def ptp_wire_fields verifica_quadrante_eq frame_size_def MTU_def,
       simp_all add: boot_fields my_quadrant_def get_quadrant_def first_free_zero_pool)
  moreover have "{..<128} - {0} = {1..<128::nat}" by auto
  ultimately show ?thesis
    by (auto simp: boot_fields free_slots_zero_pool zero_pool_nth BUFFER_COUNT_def zero_buffer_def)
qed

fun handle_all :: "byte \<Rightarrow> nat \<Rightarrow> (frame \<times> nat) list \<Rightarrow> node \<Rightarrow> runtime_error + node" where
  "handle_all pos n [] s = Inr s"
| "handle_all pos n ((raw, len) # fs) s =
     and_then (nic_handle pos n raw len s) (handle_all pos n fs)"

definition frame_ok :: "byte \<Rightarrow> frame \<times> nat \<Rightarrow> bool" where
  "frame_ok q = (\<lambda>(raw, len). 14 \<le> len \<and> len \<le> length raw \<and> len \<le> frame_size \<and>
     frame_type raw = PROTO \<and> src_quadrant (pkt_header raw) = q)"

lemma no_owner_taken:
  assumes "node_ok s" and "n < length (nics s)" and "set (map b_owner (pool (nics s ! n))) \<subseteq> {None}"
    and "n_observers (nics s ! n) = [(PROTO, ())]" and "frame_ok (my_quadrant pos s) (raw, len)"
  shows "\<exists>t. nic_handle pos n raw len s = Inr t \<and> node_ok t \<and>
    card (free_slots (pool (nics t ! n))) = card (free_slots (pool (nics s ! n))) - 1 \<and>
    map b_owner (pool (nics t ! n)) = map b_owner (pool (nics s ! n)) \<and>
    n_observers (nics t ! n) = [(PROTO, ())] \<and> p_quadrant t = p_quadrant s \<and>
    length (nics t) = length (nics s)"
proof (cases "first_index is_free (pool (nics s ! n))")
  case None
  then have "free_slots (pool (nics s ! n)) = {}" by (auto simp: free_slots_def first_index_None)
  moreover have "nic_handle pos n raw len s = Inr s" using None by (simp add: nic_handle_def)
  ultimately show ?thesis using assms by simp
next
  case (Some i)
  then have i: "i < length (pool (nics s ! n))" and fr: "i \<in> free_slots (pool (nics s ! n))"
    by (simp_all add: first_index_Some free_slots_def)
  have "b_owner (pool (nics s ! n) ! i) \<in> set (map b_owner (pool (nics s ! n)))" using i by simp
  then have ow: "b_owner (pool (nics s ! n) ! i) = None" using assms(3) by blast
  have "verifica_quadrante pos raw s" and "len \<le> length raw" "14 \<le> len" "len \<le> frame_size"
    "frame_type raw = PROTO"
    using assms(5) by (simp_all add: verifica_quadrante_eq frame_ok_def)
  from received_buffer_step [OF assms(1,2) this(2-4,1,5) Some assms(4)] ow fr
  show ?thesis by (auto simp: card_Diff_singleton)
qed

lemma handle_all_no_owner:
  assumes "node_ok s" and "n < length (nics s)" and "set (map b_owner (pool (nics s ! n))) \<subseteq> {None}"
    and "n_observers (nics s ! n) = [(PROTO, ())]" and "\<forall>fr\<in>set frames. frame_ok (my_quadrant pos s) fr"
  shows "\<exists>t. handle_all pos n frames s = Inr t \<and>
    card (free_slots (pool (nics t ! n))) = card (free_slots (pool (nics s ! n))) - length frames"
  using assms
proof (induction frames arbitrary: s)
  case Nil
  then show ?case by simp
next
  case (Cons fr frames)
  obtain raw len where fr: "fr = (raw, len)" by (cases fr)
  with Cons.prems(5) have "frame_ok (my_quadrant pos s) (raw, len)" by simp
  from no_owner_taken [OF Cons.prems(1-4) this] obtain u where
    u: "nic_handle pos n raw len s = Inr u" "node_ok u" "length (nics u) = length (nics s)"
      "card (free_slots (pool (nics u ! n))) = card (free_slots (pool (nics s ! n))) - 1"
      "map b_owner (pool (nics u ! n)) = map b_owner (pool (nics s ! n))"
      "n_observers (nics u ! n) = [(PROTO, ())]" "p_quadrant u = p_quadrant s" by auto
  have "my_quadrant pos u = my_quadrant pos s" by (rule my_quadrant_cong [OF u(7)])
  then have "\<exists>t. handle_all pos n frames u = Inr t \<and>
    card (free_slots (pool (nics t ! n))) = card (free_slots (pool (nics u ! n))) - length frames"
    using Cons.prems(2,3,5) by (intro Cons.IH) (simp_all only: u list.set_intros ball_simps, auto)
  then show ?case using u(1,4) fr by auto
qed

text \<open>
  C32 (finding): the constructor of a buffer leaves its owner unset and only \<open>alloc\<close> sets it, so
  a process whose buffers hold null owners and which only receives loses one buffer per accepted
  frame; after as many frames as it had free buffers it drops every further frame.
\<close>

theorem receive_only_goes_deaf:
  assumes "node_ok s" and "n < length (nics s)"
    and "set (map b_owner (pool (nics s ! n))) \<subseteq> {None}"
    and "n_observers (nics s ! n) = [(PROTO, ())]"
    and "\<forall>fr\<in>set frames. frame_ok (my_quadrant pos s) fr"
    and "card (free_slots (pool (nics s ! n))) \<le> length frames"
  shows "\<exists>t. handle_all pos n frames s = Inr t \<and>
    (\<forall>pos' raw len. nic_handle pos' n raw len t = Inr t)"
proof -
  obtain t where t: "handle_all pos n frames s = Inr t"
      "card (free_slots (pool (nics t ! n))) = 0"
    using handle_all_no_owner [OF assms(1-5)] assms(6) by auto
  then have "free_slots (pool (nics t ! n)) = {}" by simp
  then have "first_index is_free (pool (nics t ! n)) = None"
    by (auto simp: first_index_None free_slots_def in_set_conv_nth)
  then have "nic_handle pos' n raw len t = Inr t" for pos' raw len by (simp add: nic_handle_def)
  with t(1) show ?thesis by blast
qed

lemma zero_pool_owners: "set (map b_owner zero_pool) \<subseteq> {None}"
  by (auto simp: zero_pool_def zero_buffer_def new_buffer_def)

theorem receive_only_goes_deaf_witness:
  "\<exists>t. handle_all 2 0 (replicate 128 (ptp_wire 2, 34)) (boot some_mac 9) = Inr t \<and>
    (\<forall>pos' raw len. nic_handle pos' 0 raw len t = Inr t)"
  by (rule receive_only_goes_deaf)
    (simp_all add: boot_ok some_mac_def frame_ok_def ptp_wire_fields frame_size_def MTU_def
       boot_fields my_quadrant_def get_quadrant_def free_slots_zero_pool
       zero_pool_owners [simplified])

section \<open>Two subscribers on one communicator\<close>

text \<open>
  \<open>update\<close> hands one message pointer to every subscriber ("a posse vai pro
  observador que consumir"); with two endpoints on one communicator the first \<open>receive\<close>
  deletes the message and the second uses and deletes it again.
\<close>

theorem two_subscribers_double_delete:
  assumes "received_message (the_frame n i s) (fresh s) = Inr m" and "m_size m \<noteq> 0"
    and "receivers (c_subscribers (comms s ! c)) (port (c_address (comms s ! c))) = [k1, k2]"
    and "k1 \<noteq> k2" and "k1 < length (consumers s)" and "k2 < length (consumers s)"
    and "consumers s ! k1 = co_new p" and "consumers s ! k2 = co_new p"
  shows "\<exists>t u. comm_update n i c s = Inr t \<and> endpoint_receive k1 out t = Inr (True, m, u) \<and>
    endpoint_receive k2 out u = Inl Use_After_Free"
proof -
  let ?p = "next_ptr s"
  let ?s1 = "s\<lparr>heap := (heap s)(?p \<mapsto> m), next_ptr := ?p + 1\<rparr>"
  let ?t = "deliver ?p k2 (deliver ?p k1 ?s1)"
  have t: "comm_update n i c s = Inr ?t"
    using comm_update_delivers [OF assms(1,2,3)] by simp
  have k: "consumers ?t ! k1 = co_update ?p (co_new p)" "consumers ?t ! k2 = co_update ?p (co_new p)"
    "heap ?t ?p = Some m" "k2 < length (consumers ?t)"
    using assms(4-8) by (simp_all add: deliver_def)
  have take: "co_updated_for (co_update ?p (co_new p)) = Inr (Some ?p, co_new p)"
    by (simp add: co_updated_for_ok) (simp add: co_update_def co_new_def list_insert_def sem_v_def)
  let ?u = "(?t\<lparr>consumers := (consumers ?t)[k1 := co_new p]\<rparr>)\<lparr>heap := (heap ?t)(?p := None)\<rparr>"
  have "endpoint_receive k1 out ?t = Inr (True, m, ?u)"
    using k(1,3) take assms(2) by (simp add: endpoint_receive_def Let_def delete_msg_def)
  moreover have "consumers ?u ! k2 = co_update ?p (co_new p)" using k(2) assms(4) by simp
  then have "endpoint_receive k2 out ?u = Inl Use_After_Free"
    using take by (simp add: endpoint_receive_def Let_def)
  ultimately show ?thesis using t by blast
qed

text \<open>A process whose first buffer holds a frame.\<close>

definition holding :: "frame \<Rightarrow> node \<Rightarrow> node" where
  "holding f s = s\<lparr>nics := [(nics s ! 0)\<lparr>pool := [zero_buffer\<lparr>b_frame := f\<rparr>]\<rparr>]\<rparr>"

theorem two_subscribers_double_delete_witness:
  "\<exists>s t u m. s = holding (poke 0 (ptp_wire 2) (replicate frame_size 0)) (endpoint_create 0 (boot some_mac 9)) \<and>
    comm_update 0 0 0 s = Inr t \<and> endpoint_receive 1 (text_message []) t = Inr (True, m, u) \<and>
    endpoint_receive 0 (text_message []) u = Inl Use_After_Free"
proof -
  let ?f = "poke 0 (ptp_wire 2) (replicate frame_size 0)"
  let ?s = "holding ?f (endpoint_create 0 (boot some_mac 9))"
  have "length ?f = frame_size" "take (length (ptp_wire 2)) ?f = ptp_wire 2"
    by (simp_all add: poke_def ptp_wire_fields frame_size_def MTU_def)
  then obtain m where m: "received_message ?f (fresh ?s) = Inr m" "m_size m = 13"
    using received_from_wire [OF ptp_wire_def, of 2 ?f "fresh ?s"] ptp_codec.enc_length
    by (auto simp: some_mac_def BROADCAST_def sizeof_ptp_def MAX_SIZE_def)
  have "the_frame 0 0 ?s = ?f" by (simp add: holding_def the_frame_def)
  with m have "received_message (the_frame 0 0 ?s) (fresh ?s) = Inr m" by simp
  moreover have "receivers (c_subscribers (comms ?s ! 0)) (port (c_address (comms ?s ! 0))) = [1, 0]"
    and "consumers ?s = [co_new 9, co_new 9]"
    by (simp_all add: holding_def endpoint_create_def comm_subscribe_def boot_fields attach_def)
  ultimately have "\<exists>t u. comm_update 0 0 0 ?s = Inr t \<and>
      endpoint_receive 1 (text_message []) t = Inr (True, m, u) \<and>
      endpoint_receive 0 (text_message []) u = Inl Use_After_Free"
    using m(2) by (intro two_subscribers_double_delete) simp_all
  then show ?thesis by blast
qed

section \<open>Every operation\<close>

text \<open>The operations a process performs on its stack, in any order.\<close>

datatype stack_op =
    Handle byte nat frame nat        \<comment> \<open>an engine delivers a frame to a NIC\<close>
  | Receive nat message              \<comment> \<open>a consumer calls \<open>Endpoint::receive\<close>\<close>
  | Send byte nat message
  | Send_To byte nat message mac
  | Share byte nat message u16
  | New_Communicator address
  | Drop_Communicator nat
  | New_Endpoint nat
  | Drop_Endpoint nat nat
  | Attach_Nic nat
  | Detach_Nic nat
  | Set_Quadrant byte

fun stack_exec :: "stack_op \<Rightarrow> node \<Rightarrow> runtime_error + node" where
  "stack_exec (Handle pos n raw len) s = nic_handle pos n raw len s"
| "stack_exec (Receive k out) s = and_then (endpoint_receive k out s) (\<lambda>(b, m, t). Inr t)"
| "stack_exec (Send pos c m) s = and_then (comm_send pos c m s) (\<lambda>(b, t). Inr t)"
| "stack_exec (Send_To pos c m dst) s = and_then (comm_send_to pos c m dst s) (\<lambda>(b, t). Inr t)"
| "stack_exec (Share pos c m p) s = and_then (comm_share pos c m p s) (\<lambda>(b, t). Inr t)"
| "stack_exec (New_Communicator a) s = Inr (comm_create a s)"
| "stack_exec (Drop_Communicator c) s = Inr (comm_destroy c s)"
| "stack_exec (New_Endpoint c) s = Inr (endpoint_create c s)"
| "stack_exec (Drop_Endpoint c k) s = endpoint_destroy c k s"
| "stack_exec (Attach_Nic n) s = Inr (proto_attach_nic n s)"
| "stack_exec (Detach_Nic n) s = Inr (proto_detach_nic n s)"
| "stack_exec (Set_Quadrant q) s = Inr (set_quadrant q s)"

text \<open>
  What the program takes care of: indices denote objects, the engine's frame is inside its memory,
  messages have at most 1024 bytes, and an endpoint is created on a communicator without one.
\<close>

fun op_ok :: "stack_op \<Rightarrow> node \<Rightarrow> bool" where
  "op_ok (Handle pos n raw len) s \<longleftrightarrow> n < length (nics s) \<and> len \<le> length raw \<and> len \<le> frame_size"
| "op_ok (Receive k out) s \<longleftrightarrow> k < length (consumers s)"
| "op_ok (Send pos c m) s \<longleftrightarrow> c < length (comms s) \<and> message_ok m"
| "op_ok (Send_To pos c m dst) s \<longleftrightarrow> c < length (comms s) \<and> message_ok m \<and> length dst = 6"
| "op_ok (Share pos c m p) s \<longleftrightarrow> c < length (comms s) \<and> message_ok m"
| "op_ok (New_Communicator a) s \<longleftrightarrow> length (paddr a) = 6"
| "op_ok (Drop_Communicator c) s \<longleftrightarrow> c < length (comms s)"
| "op_ok (New_Endpoint c) s \<longleftrightarrow> c < length (comms s) \<and> c_subscribers (comms s ! c) = []"
| "op_ok (Drop_Endpoint c k) s \<longleftrightarrow> c < length (comms s) \<and> k < length (consumers s)"
| "op_ok (Attach_Nic n) s \<longleftrightarrow> n < length (nics s)"
| "op_ok (Detach_Nic n) s \<longleftrightarrow> n < length (nics s)"
| "op_ok (Set_Quadrant q) s \<longleftrightarrow> True"

fun stack_run :: "stack_op list \<Rightarrow> node \<Rightarrow> runtime_error + node" where
  "stack_run [] s = Inr s"
| "stack_run (oper # ops) s = and_then (stack_exec oper s) (stack_run ops)"

fun run_ok :: "stack_op list \<Rightarrow> node \<Rightarrow> bool" where
  "run_ok [] s \<longleftrightarrow> True"
| "run_ok (oper # ops) s \<longleftrightarrow> op_ok oper s \<and>
     (case stack_exec oper s of Inl e \<Rightarrow> True | Inr t \<Rightarrow> run_ok ops t)"

lemma send_ok:
  assumes "node_ok s" and "length (paddr dst) = 6" and "message_ok m"
  obtains t where "proto_send pos src dst (m_data m) (m_size m) s = Inr (int (m_size m), t)"
    and "node_ok t"
proof -
  have "\<forall>n\<in>set (p_nics s). n < length (nics s)" using assms(1) by (simp add: node_ok_def wired_def)
  moreover have "m_size m \<le> length (m_data m)" "m_size m \<le> PROTOCOL_MTU"
    using assms(3) by (simp_all add: message_ok_def MAX_SIZE_def PROTOCOL_MTU_def MTU_def header_size_def)
  ultimately show ?thesis
    using send_nics_spec [OF assms(1) _ assms(2), of "p_nics s" "m_size m" "m_data m" pos src] that
    by (auto simp: proto_send_def)
qed

lemma comm_address_ok:
  "node_ok s \<Longrightarrow> c < length (comms s) \<Longrightarrow> length (paddr (c_address (comms s ! c))) = 6"
  by (simp add: node_ok_def wired_def comm_ok_def)

lemma BROADCAST_length [simp]: "length BROADCAST = 6"
  by (simp add: BROADCAST_def)

lemma heap_ok_pop:
  assumes "heap_ok s" and "k < length (consumers s)" and "queue (consumers s ! k) = p # q"
  shows "heap_ok (s\<lparr>consumers := (consumers s)[k := (consumers s ! k)\<lparr>sem := length q, queue := q\<rparr>],
      heap := (heap s)(p := None)\<rparr>)" (is "heap_ok ?t")
    and "heap s p \<noteq> None"
proof -
  let ?ob = "(consumers s ! k)\<lparr>sem := length q, queue := q\<rparr>"
  have "mset (queued ?t) + mset (p # q) = mset (queued s) + mset q"
    using mset_queued_update [OF assms(2), of ?ob] assms(3) by (simp add: queued_def)
  then have "mset (p # queued ?t) = mset (queued s)" by simp
  from mset_distinct_set [OF this]
  have d: "distinct (p # queued ?t)" and st: "set (p # queued ?t) = set (queued s)"
    using assms(1) by (simp_all add: heap_ok_def)
  have "p \<in> set (queued s)" using st by auto
  then show "heap s p \<noteq> None" using assms(1) by (auto simp: heap_ok_def)
  have "\<forall>ob\<in>set (consumers ?t). co_ok ob"
    using assms(1) set_update_subset_insert [of "consumers s" k ?ob]
    by (auto simp: heap_ok_def co_ok_def)
  moreover have "set (queued ?t) = dom (heap ?t)"
    using d st assms(1) by (auto simp: heap_ok_def)
  ultimately show "heap_ok ?t" using d assms(1) by (auto simp: heap_ok_def ran_def)
qed

lemma receive_ok:
  assumes "node_ok s" and "k < length (consumers s)"
  obtains b m t where "endpoint_receive k out s = Inr (b, m, t)" and "node_ok t"
proof -
  have "co_ok (consumers s ! k)" using assms by (simp add: node_ok_def heap_ok_def)
  note take = co_updated_for_ok [OF this]
  show ?thesis
  proof (cases "queue (consumers s ! k)")
    case Nil
    then have "endpoint_receive k out s = Inr (False, set_size 0 out, s)"
      using take by (simp add: endpoint_receive_def Let_def)
    then show ?thesis using that assms(1) by blast
  next
    case (Cons p q)
    let ?s1 = "s\<lparr>consumers := (consumers s)[k := (consumers s ! k)\<lparr>sem := length q, queue := q\<rparr>]\<rparr>"
    have h: "heap_ok s" "wired s" using assms(1) by (simp_all add: node_ok_def)
    obtain m where m: "heap s p = Some m" using heap_ok_pop(2) [OF h(1) assms(2) Cons] by auto
    have "endpoint_receive k out s = Inr (0 < m_size m, m, ?s1\<lparr>heap := (heap s)(p := None)\<rparr>)"
      using take Cons m by (simp add: endpoint_receive_def Let_def delete_msg_def)
    moreover have "node_ok (?s1\<lparr>heap := (heap s)(p := None)\<rparr>)"
      using heap_ok_pop(1) [OF h(1) assms(2) Cons] h(2) by (simp add: node_ok_def wired_def)
    ultimately show ?thesis using that by blast
  qed
qed

lemma delete_all_eq:
  "distinct ps \<Longrightarrow> set ps \<subseteq> dom (heap s) \<Longrightarrow>
     delete_all ps s = Inr (s\<lparr>heap := (heap s) |` (- set ps)\<rparr>)"
proof (induction ps arbitrary: s)
  case Nil
  then show ?case by simp
next
  case (Cons p ps)
  then have "delete_all (p # ps) s = delete_all ps (s\<lparr>heap := (heap s)(p := None)\<rparr>)"
    by (auto simp: delete_msg_def)
  also have "\<dots> = Inr (s\<lparr>heap := (heap s)(p := None), heap := heap (s\<lparr>heap := (heap s)(p := None)\<rparr>) |` (- set ps)\<rparr>)"
    by (rule Cons.IH) (use Cons.prems in auto)
  also have "\<dots> = Inr (s\<lparr>heap := ((heap s)(p := None)) |` (- set ps)\<rparr>)" by simp
  also have "((heap s)(p := None)) |` (- set ps) = heap s |` (- set (p # ps))"
    by (rule ext) (simp add: restrict_map_def)
  finally show ?case .
qed

lemma heap_ok_sub:
  assumes "heap_ok s" and "distinct (queued t)" and "set (queued t) = dom (heap t)"
    and "heap t \<subseteq>\<^sub>m heap s" and "next_ptr t = next_ptr s" and "\<forall>ob\<in>set (consumers t). co_ok ob"
  shows "heap_ok t"
proof -
  have sub: "heap s p = Some m" if "heap t p = Some m" for p m
    using assms(4) that by (auto simp: map_le_def dom_def)
  have "ran (heap t) \<subseteq> ran (heap s)" using sub by (force simp: ran_def)
  have "\<forall>p\<in>dom (heap t). p < next_ptr t" using sub assms(1,5) by (auto simp: heap_ok_def)
  moreover have "\<forall>m\<in>ran (heap t). message_ok m \<and> 0 < m_size m"
    using \<open>ran (heap t) \<subseteq> ran (heap s)\<close> assms(1) by (auto simp: heap_ok_def)
  ultimately show ?thesis using assms by (simp add: heap_ok_def)
qed

lemma heap_ok_clear:
  assumes "heap_ok s" and "k < length (consumers s)"
  defines "q \<equiv> queue (consumers s ! k)"
  shows "heap_ok (s\<lparr>heap := heap s |` (- set q),
      consumers := (consumers s)[k := (consumers s ! k)\<lparr>sem := 0, queue := []\<rparr>]\<rparr>)" (is "heap_ok ?t")
    and "distinct q" and "set q \<subseteq> dom (heap s)"
proof -
  let ?ob = "(consumers s ! k)\<lparr>sem := 0, queue := []\<rparr>"
  have "mset (q @ queued ?t) = mset (queued s)"
    using mset_queued_update [OF assms(2), of ?ob] by (simp add: queued_def q_def ac_simps)
  from mset_distinct_set [OF this]
  have d: "distinct (q @ queued ?t)" and st: "set (q @ queued ?t) = set (queued s)"
    using assms(1) by (simp_all add: heap_ok_def)
  then show "distinct q" and "set q \<subseteq> dom (heap s)" using assms(1) by (auto simp: heap_ok_def)
  have hd: "dom (heap ?t) = dom (heap s) - set q" by (auto simp: restrict_map_def split: if_splits)
  have sq: "set (queued ?t) = set (queued s) - set q" using d st by auto
  show "heap_ok ?t"
  proof (rule heap_ok_sub [OF assms(1)])
    show "distinct (queued ?t)" using d by (simp only: distinct_append)
    show "set (queued ?t) = dom (heap ?t)"
      using sq hd assms(1) by (simp only: heap_ok_def)
    show "heap ?t \<subseteq>\<^sub>m heap s" by (auto simp: map_le_def restrict_map_def split: if_splits)
    show "\<forall>ob\<in>set (consumers ?t). co_ok ob"
      using assms(1) set_update_subset_insert [of "consumers s" k ?ob]
      by (auto simp: heap_ok_def co_ok_def)
  qed simp
qed

lemma wired_comm_update:
  "wired s \<Longrightarrow> comm_ok (length (consumers s)) cm \<Longrightarrow> wired (s\<lparr>comms := (comms s)[c := cm]\<rparr>)"
  using set_update_subset_insert [of "comms s" c cm] by (auto simp: wired_def)

lemma comm_ok_mono: "comm_ok n cm \<Longrightarrow> n \<le> m \<Longrightarrow> comm_ok m cm"
  by (auto simp: comm_ok_def)

lemma unsubscribe_ok:
  assumes "node_ok s" and "c < length (comms s)"
  shows "node_ok (comm_unsubscribe c k s)"
proof -
  have "comm_ok (length (consumers s)) (comms s ! c)"
    using assms by (simp add: node_ok_def wired_def)
  then have "comm_ok (length (consumers s)) ((comms s ! c)\<lparr>c_subscribers :=
      detach k (port (c_address (comms s ! c))) (c_subscribers (comms s ! c))\<rparr>)"
    using le_trans [OF length_filter_le] by (auto simp: comm_ok_def detach_def ol_remove_def)
  with assms(1) show ?thesis
    using wired_comm_update by (simp add: node_ok_def comm_unsubscribe_def heap_ok_def)
qed

lemma endpoint_destroy_ok:
  assumes "node_ok s" and "c < length (comms s)" and "k < length (consumers s)"
  obtains t where "endpoint_destroy c k s = Inr t" and "node_ok t"
proof -
  let ?s1 = "comm_unsubscribe c k s"
  have ok: "heap_ok ?s1" "wired ?s1" using unsubscribe_ok [OF assms(1,2)] by (simp_all add: node_ok_def)
  have k: "k < length (consumers ?s1)" using assms(3) by (simp add: comm_unsubscribe_def)
  note cl = heap_ok_clear [OF ok(1) k]
  show ?thesis
    using that [OF _ _] cl(1) ok(2) delete_all_eq [OF cl(2,3)]
    by (simp add: endpoint_destroy_def Let_def co_drain_all node_ok_def wired_def)
qed

lemma endpoint_create_ok:
  assumes "node_ok s" and "c < length (comms s)" and "c_subscribers (comms s ! c) = []"
  shows "node_ok (endpoint_create c s)"
proof -
  let ?s = "s\<lparr>consumers := consumers s @ [co_new (port (c_address (comms s ! c)))]\<rparr>"
  let ?p = "port (c_address (comms s ! c))"
  have "wired ?s" using assms(1) comm_ok_mono by (fastforce simp: node_ok_def wired_def)
  moreover have "comm_ok (length (consumers ?s)) ((comms s ! c)\<lparr>c_subscribers := [(?p, length (consumers s))]\<rparr>)"
    using comm_address_ok [OF assms(1,2)] by (simp add: comm_ok_def)
  ultimately have "wired (?s\<lparr>comms := (comms ?s)[c := (comms s ! c)\<lparr>c_subscribers := [(?p, length (consumers s))]\<rparr>]\<rparr>)"
    by (rule wired_comm_update)
  moreover have "endpoint_create c s =
      ?s\<lparr>comms := (comms ?s)[c := (comms s ! c)\<lparr>c_subscribers := [(?p, length (consumers s))]\<rparr>]\<rparr>"
    by (simp add: endpoint_create_def comm_subscribe_def assms(3) attach_def)
  moreover have "queue (co_new ?p :: nat conc_obs) = []" by (simp add: co_new_def)
  ultimately show ?thesis
    using assms(1) by (simp add: node_ok_def heap_ok_def queued_def)
qed

lemma comm_create_ok:
  assumes "node_ok s" and "length (paddr a) = 6"
  shows "node_ok (comm_create a s)"
  using assms
  by (auto simp: comm_create_def proto_attach_def node_ok_def heap_ok_def wired_def comm_ok_def
      attach_def queued_def intro: less_SucI)

lemma nic_observers_ok:
  assumes "node_ok s" and "n < length (nics s)"
  shows "node_ok (s\<lparr>nics := (nics s)[n := (nics s ! n)\<lparr>n_observers := os\<rparr>]\<rparr>)"
  using node_ok_nic_update [OF assms(1)] node_ok_nic [OF assms] by (simp add: nic_ok_def)

lemma attach_nic_ok: "node_ok s \<Longrightarrow> n < length (nics s) \<Longrightarrow> node_ok (proto_attach_nic n s)"
  using nic_observers_ok [of s n] by (auto simp: proto_attach_nic_def node_ok_def heap_ok_def wired_def queued_def)

lemma detach_nic_ok: "node_ok s \<Longrightarrow> n < length (nics s) \<Longrightarrow> node_ok (proto_detach_nic n s)"
  using nic_observers_ok [of s n] by (auto simp: proto_detach_nic_def node_ok_def heap_ok_def wired_def queued_def)

lemma comm_destroy_ok: "node_ok s \<Longrightarrow> node_ok (comm_destroy c s)"
  by (auto simp: comm_destroy_def proto_detach_def detach_def ol_remove_def node_ok_def heap_ok_def
      wired_def queued_def)

lemma set_quadrant_ok: "node_ok s \<Longrightarrow> node_ok (set_quadrant q s)"
  by (simp add: set_quadrant_def node_ok_def heap_ok_def wired_def queued_def)

lemma stack_exec_ok:
  assumes "node_ok s" and "op_ok oper s"
  obtains t where "stack_exec oper s = Inr t" and "node_ok t"
proof (cases oper)
  case (Handle pos n raw len)
  with assms that show ?thesis by (auto elim: nic_handle_ok [of s n len raw pos])
next
  case (Receive k out)
  obtain b m t where "endpoint_receive k out s = Inr (b, m, t)" "node_ok t"
    using assms Receive by (auto intro: receive_ok)
  with Receive that show ?thesis by simp
next
  case (Send pos c m)
  obtain t where "proto_send pos (c_address (comms s ! c)) \<lparr>paddr = BROADCAST,
      port = port (c_address (comms s ! c))\<rparr> (m_data m) (m_size m) s = Inr (int (m_size m), t)" "node_ok t"
    by (rule send_ok [OF assms(1)]) (use assms(2) Send in auto)
  with Send that show ?thesis by (simp add: comm_send_def Let_def)
next
  case (Send_To pos c m dst)
  obtain t where "proto_send pos (c_address (comms s ! c)) \<lparr>paddr = dst, port = 0\<rparr> (m_data m) (m_size m) s
      = Inr (int (m_size m), t)" "node_ok t"
    by (rule send_ok [OF assms(1)]) (use assms(2) Send_To in auto)
  with Send_To that show ?thesis by (simp add: comm_send_to_def)
next
  case (Share pos c m p)
  have "length (paddr (c_address (comms s ! c))) = 6"
    using comm_address_ok [OF assms(1)] assms(2) Share by simp
  then obtain t where "proto_send pos (c_address (comms s ! c))
      \<lparr>paddr = paddr (c_address (comms s ! c)), port = p\<rparr> (m_data m) (m_size m) s
      = Inr (int (m_size m), t)" "node_ok t"
    using send_ok [OF assms(1), of "\<lparr>paddr = paddr (c_address (comms s ! c)), port = p\<rparr>" m pos
        "c_address (comms s ! c)"] assms(2) Share by auto
  with Share that show ?thesis by (simp add: comm_share_def Let_def)
next
  case (Drop_Endpoint c k)
  with assms that show ?thesis by (auto elim: endpoint_destroy_ok [of s c k])
qed (use assms that in \<open>simp_all add: comm_create_ok comm_destroy_ok endpoint_create_ok attach_nic_ok
    detach_nic_ok set_quadrant_ok\<close>)

lemma stack_run_ok: "node_ok s \<Longrightarrow> run_ok ops s \<Longrightarrow> \<exists>t. stack_run ops s = Inr t \<and> node_ok t"
proof (induction ops arbitrary: s)
  case Nil
  then show ?case by simp
next
  case (Cons oper ops)
  obtain t where "stack_exec oper s = Inr t" and "node_ok t"
    using stack_exec_ok [OF Cons.prems(1)] Cons.prems(2) by auto
  with Cons.IH [of t] Cons.prems(2) show ?case by simp
qed

text \<open>
  C2: any sequence of frame arrivals, receives, sends, creations and destructions, with at most one
  subscriber per communicator, runs without an out-of-bounds copy or an access to a deleted message,
  and at its end every live message waits in exactly one consumer's queue: none is leaked and none
  is shared.
\<close>

theorem stack_memory_safe:
  assumes "node_ok s" and "run_ok ops s"
  shows "\<exists>t. stack_run ops s = Inr t \<and> set (queued t) = dom (heap t) \<and> distinct (queued t) \<and>
    (\<forall>ob\<in>set (consumers t). sem ob = length (queue ob))"
  using stack_run_ok [OF assms] by (auto simp: node_ok_def heap_ok_def co_ok_def)

theorem stack_memory_safe_witness:
  "\<exists>t. stack_run [Set_Quadrant 6, Handle 0 0 (poke 0 (ptp_wire 2) (replicate frame_size 0)) 34]
      (boot some_mac 9) = Inr t \<and> set (queued t) = dom (heap t) \<and> distinct (queued t) \<and>
    (\<forall>ob\<in>set (consumers t). sem ob = length (queue ob))"
  by (rule stack_memory_safe)
    (simp_all add: boot_ok some_mac_def ptp_wire_fields frame_size_def MTU_def set_quadrant_def
      boot_fields split: sum.splits)

lemma deliver_all_observers:
  "p_observers (fold (deliver p) ks s) = p_observers s"
  by (induction ks arbitrary: s) (simp_all add: deliver_def)

lemma comm_update_observers:
  assumes "comm_update n i c s = Inr u"
  shows "p_observers u = p_observers s"
  using assms
  by (auto simp: comm_update_def Let_def notify_eq and_then_Inr_iff delete_msg_def
      deliver_all_observers split: if_splits)

text \<open>
  \<open>Protocol::update\<close> calls the observers of the destination port; for port 0 those of the
  time client when the payload is a PTP frame of type 1 or 3, of the RSU and then the gateway when
  it is another PTP frame, and of the gateway otherwise; then the buffer is freed.
\<close>

theorem dispatch_by_port:
  "proto_update n i s =
     (let f = the_frame n i s; h = pkt_header f; is_ptp = unat (ntohs (payload_size h)) = 13;
          t = message_type (dec_ptp (pkt_data f));
          ports = if ntohs (dst_port h) \<noteq> 0 then [ntohs (dst_port h)]
            else if is_ptp \<and> t \<in> {1, 3} then [1004] else if is_ptp then [9999, 1000] else [1000]
      in and_then (fold (\<lambda>c r. and_then r (comm_update n i c))
             (concat (map (receivers (p_observers s)) ports)) (Inr s))
           (\<lambda>t. Inr (proto_free n i t)))"
proof -
  have ft: "fold (\<lambda>c r. and_then r (comm_update n i c)) cs (Inl e) = Inl e" for cs e
    by (induction cs) simp_all
  have po: "p_observers u = p_observers s"
    if "fold (\<lambda>c r. and_then r (comm_update n i c)) cs (Inr s) = Inr u" for cs u
    using that
  proof (induction cs arbitrary: u rule: rev_induct)
    case Nil
    then show ?case by simp
  next
    case (snoc c cs)
    then obtain v where v: "fold (\<lambda>c r. and_then r (comm_update n i c)) cs (Inr s) = Inr v"
      "comm_update n i c v = Inr u" by (auto simp: and_then_Inr_iff)
    then show ?case using snoc.IH comm_update_observers by metis
  qed
  show ?thesis
    by (cases "fold (\<lambda>c r. and_then r (comm_update n i c)) (receivers (p_observers s) 9999) (Inr s)")
      (auto simp: proto_update_def Let_def sizeof_ptp_def proto_notify_def notify_eq ft po
        PORT_GATEWAY_def PORT_RSU_def PORT_TIME_CLIENT_def)
qed

end
