(* ===== verification/Mailbox.thy ===== *)
theory Mailbox
  imports Stack_Lifetimes
begin

text \<open>
  What a process's stack promises its consumers, and that it keeps the promise. The abstract state
  is one box of messages per consumer and, per port, the consumers that are to get what arrives for
  it; a frame that reaches the protocol puts one message into their boxes, \<open>receive\<close> takes the
  oldest one. The stack, with its buffers, header bytes, observer lists and heap of messages,
  refines that.
\<close>

section \<open>The abstract mailboxes\<close>

record mail =
  quadrant_of :: byte
  routes :: "u16 \<Rightarrow> nat list"
  boxes :: "message list list"

definition mail_post :: "message \<Rightarrow> nat list \<Rightarrow> mail \<Rightarrow> mail" where
  "mail_post m ks b = b\<lparr>boxes := fold (\<lambda>k bs. bs[k := bs ! k @ [m]]) ks (boxes b)\<rparr>"

text \<open>A frame in the protocol's hands; \<open>junk\<close> is the memory a new message is made of.\<close>

definition mail_frame :: "message \<Rightarrow> frame \<Rightarrow> mail \<Rightarrow> mail" where
  "mail_frame junk f b =
     (case received_message f junk of Inl e \<Rightarrow> b
      | Inr m \<Rightarrow> if m_size m = 0 then b else mail_post m (concat (map (routes b) (dispatch_ports f))) b)"

definition mail_take :: "nat \<Rightarrow> mail \<Rightarrow> mail" where
  "mail_take k b = b\<lparr>boxes := (boxes b)[k := tl (boxes b ! k)]\<rparr>"

datatype mail_op = Frames message "frame list" | Take nat | Quiet | Quadrant byte

fun mail_exec :: "mail_op \<Rightarrow> mail \<Rightarrow> mail" where
  "mail_exec (Frames junk fs) b = fold (mail_frame junk) fs b"
| "mail_exec (Take k) b = mail_take k b"
| "mail_exec Quiet b = b"
| "mail_exec (Quadrant q) b = b\<lparr>quadrant_of := q AND 0x3\<rparr>"

section \<open>The abstraction\<close>

definition routing :: "node \<Rightarrow> u16 \<Rightarrow> nat list" where
  "routing s p = concat (map (\<lambda>c. receivers (c_subscribers (comms s ! c)) (port (c_address (comms s ! c))))
     (receivers (p_observers s) p))"

definition contents :: "node \<Rightarrow> nat conc_obs \<Rightarrow> message list" where
  "contents s ob = map (the \<circ> heap s) (queue ob)"

definition mail_of :: "node \<Rightarrow> mail" where
  "mail_of s = \<lparr>quadrant_of = p_quadrant s, routes = routing s, boxes = map (contents s) (consumers s)\<rparr>"

text \<open>
  The frames that reach \<open>Protocol::update\<close> when the engine delivers one: none when the quadrant
  is another or no buffer is free, otherwise the buffer's new contents, once per attachment of the
  frame's type.
\<close>

definition arrival :: "byte \<Rightarrow> nat \<Rightarrow> frame \<Rightarrow> nat \<Rightarrow> node \<Rightarrow> frame list" where
  "arrival pos n raw len s =
     (case first_index is_free (pool (nics s ! n)) of None \<Rightarrow> []
      | Some i \<Rightarrow>
          let f = poke 0 (take len raw) (b_frame (pool (nics s ! n) ! i)) in
          if verifica_quadrante pos raw s
          then map (\<lambda>u. f) (receivers (n_observers (nics s ! n)) (ntohs (frame_type f))) else [])"

fun mail_label :: "stack_op \<Rightarrow> node \<Rightarrow> mail_op" where
  "mail_label (Handle pos n raw len) s = Frames (fresh s) (arrival pos n raw len s)"
| "mail_label (Receive k out) s = Take k"
| "mail_label (Set_Quadrant q) s = Quadrant q"
| "mail_label _ s = Quiet"

text \<open>The operations of a process whose objects stay as they were built.\<close>

fun steady :: "stack_op \<Rightarrow> bool" where
  "steady (Handle pos n raw len) = True"
| "steady (Receive k out) = True"
| "steady (Send pos c m) = True"
| "steady (Send_To pos c m dst) = True"
| "steady (Share pos c m p) = True"
| "steady (Set_Quadrant q) = True"
| "steady _ = False"

section \<open>One message\<close>

lemma mail_post_simps [simp]:
  "mail_post m [] b = b" "routes (mail_post m ks b) = routes b" "quadrant_of (mail_post m ks b) = quadrant_of b"
  by (simp_all add: mail_post_def)

lemma mail_post_append: "mail_post m (ks @ ls) b = mail_post m ls (mail_post m ks b)"
  by (simp add: mail_post_def)

lemma mail_of_cong:
  "p_quadrant t = p_quadrant s \<Longrightarrow> comms t = comms s \<Longrightarrow> p_observers t = p_observers s \<Longrightarrow>
     consumers t = consumers s \<Longrightarrow> heap t = heap s \<Longrightarrow> mail_of t = mail_of s"
  by (simp add: mail_of_def routing_def contents_def fun_eq_iff)

lemma contents_new:
  assumes "heap_ok s" and "ob \<in> set (consumers s)"
  shows "map (the \<circ> (heap s)(next_ptr s \<mapsto> m)) (queue ob) = contents s ob"
proof -
  have "next_ptr s \<notin> set (queue ob)"
    using assms by (auto simp: heap_ok_def queued_def)
  then show ?thesis by (auto simp: contents_def)
qed

lemma comm_update_mail:
  assumes "node_ok s" and "c < length (comms s)" and "length (the_frame n i s) = frame_size"
    and "received_message (the_frame n i s) (fresh s) = Inr m" and "comm_update n i c s = Inr t"
  shows "mail_of t = (if m_size m = 0 then mail_of s else
      mail_post m (receivers (c_subscribers (comms s ! c)) (port (c_address (comms s ! c)))) (mail_of s))
    \<and> fresh t = fresh s"
proof -
  let ?p = "next_ptr s" and ?cm = "comms s ! c"
  let ?s1 = "s\<lparr>heap := (heap s)(?p \<mapsto> m), next_ptr := ?p + 1\<rparr>"
  let ?ks = "receivers (c_subscribers ?cm) (port (c_address ?cm))"
  have ok: "comm_ok (length (consumers s)) ?cm" and hp: "heap_ok s"
    using assms(1,2) by (simp_all add: node_ok_def wired_def)
  have "heap s ?p = None" using hp by (auto simp: heap_ok_def)
  then have del: "delete_msg ?p ?s1 = Inr (s\<lparr>next_ptr := ?p + 1\<rparr>)"
    by (simp add: delete_msg_def fun_upd_idem)
  show ?thesis
  proof (cases "m_size m = 0 \<or> ?ks = []")
    case True
    then have "t = s\<lparr>next_ptr := ?p + 1\<rparr>"
      using assms(4,5) del by (auto simp: comm_update_def Let_def notify_eq split: if_splits)
    moreover have "mail_of (s\<lparr>next_ptr := ?p + 1\<rparr>) = mail_of s" by (rule mail_of_cong) simp_all
    ultimately show ?thesis using True by auto
  next
    case False
    then obtain k where k: "?ks = [k]" "k < length (consumers s)"
      using ok by (cases "c_subscribers ?cm") (auto simp: comm_ok_def split: if_splits)
    have t: "t = deliver ?p k ?s1"
      using assms(5) comm_update_delivers [OF assms(4) _ k(1)] False by simp
    have old: "contents t ob = contents s ob" if "ob \<in> set (consumers s)" for ob
      using contents_new [OF hp that, of m] by (simp add: t deliver_def contents_def)
    have "contents t (co_update ?p (consumers s ! k)) = contents s (consumers s ! k) @ [m]"
      using old [of "consumers s ! k"] k(2) by (simp add: t deliver_def contents_def)
    moreover have "map (contents t) (consumers s) = map (contents s) (consumers s)" using old by simp
    moreover have "consumers t = (consumers s)[k := co_update ?p (consumers s ! k)]"
      by (simp add: t deliver_def)
    ultimately have "map (contents t) (consumers t) =
        (map (contents s) (consumers s))[k := contents s (consumers s ! k) @ [m]]"
      by (simp only: map_update)
    then show ?thesis
      using k False by (simp add: t mail_of_def mail_post_def deliver_def routing_def fun_eq_iff)
  qed
qed

text \<open>The list of communicators a frame reaches, then the list of ports.\<close>

lemma fold_comm_update_mail:
  assumes "node_ok s" and "\<forall>c\<in>set cs. c < length (comms s)" and "n < length (nics s)"
    and "i < BUFFER_COUNT" and "received_message (the_frame n i s) (fresh s) = Inr m"
    and "fold (\<lambda>c r. and_then r (comm_update n i c)) cs (Inr s) = Inr t"
  shows "mail_of t = (if m_size m = 0 then mail_of s else mail_post m (concat (map (\<lambda>c.
      receivers (c_subscribers (comms s ! c)) (port (c_address (comms s ! c)))) cs)) (mail_of s))
    \<and> fresh t = fresh s"
  using assms
proof (induction cs arbitrary: s)
  case Nil
  then show ?case by simp
next
  case (Cons c cs)
  have c: "c < length (comms s)" using Cons.prems by simp
  note fr = node_ok_frame [OF Cons.prems(1,3,4)]
  from comm_update_ok [OF Cons.prems(1) c fr]
  obtain u where u: "comm_update n i c s = Inr u" "node_ok u" "nics u = nics s" "comms u = comms s"
    by metis
  have m: "mail_of u = (if m_size m = 0 then mail_of s else mail_post m
      (receivers (c_subscribers (comms s ! c)) (port (c_address (comms s ! c)))) (mail_of s))" "fresh u = fresh s"
    using comm_update_mail [OF Cons.prems(1) c fr Cons.prems(5) u(1)] by simp_all
  have "the_frame n i u = the_frame n i s" using u(3) by (simp add: the_frame_def)
  with Cons.IH [OF u(2)] Cons.prems u m show ?case by (auto simp: mail_post_append)
qed

lemma notify_ports_mail:
  assumes "node_ok s" and "n < length (nics s)" and "i < BUFFER_COUNT"
    and "received_message (the_frame n i s) (fresh s) = Inr m" and "notify_ports n i ps s = Inr t"
  shows "mail_of t = (if m_size m = 0 then mail_of s
      else mail_post m (concat (map (routing s) ps)) (mail_of s)) \<and> fresh t = fresh s"
  using assms
proof (induction ps arbitrary: s)
  case Nil
  then show ?case by (simp add: notify_ports_def)
next
  case (Cons p ps)
  obtain u where u: "proto_notify n i p s = Inr u" "node_ok u" "same_layout s u" "nics u = nics s"
    by (rule proto_notify_ok [OF Cons.prems(1-3)])
  have "\<forall>c\<in>set (receivers (p_observers s) p). c < length (comms s)"
    using Cons.prems(1) by (auto simp: node_ok_def wired_def dest: receivers_subset)
  from fold_comm_update_mail [OF Cons.prems(1) this Cons.prems(2-4)] u(1)
  have m: "mail_of u = (if m_size m = 0 then mail_of s else mail_post m (routing s p) (mail_of s))"
    "fresh u = fresh s" by (simp_all add: proto_notify_def notify_eq routing_def)
  have "routing u = routing s" using u(3) by (simp add: routing_def same_layout_def fun_eq_iff)
  moreover have "the_frame n i u = the_frame n i s" using u(4) by (simp add: the_frame_def)
  moreover have "notify_ports n i ps u = Inr t"
    using Cons.prems(5) u(1) by (simp add: notify_ports_def)
  ultimately show ?case
    using Cons.IH [OF u(2)] Cons.prems u m by (auto simp: mail_post_append)
qed

lemma proto_update_mail:
  assumes "node_ok s" and "n < length (nics s)" and "i < BUFFER_COUNT" and "proto_update n i s = Inr t"
  shows "mail_of t = mail_frame (fresh s) (the_frame n i s) (mail_of s)" and "fresh t = fresh s"
    and "the_frame n i t = the_frame n i s"
proof -
  have fr: "length (the_frame n i s) = frame_size" by (rule node_ok_frame [OF assms(1-3)])
  obtain m where m: "received_message (the_frame n i s) (fresh s) = Inr m"
    using received_message_ok [OF fr] by metis
  obtain u where u: "notify_ports n i (dispatch_ports (the_frame n i s)) s = Inr u" "nics u = nics s"
    using notify_ports_ok [OF assms(1-3)] by blast
  with assms(4) have t: "t = proto_free n i u" by (simp add: proto_update_eq)
  from notify_ports_mail [OF assms(1-3) m u(1)]
  have mu: "mail_of u = mail_frame (fresh s) (the_frame n i s) (mail_of s)" "fresh u = fresh s"
    by (simp_all add: mail_frame_def m mail_of_def)
  have "mail_of t = mail_of u"
    unfolding t by (rule mail_of_cong) (simp_all add: proto_free_def split: option.splits)
  with mu show "mail_of t = mail_frame (fresh s) (the_frame n i s) (mail_of s)" by simp
  show "fresh t = fresh s" using mu(2) by (simp add: t proto_free_def split: option.splits)
  have "i < length (pool (nics s ! n))"
    using node_ok_nic [OF assms(1,2)] assms(3) by (simp add: nic_ok_def pool_ok_def)
  then show "the_frame n i t = the_frame n i s"
    using u(2) assms(2)
    by (simp add: t proto_free_def the_frame_def pool_free_def release_def split: option.splits)
qed

section \<open>Every operation\<close>

lemma fold_proto_update_mail:
  assumes "node_ok s" and "n < length (nics s)" and "i < BUFFER_COUNT"
    and "fold (\<lambda>u r. and_then r (proto_update n i)) us (Inr s) = Inr t"
  shows "mail_of t = fold (mail_frame (fresh s)) (map (\<lambda>u. the_frame n i s) us) (mail_of s)"
  using assms
proof (induction us arbitrary: s)
  case Nil
  then show ?case by simp
next
  case (Cons u us)
  obtain v where v: "proto_update n i s = Inr v" "node_ok v" "same_layout s v"
    by (rule proto_update_ok [OF Cons.prems(1-3)])
  have "n < length (nics v)" using v(3) Cons.prems(2) by (simp add: same_layout_def)
  from Cons.IH [OF v(2) this Cons.prems(3)] proto_update_mail [OF Cons.prems(1-3) v(1)]
  show ?case using Cons.prems(4) v(1) by simp
qed

lemma handle_mail:
  assumes "node_ok s" and "n < length (nics s)" and "len \<le> length raw" and "len \<le> frame_size"
    and "nic_handle pos n raw len s = Inr t"
  shows "mail_of t = fold (mail_frame (fresh s)) (arrival pos n raw len s) (mail_of s)"
proof (cases "first_index is_free (pool (nics s ! n))")
  case None
  with assms(5) show ?thesis by (auto simp: arrival_def nic_handle_def split: if_splits)
next
  case (Some i)
  let ?f = "poke 0 (take len raw) (b_frame (pool (nics s ! n) ! i))"
  let ?b = "(allocate (pool (nics s ! n) ! i))\<lparr>b_size := len, b_frame := ?f\<rparr>"
  let ?s1 = "s\<lparr>nics := (nics s)[n := (nics s ! n)\<lparr>pool := (pool (nics s ! n))[i := ?b]\<rparr>]\<rparr>"
  show ?thesis
  proof (cases "verifica_quadrante pos raw s")
    case False
    with assms(5) Some show ?thesis by (simp add: arrival_def nic_handle_def)
  next
    case True
    have nc: "nic_ok (nics s ! n)" by (rule node_ok_nic [OF assms(1,2)])
    have i: "i < length (pool (nics s ! n))" using Some by (simp add: first_index_Some)
    then have fr: "length (b_frame (pool (nics s ! n) ! i)) = frame_size" and i2: "i < BUFFER_COUNT"
      using nc by (simp_all add: nic_ok_def pool_ok_def)
    have "length (b_frame ?b) = frame_size" using fr assms(3,4) by simp
    then have "nic_ok ((nics s ! n)\<lparr>pool := (pool (nics s ! n))[i := ?b]\<rparr>)"
      using nc by (simp add: nic_ok_def pool_ok_update)
    from node_ok_nic_update [OF assms(1) this, of n] have ok: "node_ok ?s1" by simp
    have n1: "n < length (nics ?s1)" using assms(2) by simp
    have "fold (\<lambda>u r. and_then r (proto_update n i))
        (receivers (n_observers (nics s ! n)) (ntohs (frame_type ?f))) (Inr ?s1) = Inr t"
      using assms(5) True Some put_frame_ok [OF fr assms(3,4)]
      by (simp add: nic_handle_def Let_def notify_eq)
    from fold_proto_update_mail [OF ok n1 i2 this]
    have "mail_of t = fold (mail_frame (fresh s))
        (map (\<lambda>u. ?f) (receivers (n_observers (nics s ! n)) (ntohs (frame_type ?f)))) (mail_of ?s1)"
      using assms(2) i by (simp add: the_frame_def)
    moreover have "mail_of ?s1 = mail_of s" by (rule mail_of_cong) simp_all
    ultimately show ?thesis using True Some by (simp add: arrival_def Let_def)
  qed
qed

lemma receive_mail:
  assumes "node_ok s" and "k < length (consumers s)" and "endpoint_receive k out s = Inr (b, m, t)"
  shows "mail_of t = mail_take k (mail_of s)"
    and "(if b then [m] else []) @ boxes (mail_of t) ! k = boxes (mail_of s) ! k"
proof -
  have hp: "heap_ok s" using assms(1) by (simp add: node_ok_def)
  have "co_ok (consumers s ! k)" using assms(2) hp by (simp add: heap_ok_def)
  note take = co_updated_for_ok [OF this]
  have both: "mail_of t = mail_take k (mail_of s) \<and>
      (if b then [m] else []) @ boxes (mail_of t) ! k = boxes (mail_of s) ! k"
  proof (cases "queue (consumers s ! k)")
    case Nil
    with assms(3) take have "t = s" and "\<not> b" by (auto simp: endpoint_receive_def Let_def)
    moreover have "contents s (consumers s ! k) = []" using Nil by (simp add: contents_def)
    ultimately show ?thesis
      using assms(2) list_update_id [of "map (contents s) (consumers s)" k]
      by (simp add: mail_of_def mail_take_def)
  next
    case (Cons p q)
    let ?ob = "(consumers s ! k)\<lparr>sem := length q, queue := q\<rparr>"
    obtain m' where m': "heap s p = Some m'" using heap_ok_pop(2) [OF hp assms(2) Cons] by auto
    then have sz: "0 < m_size m'" using hp by (auto simp: heap_ok_def intro: ranI)
    have t: "t = s\<lparr>consumers := (consumers s)[k := ?ob], heap := (heap s)(p := None)\<rparr>" and r: "b" "m = m'"
      using assms(3) take Cons m' sz by (auto simp: endpoint_receive_def Let_def delete_msg_def)
    have "mset (queued t) + mset (p # q) = mset (queued s) + mset q"
      using mset_queued_update [OF assms(2), of ?ob] Cons by (simp add: t queued_def)
    then have "mset (p # queued t) = mset (queued s)" by simp
    from mset_distinct_set [OF this] have "p \<notin> set (queued t)"
      using hp by (simp add: heap_ok_def)
    then have "p \<notin> set (queue ob)" if "ob \<in> set (consumers t)" for ob
      using that by (auto simp: queued_def)
    then have "contents t ob = contents s ob" if "ob \<in> set (consumers t)" for ob
      using that by (auto simp: contents_def t)
    then have "map (contents t) (consumers t) = map (contents s) (consumers t)" by simp
    also have "\<dots> = (map (contents s) (consumers s))[k := contents s ?ob]"
      by (simp add: t map_update)
    finally have "boxes (mail_of t) = (boxes (mail_of s))[k := contents s ?ob]" by (simp add: mail_of_def)
    moreover have "boxes (mail_of s) ! k = m # contents s ?ob"
      using Cons assms(2) m' r by (simp add: mail_of_def contents_def)
    ultimately show ?thesis
      using r assms(2) by (simp add: mail_take_def) (simp add: mail_of_def t routing_def fun_eq_iff)
  qed
  show "mail_of t = mail_take k (mail_of s)" by (rule both [THEN conjunct1])
  show "(if b then [m] else []) @ boxes (mail_of t) ! k = boxes (mail_of s) ! k"
    by (rule both [THEN conjunct2])
qed

lemma send_mail:
  assumes "node_ok s" and "length (paddr dst) = 6" and "message_ok m"
    and "proto_send pos src dst (m_data m) (m_size m) s = Inr (r, t)"
  shows "mail_of t = mail_of s"
proof -
  have "\<forall>n\<in>set (p_nics s). n < length (nics s)" using assms(1) by (simp add: node_ok_def wired_def)
  moreover have "m_size m \<le> length (m_data m)" "m_size m \<le> PROTOCOL_MTU"
    using assms(3) by (simp_all add: message_ok_def MAX_SIZE_def PROTOCOL_MTU_def MTU_def header_size_def)
  ultimately obtain u where "send_nics pos src dst (m_data m) (m_size m) (p_nics s) s = Inr u"
      "same_layout s u" "same_but_nics s u"
    using send_nics_spec [OF assms(1) _ assms(2), of "p_nics s" "m_size m" "m_data m" pos src] by auto
  with assms(4) show ?thesis
    by (intro mail_of_cong) (auto simp: proto_send_def same_layout_def same_but_nics_def)
qed

lemma exec_mail:
  assumes "node_ok s" and "op_ok oper s" and "steady oper" and "stack_exec oper s = Inr t"
  shows "mail_of t = mail_exec (mail_label oper s) (mail_of s)"
proof (cases oper)
  case (Handle pos n raw len)
  with assms handle_mail [of s n len raw pos t] show ?thesis by simp
next
  case (Receive k out)
  with assms receive_mail(1) [of s k out] show ?thesis by (auto simp: and_then_Inr_iff)
next
  case (Send pos c m)
  with assms send_mail [OF assms(1), of "\<lparr>paddr = BROADCAST, port = port (c_address (comms s ! c))\<rparr>" m pos]
  show ?thesis by (auto simp: comm_send_def Let_def and_then_Inr_iff)
next
  case (Send_To pos c m dst)
  with assms send_mail [OF assms(1), of "\<lparr>paddr = dst, port = 0\<rparr>" m pos] show ?thesis
    by (auto simp: comm_send_to_def Let_def and_then_Inr_iff)
next
  case (Share pos c m p)
  with assms send_mail [OF assms(1), of "\<lparr>paddr = paddr (c_address (comms s ! c)), port = p\<rparr>" m pos]
    comm_address_ok [OF assms(1), of c]
  show ?thesis
    by (auto simp: comm_share_def Let_def and_then_Inr_iff)
next
  case (Set_Quadrant q)
  with assms show ?thesis
    by (auto simp: set_quadrant_def mail_of_def routing_def contents_def fun_eq_iff)
qed (use assms(3) in simp_all)

interpretation stack_mail: simulation stack_exec "\<lambda>x s. op_ok x s \<and> steady x" node_ok
    mail_label mail_exec mail_of
proof unfold_locales
  fix s oper
  assume a: "node_ok s" "op_ok oper s \<and> steady oper"
  then obtain t where "stack_exec oper s = Inr t" and "node_ok t" using stack_exec_ok by blast
  then show "\<exists>t. stack_exec oper s = Inr t \<and> node_ok t \<and> mail_of t = mail_exec (mail_label oper s) (mail_of s)"
    using exec_mail a by blast
qed

section \<open>What a consumer gets\<close>

text \<open>The messages consumer \<open>k\<close> took in a run, and the ones that were put into its box.\<close>

fun received_by :: "nat \<Rightarrow> stack_op list \<Rightarrow> node \<Rightarrow> message list" where
  "received_by k [] s = []"
| "received_by k (oper # ops) s =
     (case oper of
        Receive j out \<Rightarrow> (case endpoint_receive j out s of Inl e \<Rightarrow> []
          | Inr (b, m, t) \<Rightarrow> (if j = k \<and> b then [m] else []) @ received_by k ops t)
      | _ \<Rightarrow> (case stack_exec oper s of Inl e \<Rightarrow> [] | Inr t \<Rightarrow> received_by k ops t))"

fun posts :: "nat \<Rightarrow> mail_op \<Rightarrow> mail \<Rightarrow> message list" where
  "posts k (Frames junk fs) b = concat (map (\<lambda>f. case received_message f junk of Inl e \<Rightarrow> []
     | Inr m \<Rightarrow> if m_size m = 0 then []
         else replicate (count_list (concat (map (routes b) (dispatch_ports f))) k) m) fs)"
| "posts k _ b = []"

fun posted_to :: "nat \<Rightarrow> stack_op list \<Rightarrow> node \<Rightarrow> message list" where
  "posted_to k [] s = []"
| "posted_to k (oper # ops) s =
     posts k (mail_label oper s) (mail_of s) @
       (case stack_exec oper s of Inl e \<Rightarrow> [] | Inr t \<Rightarrow> posted_to k ops t)"

definition mailbox :: "nat \<Rightarrow> node \<Rightarrow> message list" where
  "mailbox k s = contents s (consumers s ! k)"

lemma mail_post_box:
  "length (boxes (mail_post m ks b)) = length (boxes b)"
  "k < length (boxes b) \<Longrightarrow> boxes (mail_post m ks b) ! k = boxes b ! k @ replicate (count_list ks k) m"
proof -
  have "length (fold (\<lambda>k bs. bs[k := bs ! k @ [m]]) ks bs) = length bs \<and>
      (k < length bs \<longrightarrow> fold (\<lambda>k bs. bs[k := bs ! k @ [m]]) ks bs ! k = bs ! k @ replicate (count_list ks k) m)"
    for bs :: "message list list"
    by (induction ks arbitrary: bs) (auto simp: nth_list_update)
  then show "length (boxes (mail_post m ks b)) = length (boxes b)"
    and "k < length (boxes b) \<Longrightarrow> boxes (mail_post m ks b) ! k = boxes b ! k @ replicate (count_list ks k) m"
    by (simp_all add: mail_post_def)
qed

lemma mail_frames_box:
  "k < length (boxes b) \<Longrightarrow>
     boxes (fold (mail_frame junk) fs b) ! k = boxes b ! k @ posts k (Frames junk fs) b"
proof (induction fs arbitrary: b)
  case Nil
  then show ?case by simp
next
  case (Cons f fs)
  have "routes (mail_frame junk f b) = routes b" "length (boxes (mail_frame junk f b)) = length (boxes b)"
    by (simp_all add: mail_frame_def mail_post_box split: sum.splits)
  then have r: "routes (mail_frame junk f b) = routes b" and l: "length (boxes (mail_frame junk f b)) = length (boxes b)"
    by simp_all
  have "posts k (Frames junk fs) (mail_frame junk f b) = posts k (Frames junk fs) b"
    unfolding posts.simps r by (rule refl)
  with Cons.IH [of "mail_frame junk f b"] Cons.prems l
  have "boxes (fold (mail_frame junk) (f # fs) b) ! k =
      boxes (mail_frame junk f b) ! k @ posts k (Frames junk fs) b" by (simp del: posts.simps)
  moreover have "boxes (mail_frame junk f b) ! k = boxes b ! k @ posts k (Frames junk [f]) b"
    using Cons.prems by (auto simp: mail_frame_def mail_post_box split: sum.splits)
  moreover have "posts k (Frames junk (f # fs)) b = posts k (Frames junk [f]) b @ posts k (Frames junk fs) b"
    by simp
  ultimately show ?case by (simp only: append_assoc)
qed

lemma box_mailbox: "k < length (consumers s) \<Longrightarrow> boxes (mail_of s) ! k = mailbox k s"
  by (simp add: mail_of_def mailbox_def)

lemma exec_boxes:
  assumes "node_ok s" and "op_ok oper s" and "steady oper" and "stack_exec oper s = Inr t"
  shows "length (consumers t) = length (consumers s)"
proof -
  have "length (boxes (fold (mail_frame junk) fs b)) = length (boxes b)" for junk fs b
    by (induction fs arbitrary: b) (simp_all add: mail_frame_def mail_post_box split: sum.splits)
  then have "length (boxes (mail_exec l b)) = length (boxes b)" for l b
    by (cases l) (simp_all add: mail_take_def)
  then show ?thesis
    using arg_cong [OF exec_mail [OF assms], of "\<lambda>b. length (boxes b)"] by (simp add: mail_of_def)
qed

lemma run_mailbox:
  "node_ok s \<Longrightarrow> run_ok ops s \<Longrightarrow> list_all steady ops \<Longrightarrow> k < length (consumers s) \<Longrightarrow>
     stack_run ops s = Inr t \<Longrightarrow> received_by k ops s @ mailbox k t = mailbox k s @ posted_to k ops s"
proof (induction ops arbitrary: s)
  case Nil
  then show ?case by simp
next
  case (Cons oper ops)
  then obtain u where u: "stack_exec oper s = Inr u" "stack_run ops u = Inr t"
    by (auto simp: and_then_Inr_iff)
  have ok: "op_ok oper s" "steady oper" "run_ok ops u" using Cons.prems u by auto
  have nu: "node_ok u" using stack_exec_ok [OF Cons.prems(1) ok(1)] u(1) by auto
  have ku: "k < length (consumers u)" using exec_boxes [OF Cons.prems(1) ok(1,2) u(1)] Cons.prems(4) by simp
  have ih: "received_by k ops u @ mailbox k t = mailbox k u @ posted_to k ops u"
    using Cons.IH [OF nu ok(3) _ ku u(2)] Cons.prems(3) by simp
  note bx = arg_cong [OF exec_mail [OF Cons.prems(1) ok(1,2) u(1)], of "\<lambda>b. boxes b ! k"]
  note rd = box_mailbox [OF ku] box_mailbox [OF Cons.prems(4)]
  show ?case
  proof (cases oper)
    case (Handle pos n raw len)
    have "k < length (boxes (mail_of s))" using Cons.prems(4) by (simp add: mail_of_def)
    from mail_frames_box [OF this] bx rd Handle
    have "mailbox k u = mailbox k s @ posts k (mail_label oper s) (mail_of s)" by simp
    then show ?thesis using Handle u ih by simp
  next
    case (Receive j out)
    then obtain b m where r: "endpoint_receive j out s = Inr (b, m, u)"
      using u(1) by (auto simp: and_then_Inr_iff)
    have "(if j = k \<and> b then [m] else []) @ mailbox k u = mailbox k s"
    proof (cases "j = k")
      case True
      then have "(if b then [m] else []) @ boxes (mail_of u) ! k = boxes (mail_of s) ! k"
        using receive_mail(2) [OF Cons.prems(1,4)] r by blast
      then show ?thesis using True rd by simp
    next
      case False
      then show ?thesis using bx rd Receive by (simp add: mail_take_def)
    qed
    then show ?thesis using Receive u r ih by simp
  qed (use bx rd u ih ok(2) in simp_all)
qed

text \<open>
  C6: the stack implements the abstract mailboxes: every run of frame arrivals, receives, sends and
  quadrant changes by a well-formed process succeeds, and ends in the state whose mailboxes the
  abstract operations produce, where a frame puts its message exactly into the boxes of the
  consumers routed for its ports.
\<close>

theorem stack_refines_mailboxes:
  assumes "node_ok s" and "run_allowed stack_exec (\<lambda>x s. op_ok x s \<and> steady x) ops s"
  shows "\<exists>t. run_all stack_exec ops s = Inr t \<and> node_ok t \<and>
    mail_of t = fold mail_exec (run_labels stack_exec mail_label ops s) (mail_of s)"
  using stack_mail.run_simulates [OF assms] .

theorem stack_refines_mailboxes_witness:
  "\<exists>t. run_all stack_exec [Receive 0 (text_message []), Handle 0 0 (replicate frame_size 0) 34]
       (boot some_mac 9) = Inr t \<and> node_ok t"
proof -
  let ?ops = "[Receive 0 (text_message []), Handle 0 0 (replicate frame_size 0) 34]"
  let ?s = "boot some_mac 9"
  have ok: "node_ok ?s" by (simp add: boot_ok some_mac_def)
  have "endpoint_receive 0 (text_message []) ?s = Inr (False, set_size 0 (text_message []), ?s)"
    by (simp add: endpoint_receive_def boot_fields co_updated_for_if co_new_def Let_def
        list_update_same_conv)
  then have "run_allowed stack_exec (\<lambda>x s. op_ok x s \<and> steady x) ?ops ?s"
    by (auto simp: boot_fields frame_size_def MTU_def split: sum.splits)
  from stack_refines_mailboxes [OF ok this] show ?thesis by blast
qed

text \<open>
  C20: what a consumer receives is exactly what is sent to it: over any run, the messages it has taken
  followed by those still waiting are those that waited at the start followed by the messages of the
  frames that reached its ports, in the order of arrival, none lost, doubled or invented.
\<close>

theorem consumer_fifo:
  assumes "node_ok s" and "run_ok ops s" and "list_all steady ops" and "k < length (consumers s)"
  shows "\<exists>t. stack_run ops s = Inr t \<and>
    received_by k ops s @ mailbox k t = mailbox k s @ posted_to k ops s"
  using stack_run_ok [OF assms(1,2)] run_mailbox [OF assms] by blast

theorem consumer_fifo_witness:
  "\<exists>t. stack_run [Set_Quadrant 6, Receive 0 (text_message [])] (boot some_mac 9) = Inr t \<and>
     received_by 0 [Set_Quadrant 6, Receive 0 (text_message [])] (boot some_mac 9) @ mailbox 0 t = []"
proof -
  let ?ops = "[Set_Quadrant 6, Receive 0 (text_message [])]"
  have "\<exists>t. stack_run ?ops (boot some_mac 9) = Inr t \<and>
      received_by 0 ?ops (boot some_mac 9) @ mailbox 0 t =
      mailbox 0 (boot some_mac 9) @ posted_to 0 ?ops (boot some_mac 9)"
    by (rule consumer_fifo)
      (auto simp: boot_ok some_mac_def set_quadrant_def boot_fields split: sum.splits)
  moreover have "posted_to 0 ?ops (boot some_mac 9) = []" by (auto split: sum.splits)
  moreover have "mailbox 0 (boot some_mac 9) = []"
    by (simp add: mailbox_def contents_def boot_fields co_new_def)
  ultimately show ?thesis by simp
qed

section \<open>Short frames\<close>

text \<open>
  C36 (finding): \<open>receive\<close> believes the size in the header and does not compare it with the
  frame's: when a frame of \<open>len\<close> bytes announces more payload than it has, the message is filled
  up with what the buffer held before, that is, with bytes of an earlier frame.
\<close>

theorem stale_bytes_delivered:
  assumes "length (b_frame old) = frame_size" and "len \<le> length raw" and "21 \<le> len" and "len \<le> frame_size"
    and "n = unat (ntohs (payload_size (pkt_header raw)))" and "len - 21 \<le> n" and "n \<le> MAX_SIZE"
  shows "\<exists>b m. put_frame raw len old = Inr b \<and> received_message (b_frame b) junk = Inr m \<and>
    msg_bytes m = drop 21 (take len raw) @ take (n - (len - 21)) (drop len (b_frame old))"
proof -
  let ?f = "poke 0 (take len raw) (b_frame old)"
  have b: "put_frame raw len old = Inr ((allocate old)\<lparr>b_size := len, b_frame := ?f\<rparr>)"
    by (rule put_frame_ok [OF assms(1,2,4)])
  have lf: "length ?f = frame_size" using assms(1,2,4) by simp
  have "peek 14 7 ?f = peek 14 7 raw"
    using assms(2,3) by (simp add: peek_poke_within peek_take)
  then have h: "pkt_header ?f = pkt_header raw" by (simp add: pkt_header_def header_size_def)
  obtain m where m: "received_message ?f junk = Inr m" "m_size m = n" "msg_bytes m = take n (pkt_data ?f)"
    using received_message_ok [OF lf, of junk] assms(5,7) h by (metis min.absorb2)
  have "pkt_data ?f = drop 21 (take len raw) @ drop len (b_frame old)"
    using assms(2,3) by (simp add: pkt_data_def header_size_def poke_def)
  then have "msg_bytes m = drop 21 (take len raw) @ take (n - (len - 21)) (drop len (b_frame old))"
    using m(3) assms(2,6) by simp
  with b m(1) show ?thesis by auto
qed

theorem stale_bytes_delivered_witness:
  "\<exists>b m. put_frame (replicate 18 0 @ [2, 0, 0]) 21 (zero_buffer\<lparr>b_frame := replicate frame_size 7\<rparr>) = Inr b \<and>
     received_message (b_frame b) (text_message []) = Inr m \<and> msg_bytes m = replicate 512 7"
proof -
  let ?raw = "replicate 18 0 @ [2, 0, 0] :: byte list" and ?old = "zero_buffer\<lparr>b_frame := replicate frame_size 7\<rparr>"
  have "unat (ntohs (payload_size (pkt_header ?raw))) = 512" by code_simp
  then have "\<exists>b m. put_frame ?raw 21 ?old = Inr b \<and> received_message (b_frame b) (text_message []) = Inr m \<and>
      msg_bytes m = drop 21 (take 21 ?raw) @ take (512 - (21 - 21)) (drop 21 (b_frame ?old))"
    by (intro stale_bytes_delivered) (simp_all add: frame_size_def MTU_def MAX_SIZE_def)
  then show ?thesis by (simp add: frame_size_def MTU_def)
qed

end
