(* ===== verification/Letters.thy ===== *)
theory Letters
  imports Mailbox
begin

text \<open>
  What a frame of the protocol says, and what a NIC and the stack above it make of one: a message
  in the box of every consumer on the ports it is for.
\<close>

section \<open>Letters\<close>

text \<open>What a frame of the protocol says: the sending NIC and port, the port it is for, the payload.\<close>

record letter =
  l_mac :: mac
  l_from :: address
  l_to :: address
  l_payload :: "byte list"

definition letter_ok :: "u16 \<Rightarrow> letter \<Rightarrow> bool" where
  "letter_ok p l \<longleftrightarrow> length (l_mac l) = 6 \<and> length (paddr (l_to l)) = 6 \<and> port (l_to l) = p \<and>
     l_payload l \<noteq> [] \<and> length (l_payload l) \<le> MAX_SIZE"

definition letter_frame :: "byte \<Rightarrow> letter \<Rightarrow> byte list" where
  "letter_frame q l = wire_frame (l_mac l) (l_from l) (l_to l) q (l_payload l)"

definition says :: "message \<Rightarrow> letter \<Rightarrow> bool" where
  "says m l \<longleftrightarrow> msg_bytes m = l_payload l \<and> m_src m = l_mac l"

text \<open>The ports whose observers \<open>Protocol::update\<close> notifies; port 0 stands for everybody.\<close>

definition letter_ports :: "letter \<Rightarrow> u16 list" where
  "letter_ports l =
     (let t = message_type (dec_ptp (l_payload l)) in
      if port (l_to l) \<noteq> 0 then [port (l_to l)]
      else if length (l_payload l) \<noteq> sizeof_ptp then [PORT_GATEWAY]
      else if t = 1 \<or> t = 3 then [PORT_TIME_CLIENT] else [PORT_RSU, PORT_GATEWAY])"

lemma letter_frame_length:
  assumes "letter_ok p l"
  shows "length (letter_frame q l) = 21 + length (l_payload l)" and "length (letter_frame q l) \<le> frame_size"
  using assms header_codec.enc_length
  by (simp_all add: letter_frame_def wire_frame_def letter_ok_def header_size_def MAX_SIZE_def
      frame_size_def MTU_def)

lemma dec_ptp_take: "13 \<le> length d \<Longrightarrow> dec_ptp (take 13 d) = dec_ptp d"
  by (simp add: dec_ptp_def peek_take)

lemma letter_dispatched:
  assumes "pkt_header f = \<lparr>src_port = htons (port src), dst_port = htons (port (l_to l)),
       payload_size = htons (of_nat (length (l_payload l))), src_quadrant = q\<rparr>"
    and "take (length (l_payload l)) (pkt_data f) = l_payload l" and "length (l_payload l) \<le> MAX_SIZE"
  shows "dispatch_ports f = letter_ports l"
proof -
  have sz: "unat (ntohs (payload_size (pkt_header f))) = length (l_payload l)"
    using unat_size [OF assms(3)] by (simp add: assms(1))
  have "dec_ptp (pkt_data f) = dec_ptp (l_payload l)" if "length (l_payload l) = 13"
  proof -
    have "13 \<le> length (pkt_data f)" using assms(2) that by (metis length_take min.absorb_iff2 nat_le_linear)
    then show ?thesis using dec_ptp_take [of "pkt_data f"] assms(2) that by simp
  qed
  then show ?thesis using sz by (auto simp: dispatch_ports_def letter_ports_def Let_def assms(1) sizeof_ptp_def)
qed

text \<open>What a NIC with a free buffer does with it.\<close>

lemma letter_handled:
  fixes pos :: byte
  assumes ok: "node_ok s" and n: "n < length (nics s)" and obs: "n_observers (nics s ! n) = [(PROTO, ())]"
    and free: "free_slots (pool (nics s ! n)) \<noteq> {}" and l: "letter_ok p l"
    and tmp: "length tmp = frame_size" and k: "k < length (consumers s)"
  defines "w \<equiv> letter_frame (my_quadrant pos s) l"
  obtains t m where "nic_handle pos n (poke 0 w tmp) (length w) s = Inr t" and "node_ok t"
    and "n_observers (nics t ! n) = [(PROTO, ())]" and "length (nics t) = length (nics s)"
    and "p_quadrant t = p_quadrant s" and "routing t = routing s" and "length (consumers t) = length (consumers s)"
    and "card (free_slots (pool (nics s ! n))) \<le> Suc (card (free_slots (pool (nics t ! n))))"
    and "mailbox k t = mailbox k s @ replicate (count_list (concat (map (routing s) (letter_ports l))) k) m"
    and "says m l" and "origin m = my_quadrant pos s AND 0x3"
    and "same_layout s t" and "map n_address (nics t) = map n_address (nics s)" and "message_ok m"
proof -
  let ?raw = "poke 0 w tmp"
  have w: "w = wire_frame (l_mac l) (l_from l) (l_to l) (my_quadrant pos s) (l_payload l)"
    by (simp add: w_def letter_frame_def)
  have mac: "length (l_mac l) = 6" "length (paddr (l_to l)) = 6" and pt: "port (l_to l) = p"
    and pl: "length (l_payload l) \<le> MAX_SIZE" "l_payload l \<noteq> []" using l by (simp_all add: letter_ok_def)
  have lw: "14 \<le> length w" "length w \<le> frame_size"
    using letter_frame_length [OF l, of "my_quadrant pos s"] by (simp_all add: w_def)
  have raw: "length ?raw = frame_size" "take (length w) ?raw = w" using lw tmp by (simp_all add: poke_def)
  note fields = wire_frame_fields [OF w raw(2) mac]
  obtain i where i: "first_index is_free (pool (nics s ! n)) = Some i" using free_slot_exists [OF free] by blast
  have q: "verifica_quadrante pos ?raw s" using fields(4) by (simp add: verifica_quadrante_eq)
  have le: "length w \<le> length ?raw" using lw raw by simp
  obtain t where t: "nic_handle pos n ?raw (length w) s = Inr t"
      "free_slots (pool (nics t ! n)) = (if b_owner (pool (nics s ! n) ! i) = None
         then free_slots (pool (nics s ! n)) - {i} else free_slots (pool (nics s ! n)))"
      "n_observers (nics t ! n) = [(PROTO, ())]" "p_quadrant t = p_quadrant s"
      "length (nics t) = length (nics s)" "node_ok t" "same_layout s t"
      "map n_address (nics t) = map n_address (nics s)"
    using received_buffer_step [OF ok n le lw(1,2) q fields(2) i obs] by blast
  let ?f = "poke 0 (take (length w) ?raw) (b_frame (pool (nics s ! n) ! i))"
  have ii: "i < length (pool (nics s ! n))" using i by (simp add: first_index_Some)
  then have fr: "length (b_frame (pool (nics s ! n) ! i)) = frame_size"
    using node_ok_nic [OF ok n] by (simp add: nic_ok_def pool_ok_def)
  then have lf: "length ?f = frame_size" using lw raw by simp
  have tf: "take (length w) ?f = w" using raw by (simp add: poke_def)
  note ff = wire_frame_fields [OF w tf mac]
  obtain m where m: "received_message ?f (fresh s) = Inr m" "m_size m = length (l_payload l)"
      "msg_bytes m = l_payload l" "m_src m = l_mac l" "origin m = my_quadrant pos s AND 0x3" "message_ok m"
    by (rule received_from_wire [OF w tf mac lf pl(1)])
  let ?ks = "concat (map (routing s) (letter_ports l))"
  have "dispatch_ports ?f = letter_ports l" by (rule letter_dispatched [OF ff(4,5) pl(1)])
  then have mf: "mail_frame (fresh s) ?f (mail_of s) = mail_post m ?ks (mail_of s)"
    using m(1,2) pl(2) by (simp add: mail_frame_def mail_of_def)
  have "arrival pos n ?raw (length w) s = [?f]"
    using i q obs ff(2) by (simp add: arrival_def Let_def ntohs_def)
  with handle_mail [OF ok n le lw(2) t(1)] mf
  have mt: "mail_of t = mail_post m ?ks (mail_of s)" by simp
  then have "length (boxes (mail_of t)) = length (boxes (mail_of s))" by (simp only: mail_post_box)
  then have lc: "length (consumers t) = length (consumers s)" by (simp add: mail_of_def)
  have "routing t = routing s" using arg_cong [OF mt, of routes] by (simp add: mail_of_def)
  moreover have "mailbox k t = mailbox k s @ replicate (count_list ?ks k) m"
  proof -
    have "boxes (mail_of t) ! k = boxes (mail_of s) ! k @ replicate (count_list ?ks k) m"
      unfolding mt by (rule mail_post_box(2)) (use k in \<open>simp add: mail_of_def\<close>)
    then show ?thesis using k lc by (simp add: box_mailbox)
  qed
  moreover have "card (free_slots (pool (nics s ! n))) \<le> Suc (card (free_slots (pool (nics t ! n))))"
  proof -
    have "finite (free_slots (pool (nics s ! n)))" by (simp add: free_slots_def)
    then show ?thesis using t(2) by (auto simp: card_Diff_singleton_if)
  qed
  moreover have "says m l" using m(3,4) by (simp add: says_def)
  ultimately show ?thesis
    using that [OF t(1) t(6) t(3) t(5) t(4) _ lc] m(5,6) t(7,8) by blast
qed

section \<open>Sending and receiving frames\<close>

text \<open>What a send put on the wire through NIC \<open>n\<close>.\<close>

definition sent_on :: "nat \<Rightarrow> node \<Rightarrow> node \<Rightarrow> byte list list" where
  "sent_on n s t = map snd (filter (\<lambda>(m, f). m = n) (drop (length (on_wire s)) (on_wire t)))"

lemma frames_on_nic:
  "distinct ns \<Longrightarrow> n \<in> set ns \<Longrightarrow> free_slots (pool (nics s ! n)) \<noteq> {} \<Longrightarrow>
     map snd (filter (\<lambda>(m, f). m = n) (frames_out s ns src dst q x)) =
       [wire_frame (n_address (nics s ! n)) src dst q x]"
proof (induction ns)
  case Nil
  then show ?case by simp
next
  case (Cons j ns)
  have none: "filter (\<lambda>(m, f). m = n) (frames_out s ms src dst q x) = []" if "n \<notin> set ms" for ms
    using that by (induction ms) (auto simp: frames_out_def)
  have split: "frames_out s (j # ns) src dst q x = frames_out s [j] src dst q x @ frames_out s ns src dst q x"
    by (simp add: frames_out_def)
  show ?case
  proof (cases "j = n")
    case True
    then have "map snd (filter (\<lambda>(m, f). m = n) (frames_out s [j] src dst q x)) =
        [wire_frame (n_address (nics s ! n)) src dst q x]"
      using Cons.prems(3) by (simp add: frames_out_def)
    with none [of ns] Cons.prems True split show ?thesis by simp
  next
    case False
    with none [of "[j]"] Cons split show ?thesis by simp
  qed
qed

text \<open>Each frame is copied over the front of one array, \<open>tmp\<close>, and handed to the NIC.\<close>

fun read_frames :: "byte \<Rightarrow> nat \<Rightarrow> frame \<Rightarrow> byte list list \<Rightarrow> node \<Rightarrow> runtime_error + node" where
  "read_frames pos n tmp [] s = Inr s"
| "read_frames pos n tmp (f # fs) s =
     (let tmp' = poke 0 f tmp in
      and_then (nic_handle pos n tmp' (length f) s) (read_frames pos n tmp' fs))"

lemma receive_keeps:
  assumes "endpoint_receive k out s = Inr (b, m, t)"
  shows "nics t = nics s \<and> p_nics t = p_nics s \<and> comms t = comms s \<and> p_observers t = p_observers s"
proof -
  from assms obtain d ob where "co_updated_for (consumers s ! k) = Inr (d, ob)"
    by (auto simp: endpoint_receive_def and_then_Inr_iff)
  with assms show ?thesis
    by (cases d) (auto simp: endpoint_receive_def Let_def and_then_Inr_iff delete_msg_def
        split: option.splits if_splits)
qed

lemma receive_nics: "endpoint_receive k out s = Inr (b, m, t) \<Longrightarrow> nics t = nics s"
  using receive_keeps by blast

lemma mailbox_front:
  assumes "node_ok s" and "k < length (consumers s)" and "mailbox k s = m # ms"
  obtains p q where "queue (consumers s ! k) = p # q" and "heap s p = Some m"
    and "map (the \<circ> heap s) q = ms"
proof -
  obtain p q where q: "queue (consumers s ! k) = p # q" "the (heap s p) = m" "map (the \<circ> heap s) q = ms"
    using assms(3) by (cases "queue (consumers s ! k)") (auto simp: mailbox_def contents_def)
  have "heap s p \<noteq> None" using heap_ok_pop(2) [OF _ assms(2) q(1)] assms(1) by (simp add: node_ok_def)
  with q that show ?thesis by auto
qed

section \<open>What a process keeps\<close>

text \<open>
  Between two states of a process: everything is where it was, and the pool of NIC \<open>n\<close> has lost at
  most \<open>j\<close> free buffers.
\<close>

definition still :: "nat \<Rightarrow> nat \<Rightarrow> node \<Rightarrow> node \<Rightarrow> bool" where
  "still n j s t \<longleftrightarrow> same_layout s t \<and> map n_address (nics t) = map n_address (nics s) \<and>
     n_observers (nics t ! n) = n_observers (nics s ! n) \<and>
     card (free_slots (pool (nics s ! n))) \<le> j + card (free_slots (pool (nics t ! n)))"

lemma still_refl [simp]: "still n 0 s s"
  by (simp add: still_def)

lemma still_trans: "still n i s t \<Longrightarrow> still n j t u \<Longrightarrow> still n (i + j) s u"
  using same_layout_trans [of s t u] by (simp add: still_def)

lemma still_routing: "still n j s t \<Longrightarrow> routing t = routing s"
  by (simp add: still_def same_layout_def routing_def fun_eq_iff)

lemma still_quadrant: "still n j s t \<Longrightarrow> my_quadrant pos t = my_quadrant pos s"
  by (rule my_quadrant_cong) (simp add: still_def same_layout_def)

lemma still_receive:
  assumes "node_ok s" and "k < length (consumers s)" and "endpoint_receive k out s = Inr (b, m, t)"
  shows "still n 0 s t"
proof -
  note rm = receive_mail(1) [OF assms]
  have "length (consumers t) = length (consumers s)" "p_quadrant t = p_quadrant s"
    using arg_cong [OF rm, of "\<lambda>b. length (boxes b)"] arg_cong [OF rm, of quadrant_of]
    by (simp_all add: mail_of_def mail_take_def)
  then show ?thesis using receive_keeps [OF assms(3)] by (simp add: still_def same_layout_def)
qed

end
