(* ===== verification/Vehicle_Bus.thy ===== *)
theory Vehicle_Bus
  imports Letters Shm_Channel
begin

text \<open>
  The processes of one vehicle on their shared memory: each member of the bus is a process's protocol
  stack with the index of its \<open>NIC<ShmEngine>\<close>. What that NIC is given to send is written into the
  ring by \<open>_send\<close>; \<open>_try_read\<close> hands what a member has not read to its NIC. The operations run
  one at a time; their interleaving inside the engine is the subject of \<open>Shm_System\<close>.
\<close>

section \<open>The bus\<close>

record bus_sys =
  ring_of :: shm_channel
  members :: "(node \<times> nat) list"

text \<open>Member \<open>p\<close> has process id \<open>p + 1\<close> and entry \<open>p\<close> of the ring.\<close>

definition member_pid :: "nat \<Rightarrow> int" where "member_pid p = int p + 1"

definition node_at :: "nat \<Rightarrow> bus_sys \<Rightarrow> node" where "node_at p v = fst (members v ! p)"
definition nic_at :: "nat \<Rightarrow> bus_sys \<Rightarrow> nat" where "nic_at p v = snd (members v ! p)"

definition set_node :: "nat \<Rightarrow> node \<Rightarrow> bus_sys \<Rightarrow> bus_sys" where
  "set_node p s v = v\<lparr>members := (members v)[p := (s, nic_at p v)]\<rparr>"

datatype bus_error = Fault runtime_error | Waits

text \<open>\<open>NIC::send\<close> of the shared-memory NIC, for every frame a send produced.\<close>

fun post_all :: "int \<Rightarrow> byte list list \<Rightarrow> shm_channel \<Rightarrow> bus_error + shm_channel" where
  "post_all self [] ch = Inr ch"
| "post_all self (f # fs) ch =
     (case shm_post self f ch of None \<Rightarrow> Inl Waits | Some ch' \<Rightarrow> post_all self fs ch')"

definition bus_send :: "nat \<Rightarrow> byte \<Rightarrow> nat \<Rightarrow> message \<Rightarrow> bus_sys \<Rightarrow> bus_error + bus_sys" where
  "bus_send p pos c m v =
     (case comm_send pos c m (node_at p v) of Inl e \<Rightarrow> Inl (Fault e)
      | Inr (b, t) \<Rightarrow>
          (case post_all (member_pid p) (sent_on (nic_at p v) (node_at p v) t) (ring_of v) of
             Inl e \<Rightarrow> Inl e
           | Inr ch \<Rightarrow> Inr ((set_node p t v)\<lparr>ring_of := ch\<rparr>)))"

definition bus_read :: "nat \<Rightarrow> byte \<Rightarrow> frame \<Rightarrow> bus_sys \<Rightarrow> bus_error + bus_sys" where
  "bus_read p pos tmp v =
     (case try_read p (ring_of v) of (fs, ch) \<Rightarrow>
        (case read_frames pos (nic_at p v) tmp fs (node_at p v) of Inl e \<Rightarrow> Inl (Fault e)
         | Inr t \<Rightarrow> Inr ((set_node p t v)\<lparr>ring_of := ch\<rparr>)))"

definition bus_receive :: "nat \<Rightarrow> nat \<Rightarrow> message \<Rightarrow> bus_sys \<Rightarrow> bus_error + bus_sys" where
  "bus_receive p k out v =
     (case endpoint_receive k out (node_at p v) of Inl e \<Rightarrow> Inl (Fault e)
      | Inr (b, m, t) \<Rightarrow> Inr (set_node p t v))"

datatype bus_op = Bus_Send nat byte nat message | Bus_Read nat byte frame | Bus_Receive nat nat message

fun bus_exec :: "bus_op \<Rightarrow> bus_sys \<Rightarrow> bus_error + bus_sys" where
  "bus_exec (Bus_Send p pos c m) v = bus_send p pos c m v"
| "bus_exec (Bus_Read p pos tmp) v = bus_read p pos tmp v"
| "bus_exec (Bus_Receive p k out) v = bus_receive p k out v"

section \<open>Reading the ring\<close>

text \<open>A batch of them, as \<open>_try_read\<close> hands it over.\<close>

lemma letters_read:
  assumes "node_ok s" and "n < length (nics s)" and "n_observers (nics s ! n) = [(PROTO, ())]"
    and "length ls \<le> card (free_slots (pool (nics s ! n)))" and "p \<noteq> 0" and "\<forall>l\<in>set ls. letter_ok p l"
    and "length tmp = frame_size" and "k < length (consumers s)" and "count_list (routing s p) k = 1"
    and "my_quadrant pos s = q"
  shows "\<exists>t ms. read_frames pos n tmp (map (letter_frame q) ls) s = Inr t \<and> node_ok t \<and>
    mailbox k t = mailbox k s @ ms \<and> list_all2 says ms ls \<and>
    (\<forall>m\<in>set ms. origin m = q AND 0x3 \<and> message_ok m) \<and> still n (length ls) s t"
  using assms
proof (induction ls arbitrary: s tmp)
  case Nil
  then show ?case by simp
next
  case (Cons l ls)
  let ?w = "letter_frame q l"
  have l: "letter_ok p l" using Cons.prems(6) by simp
  have "free_slots (pool (nics s ! n)) \<noteq> {}" using Cons.prems(4) by auto
  have "letter_ports l = [p]" using l Cons.prems(5) by (simp add: letter_ports_def letter_ok_def)
  with letter_handled [OF Cons.prems(1-3) \<open>free_slots (pool (nics s ! n)) \<noteq> {}\<close> l Cons.prems(7,8), of pos]
  obtain t m where t: "nic_handle pos n (poke 0 ?w tmp) (length ?w) s = Inr t" "node_ok t"
      "n_observers (nics t ! n) = [(PROTO, ())]" "same_layout s t" "map n_address (nics t) = map n_address (nics s)"
      "card (free_slots (pool (nics s ! n))) \<le> Suc (card (free_slots (pool (nics t ! n))))"
      "mailbox k t = mailbox k s @ [m]" "says m l" "origin m = q AND 0x3" "message_ok m"
    using Cons.prems(9,10) by (simp add: Let_def) metis
  have st: "still n 1 s t" using t(3-6) Cons.prems(3) by (simp add: still_def)
  have "my_quadrant pos t = q" using still_quadrant [OF st] Cons.prems(10) by simp
  moreover have "length (poke 0 ?w tmp) = frame_size"
    using letter_frame_length(2) [OF l, of q] Cons.prems(7) by simp
  moreover have "length ls \<le> card (free_slots (pool (nics t ! n)))" using t(6) Cons.prems(4) by simp
  moreover have "count_list (routing t p) k = 1" using still_routing [OF st] Cons.prems(9) by simp
  ultimately obtain u ms where u: "read_frames pos n (poke 0 ?w tmp) (map (letter_frame q) ls) t = Inr u"
      "node_ok u" "mailbox k u = mailbox k t @ ms" "list_all2 says ms ls"
      "\<forall>m\<in>set ms. origin m = q AND 0x3 \<and> message_ok m" "still n (length ls) t u"
    using Cons.IH [OF t(2) _ t(3), of "poke 0 ?w tmp"] Cons.prems(2,5,6,8) t(4) by (auto simp: same_layout_def)
  have "still n (length (l # ls)) s u" using still_trans [OF st u(6)] by simp
  with t u show ?case by (intro exI [of _ u] exI [of _ "m # ms"]) (simp add: Let_def)
qed

section \<open>Sending on the bus\<close>

definition member_ok :: "node \<times> nat \<Rightarrow> bool" where
  "member_ok x \<longleftrightarrow> node_ok (fst x) \<and> snd x < length (nics (fst x))"

definition bus_ok :: "bus_sys \<Rightarrow> bool" where
  "bus_ok v \<longleftrightarrow> ring_ok (ring_of v) \<and> (\<forall>x\<in>set (members v). member_ok x) \<and>
     pids (ring_of v) = map member_pid [0..<length (members v)] @ replicate (PROCS - length (members v)) 0"

text \<open>A process that can send message \<open>m\<close> for port \<open>pt\<close>, seen from its own state.\<close>

definition can_send :: "u16 \<Rightarrow> byte \<Rightarrow> byte \<Rightarrow> nat \<Rightarrow> message \<Rightarrow> node \<Rightarrow> nat \<Rightarrow> bool" where
  "can_send pt qd pos c m s n \<longleftrightarrow> distinct (p_nics s) \<and> n \<in> set (p_nics s) \<and>
     free_slots (pool (nics s ! n)) \<noteq> {} \<and> c < length (comms s) \<and> port (c_address (comms s ! c)) = pt \<and>
     message_ok m \<and> 0 < m_size m \<and> my_quadrant pos s = qd"

definition letter_from :: "node \<Rightarrow> nat \<Rightarrow> nat \<Rightarrow> message \<Rightarrow> letter" where
  "letter_from s n c m = \<lparr>l_mac = n_address (nics s ! n), l_from = c_address (comms s ! c),
     l_to = \<lparr>paddr = BROADCAST, port = port (c_address (comms s ! c))\<rparr>, l_payload = msg_bytes m\<rparr>"

definition after_send :: "node \<Rightarrow> node \<Rightarrow> bool" where
  "after_send s t \<longleftrightarrow> same_layout s t \<and> same_pools s t \<and> same_but_nics s t"

lemma bus_ok_member:
  assumes "bus_ok v" and "p < length (members v)"
  shows "node_ok (node_at p v)" and "nic_at p v < length (nics (node_at p v))" and "p < PROCS"
    and "pids (ring_of v) ! p = member_pid p" and "length (heads (ring_of v)) = PROCS"
proof -
  have "member_ok (members v ! p)" using assms by (simp add: bus_ok_def)
  then show "node_ok (node_at p v)" and "nic_at p v < length (nics (node_at p v))"
    by (simp_all add: member_ok_def node_at_def nic_at_def)
  have ps: "pids (ring_of v) = map member_pid [0..<length (members v)] @ replicate (PROCS - length (members v)) 0"
    using assms(1) by (simp add: bus_ok_def)
  have ro: "ring_ok (ring_of v)" using assms(1) by (simp add: bus_ok_def)
  then have ln: "length (pids (ring_of v)) = PROCS" by (simp add: ring_ok_def)
  show "pids (ring_of v) ! p = member_pid p" using assms(2) by (simp add: ps nth_append)
  have "length (pids (ring_of v)) = length (members v) + (PROCS - length (members v))" by (simp add: ps)
  with ln assms(2) show "p < PROCS" by linarith
  show "length (heads (ring_of v)) = PROCS" using ro by (simp add: ring_ok_def)
qed

lemma set_node_simps [simp]:
  "length (members (set_node p s v)) = length (members v)" "ring_of (set_node p s v) = ring_of v"
  "p < length (members v) \<Longrightarrow> node_at p (set_node p s v) = s" "q \<noteq> p \<Longrightarrow> node_at q (set_node p s v) = node_at q v"
  "nic_at q (set_node p s v) = nic_at q v"
  "node_at q (v\<lparr>ring_of := ch\<rparr>) = node_at q v" "nic_at q (v\<lparr>ring_of := ch\<rparr>) = nic_at q v"
  by (simp_all add: set_node_def node_at_def nic_at_def nth_list_update)
    (cases "p < length (members v)", auto simp: nth_list_update not_less list_update_beyond)

lemma bus_ok_set_node:
  assumes "bus_ok v" and "p < length (members v)" and "node_ok s" and "nic_at p v < length (nics s)"
    and "ring_ok ch" and "pids ch = pids (ring_of v)"
  shows "bus_ok ((set_node p s v)\<lparr>ring_of := ch\<rparr>)"
proof -
  have "member_ok (s, nic_at p v)" using assms by (simp add: member_ok_def)
  then have "\<forall>x\<in>set ((members v)[p := (s, nic_at p v)]). member_ok x"
    using assms(1) set_update_subset_insert [of "members v" p "(s, nic_at p v)"] by (auto simp: bus_ok_def)
  then show ?thesis using assms by (simp add: bus_ok_def set_node_def)
qed

lemma letter_from_ok:
  assumes "node_ok s" and "n < length (nics s)" and "can_send pt qd pos c m s n"
  shows "letter_ok pt (letter_from s n c m)"
proof -
  have "length (n_address (nics s ! n)) = 6" using node_ok_nic [OF assms(1,2)] by (simp add: nic_ok_def)
  then show ?thesis
    using assms(3) by (auto simp: letter_ok_def letter_from_def can_send_def message_ok_def msg_bytes_def)
qed

lemma bus_send_writes:
  assumes "bus_ok v" and "p < length (members v)" and "can_send pt qd pos c m (node_at p v) (nic_at p v)"
    and "shm_room (member_pid p) (ring_of v)"
  defines "f \<equiv> letter_frame qd (letter_from (node_at p v) (nic_at p v) c m)"
  obtains t where "bus_send p pos c m v = Inr ((set_node p t v)\<lparr>ring_of := shm_write f (ring_of v)\<rparr>)"
    and "node_ok t" and "after_send (node_at p v) t"
    and "bus_ok ((set_node p t v)\<lparr>ring_of := shm_write f (ring_of v)\<rparr>)"
proof -
  let ?s = "node_at p v" and ?n = "nic_at p v"
  let ?a = "c_address (comms ?s ! c)"
  let ?dst = "\<lparr>paddr = BROADCAST, port = port ?a\<rparr>"
  note ok = bus_ok_member [OF assms(1,2)]
  have cs: "distinct (p_nics ?s)" "?n \<in> set (p_nics ?s)" "free_slots (pool (nics ?s ! ?n)) \<noteq> {}"
      "message_ok m" "0 < m_size m" "my_quadrant pos ?s = qd" using assms(3) by (simp_all add: can_send_def)
  have msg: "m_size m \<le> length (m_data m)" "m_size m \<le> PROTOCOL_MTU"
    using cs(4) by (simp_all add: message_ok_def MAX_SIZE_def PROTOCOL_MTU_def MTU_def header_size_def)
  have "\<forall>n\<in>set (p_nics ?s). n < length (nics ?s)" using ok(1) by (simp add: node_ok_def wired_def)
  from send_nics_spec [OF ok(1) this _ msg, of ?dst pos ?a]
  obtain t where t: "send_nics pos ?a ?dst (m_data m) (m_size m) (p_nics ?s) ?s = Inr t" "node_ok t"
      "same_layout ?s t" "same_pools ?s t" "same_but_nics ?s t"
      "on_wire t = on_wire ?s @ frames_out ?s (p_nics ?s) ?a ?dst qd (msg_bytes m)"
    using cs(6) by (auto simp: BROADCAST_def msg_bytes_def)
  have "sent_on ?n ?s t = [f]"
    using frames_on_nic [OF cs(1-3), of ?a ?dst qd "msg_bytes m"] t(6)
    by (simp add: sent_on_def f_def letter_frame_def letter_from_def)
  moreover have "length f \<le> frame_size"
    unfolding f_def by (rule letter_frame_length(2) [OF letter_from_ok [OF ok(1,2) assms(3)]])
  ultimately have post: "post_all (member_pid p) (sent_on ?n ?s t) (ring_of v) = Inr (shm_write f (ring_of v))"
    and fit: "length f \<le> frame_size"
    using assms(4) by (simp_all add: shm_post_def shm_send_def)
  have "comm_send pos c m ?s = Inr (True, t)"
    using t(1) cs(5) by (simp add: comm_send_def proto_send_def Let_def)
  then have run: "bus_send p pos c m v = Inr ((set_node p t v)\<lparr>ring_of := shm_write f (ring_of v)\<rparr>)"
    using post by (simp add: bus_send_def)
  have "ring_ok (ring_of v)" using assms(1) by (simp add: bus_ok_def)
  then have "bus_ok ((set_node p t v)\<lparr>ring_of := shm_write f (ring_of v)\<rparr>)"
    using t(3) ok(2) fit by (intro bus_ok_set_node assms(1,2) t(2)) (simp_all add: same_layout_def)
  moreover have "after_send ?s t" using t(3-5) by (simp add: after_send_def)
  ultimately show ?thesis using that run t(2) by blast
qed

text \<open>One send after another, while every reader has room.\<close>

type_synonym bus_post = "nat \<times> byte \<times> nat \<times> message"

fun post_op :: "bus_post \<Rightarrow> bus_op" where
  "post_op (p, pos, c, m) = Bus_Send p pos c m"

definition posts_ok :: "u16 \<Rightarrow> byte \<Rightarrow> bus_post list \<Rightarrow> bus_sys \<Rightarrow> bool" where
  "posts_ok pt qd ps v \<longleftrightarrow> (\<forall>(p, pos, c, m)\<in>set ps. p < length (members v) \<and>
     can_send pt qd pos c m (node_at p v) (nic_at p v))"

definition letters_of :: "bus_post list \<Rightarrow> bus_sys \<Rightarrow> letter list" where
  "letters_of ps v = map (\<lambda>(p, pos, c, m). letter_from (node_at p v) (nic_at p v) c m) ps"

definition all_have_room :: "nat \<Rightarrow> bus_sys \<Rightarrow> bool" where
  "all_have_room k v \<longleftrightarrow> (\<forall>r<length (members v). backlog r (ring_of v) + k \<le> N)"

lemma after_send_still:
  assumes "after_send s t" and "n < length (nics s)"
  shows "still n 0 s t" and "mailbox k t = mailbox k s"
proof -
  have "n_observers (nics t ! n) = n_observers (nics s ! n)"
    using assms map_nth_eq [of n_observers "nics t" "nics s" n]
    by (simp add: after_send_def same_layout_def same_but_nics_def)
  then show "still n 0 s t"
    using assms by (simp add: still_def after_send_def same_layout_def same_pools_def same_but_nics_def)
  show "mailbox k t = mailbox k s"
    using assms(1) by (simp add: after_send_def same_but_nics_def mailbox_def contents_def)
qed

lemma after_send_trans: "after_send s t \<Longrightarrow> after_send t u \<Longrightarrow> after_send s u"
  using same_layout_trans [of s t u]
  by (simp add: after_send_def same_pools_def same_but_nics_def same_layout_def)

lemma after_send_refl [simp]: "after_send s s"
  by (simp add: after_send_def same_pools_def same_but_nics_def)

lemma still_can_send:
  assumes "still n j s t" and "n < length (nics s)"
  shows "letter_from t n c m = letter_from s n c m"
    and "can_send pt qd pos c m s n \<Longrightarrow> j < card (free_slots (pool (nics s ! n))) \<Longrightarrow> can_send pt qd pos c m t n"
proof -
  have "length (nics t) = length (nics s)" "comms t = comms s" "p_nics t = p_nics s"
    using assms(1) by (simp_all add: still_def same_layout_def)
  moreover have "n_address (nics t ! n) = n_address (nics s ! n)"
    using assms map_nth_eq [of n_address "nics t" "nics s" n] by (simp add: still_def same_layout_def)
  moreover have "j < card (free_slots (pool (nics s ! n))) \<Longrightarrow> free_slots (pool (nics t ! n)) \<noteq> {}"
    using assms(1) by (auto simp: still_def)
  ultimately show "letter_from t n c m = letter_from s n c m"
    and "can_send pt qd pos c m s n \<Longrightarrow> j < card (free_slots (pool (nics s ! n))) \<Longrightarrow> can_send pt qd pos c m t n"
    using still_quadrant [OF assms(1), of pos] by (simp_all add: can_send_def letter_from_def)
qed

lemma can_send_free:
  assumes "can_send pt qd pos c m s n"
  shows "0 < card (free_slots (pool (nics s ! n)))"
proof -
  have "finite (free_slots (pool (nics s ! n)))" by (simp add: free_slots_def)
  then show ?thesis using assms by (simp add: can_send_def card_gt_0_iff)
qed

lemma all_room:
  assumes "bus_ok v" and "all_have_room (Suc k) v"
  shows "shm_room self (ring_of v)"
proof -
  have "tail (ring_of v) - heads (ring_of v) ! i < of_nat N"
    if "i < PROCS" "pids (ring_of v) ! i \<noteq> 0" for i
  proof -
    have "i < length (members v)"
      using that assms(1) by (auto simp: bus_ok_def nth_append split: if_splits)
    then have "backlog i (ring_of v) < N" using assms(2) by (fastforce simp: all_have_room_def)
    then show ?thesis by (simp add: backlog_def N_def word_less_nat_alt)
  qed
  then show ?thesis by (auto simp: shm_room_def list_all_iff)
qed

text \<open>Every reader then has the frames before it, in the order of the sends; the sender itself too.\<close>

definition posted :: "byte \<Rightarrow> letter list \<Rightarrow> bus_sys \<Rightarrow> bus_sys \<Rightarrow> bool" where
  "posted qd ls v u \<longleftrightarrow> bus_ok u \<and> length (members u) = length (members v) \<and>
     (\<forall>r<length (members v). nic_at r u = nic_at r v \<and> after_send (node_at r v) (node_at r u) \<and>
        pending r (ring_of u) = pending r (ring_of v) @ map (letter_frame qd) ls)"

lemma posts_written:
  assumes "bus_ok v" and "posts_ok pt qd ps v" and "all_have_room (length ps) v"
  shows "\<exists>u. run_all bus_exec (map post_op ps) v = Inr u \<and> posted qd (letters_of ps v) v u"
  using assms
proof (induction ps arbitrary: v)
  case Nil
  then show ?case by (simp add: letters_of_def posted_def)
next
  case (Cons x ps)
  obtain p pos c m where x: "x = (p, pos, c, m)" by (cases x)
  let ?l = "letter_from (node_at p v) (nic_at p v) c m"
  let ?f = "letter_frame qd ?l"
  have p: "p < length (members v)" and cs: "can_send pt qd pos c m (node_at p v) (nic_at p v)"
    using Cons.prems(2) by (simp_all add: x posts_ok_def)
  have "shm_room (member_pid p) (ring_of v)"
    using all_room [OF Cons.prems(1), of "length ps"] Cons.prems(3) by simp
  from bus_send_writes [OF Cons.prems(1) p cs this]
  obtain t where t: "bus_send p pos c m v = Inr ((set_node p t v)\<lparr>ring_of := shm_write ?f (ring_of v)\<rparr>)"
      "after_send (node_at p v) t" "bus_ok ((set_node p t v)\<lparr>ring_of := shm_write ?f (ring_of v)\<rparr>)"
    by metis
  let ?u = "(set_node p t v)\<lparr>ring_of := shm_write ?f (ring_of v)\<rparr>"
  note ok = bus_ok_member [OF Cons.prems(1)]
  have as: "after_send (node_at j v) (node_at j ?u)" for j using p t(2) by (cases "j = p") simp_all
  have same: "can_send pt qd pos' c' m' (node_at j v) (nic_at j v) \<Longrightarrow>
        can_send pt qd pos' c' m' (node_at j ?u) (nic_at j ?u)"
      "letter_from (node_at j ?u) (nic_at j ?u) c' m' = letter_from (node_at j v) (nic_at j v) c' m'"
    if "j < length (members v)" for j pos' c' m'
    using still_can_send [OF after_send_still(1) [OF as [of j] ok(2) [OF that]] ok(2) [OF that]] can_send_free
    by simp_all
  have "posts_ok pt qd ps ?u" using Cons.prems(2) same(1) by (auto simp: x posts_ok_def)
  moreover have "letters_of ps ?u = letters_of ps v"
    using Cons.prems(2) same(2) by (auto simp: letters_of_def posts_ok_def)
  moreover have bl: "backlog j (ring_of v) < N" if "j < length (members v)" for j
    using Cons.prems(3) that by (fastforce simp: all_have_room_def)
  then have "backlog j (ring_of ?u) = Suc (backlog j (ring_of v))" if "j < length (members v)" for j
    using that by (simp add: backlog_write N_def less_trans [of _ 8])
  then have "all_have_room (length ps) ?u" using Cons.prems(3) by (auto simp: all_have_room_def)
  ultimately obtain w where w: "run_all bus_exec (map post_op ps) ?u = Inr w" "posted qd (letters_of ps v) ?u w"
    using Cons.IH [OF t(3)] by auto
  have "length ?f \<le> frame_size"
    by (rule letter_frame_length(2) [OF letter_from_ok [OF ok(1,2) [OF p] cs]])
  then have pd: "pending j (ring_of ?u) = pending j (ring_of v) @ [?f]" if "j < length (members v)" for j
    using Cons.prems(1) bl [OF that] by (simp add: pending_write bus_ok_def)
  have "run_all bus_exec (map post_op (x # ps)) v = Inr w" using t(1) w(1) by (simp add: x)
  moreover have "posted qd (letters_of (x # ps) v) v w"
    using w(2) pd after_send_trans [OF as] by (simp add: posted_def x letters_of_def)
  ultimately show ?case by blast
qed

lemma run_all_append:
  "run_all exec (xs @ ys) s = (case run_all exec xs s of Inl e \<Rightarrow> Inl e | Inr t \<Rightarrow> run_all exec ys t)"
  by (induction xs arbitrary: s) (auto split: sum.splits)

section \<open>Properties\<close>

text \<open>A member that listens on port \<open>pt\<close> for one consumer, with buffers for \<open>j\<close> frames.\<close>

definition can_hear :: "u16 \<Rightarrow> byte \<Rightarrow> byte \<Rightarrow> nat \<Rightarrow> nat \<Rightarrow> node \<Rightarrow> nat \<Rightarrow> bool" where
  "can_hear pt qd pos k j s n \<longleftrightarrow> n_observers (nics s ! n) = [(PROTO, ())] \<and>
     j \<le> card (free_slots (pool (nics s ! n))) \<and> k < length (consumers s) \<and>
     count_list (routing s pt) k = 1 \<and> my_quadrant pos s = qd"

lemma still_can_hear:
  assumes "still n i s t"
  shows "can_hear pt qd pos k (i + j) s n \<Longrightarrow> can_hear pt qd pos k j t n"
  using assms still_quadrant [OF assms, of pos] still_routing [OF assms]
  by (simp add: can_hear_def still_def same_layout_def)

lemma bus_reads:
  assumes "bus_ok u" and "r < length (members u)" and "pt \<noteq> 0"
    and "can_hear pt qd pos k (length ls) (node_at r u) (nic_at r u)"
    and "pending r (ring_of u) = map (letter_frame qd) ls" and "\<forall>l\<in>set ls. letter_ok pt l"
    and "length tmp = frame_size"
  shows "\<exists>w ms. bus_read r pos tmp u = Inr w \<and> bus_ok w \<and> length (members w) = length (members u) \<and>
    (\<forall>j. nic_at j w = nic_at j u) \<and> (\<forall>j. j \<noteq> r \<longrightarrow> node_at j w = node_at j u) \<and>
    (\<forall>j. j \<noteq> r \<longrightarrow> pending j (ring_of w) = pending j (ring_of u)) \<and> backlog r (ring_of w) = 0 \<and>
    mailbox k (node_at r w) = mailbox k (node_at r u) @ ms \<and> list_all2 says ms ls \<and>
    (\<forall>m\<in>set ms. origin m = qd AND 0x3 \<and> message_ok m) \<and>
    still (nic_at r u) (length ls) (node_at r u) (node_at r w)"
proof -
  note ok = bus_ok_member [OF assms(1,2)]
  note ch = assms(4) [unfolded can_hear_def]
  obtain t ms where t: "read_frames pos (nic_at r u) tmp (map (letter_frame qd) ls) (node_at r u) = Inr t"
      "node_ok t" "mailbox k t = mailbox k (node_at r u) @ ms" "list_all2 says ms ls"
      "\<forall>m\<in>set ms. origin m = qd AND 0x3 \<and> message_ok m" "still (nic_at r u) (length ls) (node_at r u) t"
    using letters_read [OF ok(1,2) _ _ assms(3,6,7)] ch by blast
  have lh: "r < length (heads (ring_of u))" using ok(3,5) by simp
  let ?ch = "(ring_of u)\<lparr>heads := (heads (ring_of u))[r := tail (ring_of u)]\<rparr>"
  have tr: "try_read r (ring_of u) = (map (letter_frame qd) ls, ?ch)"
    using try_read_eq [OF lh] assms(5) by simp
  let ?w = "(set_node r t u)\<lparr>ring_of := ?ch\<rparr>"
  have kp: "ring_ok ?ch \<and> pids ?ch = pids (ring_of u) \<and> (\<forall>i. i \<noteq> r \<longrightarrow> pending i ?ch = pending i (ring_of u))"
    using assms(1) try_read_keeps [OF _ tr] by (simp add: bus_ok_def)
  have "nic_at r u < length (nics t)" using ok(2) t(6) by (simp add: still_def same_layout_def)
  then have "bus_ok ?w" using kp by (intro bus_ok_set_node assms(1,2) t(2)) simp_all
  moreover have "bus_read r pos tmp u = Inr ?w" using tr t(1) by (simp add: bus_read_def)
  moreover have "backlog r ?ch = 0" using lh by (simp add: backlog_def)
  ultimately show ?thesis
    using t(3-6) kp assms(2) by (intro exI [of _ ?w] exI [of _ ms]) simp
qed

text \<open>What the program takes care of when it calls an operation.\<close>

fun bus_op_ok :: "bus_op \<Rightarrow> bus_sys \<Rightarrow> bool" where
  "bus_op_ok (Bus_Send p pos c m) v \<longleftrightarrow> p < length (members v) \<and> c < length (comms (node_at p v)) \<and> message_ok m"
| "bus_op_ok (Bus_Read p pos tmp) v \<longleftrightarrow> p < length (members v) \<and> length tmp = frame_size"
| "bus_op_ok (Bus_Receive p k out) v \<longleftrightarrow> p < length (members v) \<and> k < length (consumers (node_at p v))"

lemma read_frames_ok:
  assumes "node_ok s" and "n < length (nics s)" and "length tmp = frame_size" and "\<forall>f\<in>set fs. length f \<le> frame_size"
  shows "\<exists>t. read_frames pos n tmp fs s = Inr t \<and> node_ok t \<and> same_layout s t"
  using assms
proof (induction fs arbitrary: s tmp)
  case Nil
  then show ?case by simp
next
  case (Cons f fs)
  have l: "length (poke 0 f tmp) = frame_size" "length f \<le> length (poke 0 f tmp)" "length f \<le> frame_size"
    using Cons.prems(3,4) by simp_all
  obtain t where t: "nic_handle pos n (poke 0 f tmp) (length f) s = Inr t" "node_ok t" "same_layout s t"
    by (rule nic_handle_ok [OF Cons.prems(1,2) l(2,3), of pos])
  then have "n < length (nics t)" using Cons.prems(2) by (simp add: same_layout_def)
  with Cons.IH [OF t(2) _ l(1)] Cons.prems(4) obtain u where
    "read_frames pos n (poke 0 f tmp) fs t = Inr u" "node_ok u" "same_layout t u" by auto
  with t(1,3) same_layout_trans show ?case by (auto simp: Let_def)
qed

lemma pending_length: "ring_ok ch \<Longrightarrow> f \<in> set (pending i ch) \<Longrightarrow> length f \<le> frame_size"
proof -
  assume ro: "ring_ok ch" and "f \<in> set (pending i ch)"
  then obtain c where f: "f = slot_frame ch c" by (auto simp: pending_def)
  have "slots ch ! slot_of c \<in> set (slots ch)" using ro by (auto simp: ring_ok_def)
  then show ?thesis using ro by (auto simp: f slot_frame_def peek_def ring_ok_def)
qed

lemma post_all_ok:
  "ring_ok ch \<Longrightarrow> \<forall>f\<in>set fs. length f \<le> frame_size \<Longrightarrow>
     post_all self fs ch = Inl Waits \<or> (\<exists>ch'. post_all self fs ch = Inr ch' \<and> ring_ok ch' \<and> pids ch' = pids ch)"
proof (induction fs arbitrary: ch)
  case Nil
  then show ?case by simp
next
  case (Cons f fs)
  show ?case
  proof (cases "shm_post self f ch")
    case None
    then show ?thesis by simp
  next
    case (Some ch')
    then have ch': "ch' = shm_write f ch" using Cons.prems(2) by (simp add: shm_post_Some frame_fits_def)
    with Cons.IH [of ch'] Cons.prems Some show ?thesis by simp
  qed
qed

lemma bus_exec_ok:
  assumes "bus_ok v" and "bus_op_ok x v"
  shows "bus_exec x v = Inl Waits \<or>
    (\<exists>u. bus_exec x v = Inr u \<and> bus_ok u \<and> length (members u) = length (members v))"
proof (cases x)
  case (Bus_Send p pos c m)
  let ?s = "node_at p v"
  let ?a = "c_address (comms ?s ! c)"
  let ?dst = "\<lparr>paddr = BROADCAST, port = port ?a\<rparr>"
  have p: "p < length (members v)" and m: "message_ok m" using assms(2) Bus_Send by simp_all
  note ok = bus_ok_member [OF assms(1) p]
  have ro: "ring_ok (ring_of v)" using assms(1) by (simp add: bus_ok_def)
  have msg: "m_size m \<le> length (m_data m)" "m_size m \<le> PROTOCOL_MTU"
    using m by (simp_all add: message_ok_def MAX_SIZE_def PROTOCOL_MTU_def MTU_def header_size_def)
  have pn: "\<forall>n\<in>set (p_nics ?s). n < length (nics ?s)" using ok(1) by (simp add: node_ok_def wired_def)
  from send_nics_spec [OF ok(1) this _ msg, of ?dst pos ?a]
  obtain t where t: "send_nics pos ?a ?dst (m_data m) (m_size m) (p_nics ?s) ?s = Inr t" "node_ok t"
      "same_layout ?s t"
      "on_wire t = on_wire ?s @ frames_out ?s (p_nics ?s) ?a ?dst (my_quadrant pos ?s) (take (m_size m) (m_data m))"
    by (auto simp: BROADCAST_def)
  have "length f \<le> frame_size" if f0: "f \<in> set (sent_on (nic_at p v) ?s t)" for f
  proof -
    have "\<exists>n\<in>set (p_nics ?s). f = wire_frame (n_address (nics ?s ! n)) ?a ?dst (my_quadrant pos ?s)
        (take (m_size m) (m_data m))"
      using f0 t(4) by (auto simp: sent_on_def frames_out_def split: if_splits)
    then obtain n where "n \<in> set (p_nics ?s)"
      and f: "f = wire_frame (n_address (nics ?s ! n)) ?a ?dst (my_quadrant pos ?s) (take (m_size m) (m_data m))"
      by blast
    then have "length (n_address (nics ?s ! n)) = 6" using pn node_ok_nic [OF ok(1)] by (auto simp: nic_ok_def)
    then show ?thesis
      using msg header_codec.enc_length m
      by (simp add: f wire_frame_def BROADCAST_def header_size_def frame_size_def MTU_def PROTOCOL_MTU_def)
  qed
  then have post: "post_all (member_pid p) (sent_on (nic_at p v) ?s t) (ring_of v) = Inl Waits \<or>
      (\<exists>ch'. post_all (member_pid p) (sent_on (nic_at p v) ?s t) (ring_of v) = Inr ch' \<and> ring_ok ch' \<and>
        pids ch' = pids (ring_of v))"
    using post_all_ok [OF ro] by blast
  have "nic_at p v < length (nics t)" using t(3) ok(2) by (simp add: same_layout_def)
  then show ?thesis
    using post t(1,2) Bus_Send bus_ok_set_node [OF assms(1) p]
    by (auto simp: bus_send_def comm_send_def proto_send_def Let_def)
next
  case (Bus_Read p pos tmp)
  have p: "p < length (members v)" and tmp: "length tmp = frame_size" using assms(2) Bus_Read by simp_all
  note ok = bus_ok_member [OF assms(1) p]
  have ro: "ring_ok (ring_of v)" using assms(1) by (simp add: bus_ok_def)
  obtain fs ch where tr: "try_read p (ring_of v) = (fs, ch)" by fastforce
  have "fs = pending p (ring_of v)" using tr try_read_eq [of p "ring_of v"] ok(3,5) by simp
  then have "\<forall>f\<in>set fs. length f \<le> frame_size" using pending_length [OF ro] by blast
  then obtain t where t: "read_frames pos (nic_at p v) tmp fs (node_at p v) = Inr t" "node_ok t"
      "same_layout (node_at p v) t"
    using read_frames_ok [OF ok(1,2) tmp] by blast
  then have "nic_at p v < length (nics t)" using ok(2) by (simp add: same_layout_def)
  moreover have "ring_ok ch \<and> pids ch = pids (ring_of v)" using try_read_keeps [OF ro tr] by simp
  ultimately show ?thesis
    using Bus_Read tr t(1,2) bus_ok_set_node [OF assms(1) p] by (simp add: bus_read_def)
next
  case (Bus_Receive p k out)
  have p: "p < length (members v)" and k: "k < length (consumers (node_at p v))"
    using assms(2) Bus_Receive by simp_all
  note ok = bus_ok_member [OF assms(1) p]
  obtain b m t where t: "endpoint_receive k out (node_at p v) = Inr (b, m, t)" "node_ok t"
    using receive_ok [OF ok(1) k] by blast
  have "nics t = nics (node_at p v)" by (rule receive_nics [OF t(1)])
  then show ?thesis
    using Bus_Receive t ok(2) assms(1) bus_ok_set_node [OF assms(1) p t(2), of "ring_of v"]
    by (simp add: bus_receive_def bus_ok_def)
qed

text \<open>
  The vehicle's processes stay well formed: whatever sends, reads and receives they perform on
  the bus, in any order, no operation copies out of bounds or touches a deleted message; it either
  has to wait for a reader or ends in a well-formed vehicle again.
\<close>

theorem bus_stays_well_formed:
  assumes "bus_ok v" and "run_allowed bus_exec bus_op_ok ops v"
  shows "run_all bus_exec ops v = Inl Waits \<or> (\<exists>u. run_all bus_exec ops v = Inr u \<and> bus_ok u)"
  using assms
proof (induction ops arbitrary: v)
  case Nil
  then show ?case by simp
next
  case (Cons x ops)
  then show ?case using bus_exec_ok [of v x] by (auto split: sum.splits)
qed

text \<open>
  C5: messages sent by the processes of a vehicle on a port go through the shared memory, the header
  and the stack of a process that listens there unchanged: when that process next reads the ring,
  its consumer's box is extended by one message per send, in the order of the sends whoever made
  them, its own included, with the bytes, the sending NIC's address and the quadrant of the sender.
\<close>

theorem bus_delivery:
  assumes "bus_ok v" and "r < length (members v)" and "pt \<noteq> 0" and "posts_ok pt qd ps v"
    and "all_have_room (length ps) v" and "backlog r (ring_of v) = 0"
    and "can_hear pt qd pos k (length ps) (node_at r v) (nic_at r v)" and "length tmp = frame_size"
  shows "\<exists>u ms. run_all bus_exec (map post_op ps @ [Bus_Read r pos tmp]) v = Inr u \<and> bus_ok u \<and>
    mailbox k (node_at r u) = mailbox k (node_at r v) @ ms \<and> list_all2 says ms (letters_of ps v) \<and>
    (\<forall>m\<in>set ms. origin m = qd AND 0x3) \<and> backlog r (ring_of u) = 0"
proof -
  obtain u where u: "run_all bus_exec (map post_op ps) v = Inr u" "posted qd (letters_of ps v) v u"
    using posts_written [OF assms(1,4,5)] by blast
  note pu = u(2) [unfolded posted_def]
  have r: "r < length (members u)" using pu assms(2) by simp
  note ok = bus_ok_member [OF assms(1,2)]
  have as: "after_send (node_at r v) (node_at r u)" and nu: "nic_at r u = nic_at r v" using pu assms(2) by simp_all
  have hear: "can_hear pt qd pos k (length (letters_of ps v)) (node_at r u) (nic_at r u)"
    using still_can_hear [OF after_send_still(1) [OF as ok(2)], of pt qd pos k "length ps"] assms(7) nu
    by (simp add: letters_of_def)
  have lo: "\<forall>l\<in>set (letters_of ps v). letter_ok pt l"
    using assms(4) bus_ok_member [OF assms(1)]
    by (auto simp: letters_of_def posts_ok_def intro!: letter_from_ok)
  have fs: "pending r (ring_of u) = map (letter_frame qd) (letters_of ps v)"
    using pu assms(2,6) by (simp add: pending_def)
  obtain w ms where w: "bus_read r pos tmp u = Inr w" "bus_ok w" "mailbox k (node_at r w) = mailbox k (node_at r u) @ ms"
      "list_all2 says ms (letters_of ps v)" "\<forall>m\<in>set ms. origin m = qd AND 0x3 \<and> message_ok m"
      "backlog r (ring_of w) = 0"
    using bus_reads [OF _ r assms(3) hear fs lo assms(8)] pu by blast
  have "run_all bus_exec (map post_op ps @ [Bus_Read r pos tmp]) v = Inr w"
    using u(1) w(1) by (simp add: run_all_append)
  then show ?thesis using w after_send_still(2) [OF as ok(2)] by auto
qed

text \<open>A vehicle of processes with one endpoint each, on one port.\<close>

definition demo_bus :: bus_sys where
  "demo_bus = \<lparr>ring_of = shm_zero\<lparr>pids := [1, 2, 3, 0, 0, 0, 0, 0]\<rparr>,
     members = map (\<lambda>a. (boot a 9, 0)) [some_mac, some_mac, replicate 6 1]\<rparr>"

lemma demo_bus_ok: "bus_ok demo_bus"
  using ring_ok_zero
  by (simp add: bus_ok_def demo_bus_def member_ok_def boot_ok some_mac_def boot_fields ring_ok_def
      member_pid_def PROCS_def upt_rec numeral_eq_Suc)

lemma demo_bus_simps:
  "length (members demo_bus) = 3" "node_at 0 demo_bus = boot some_mac 9" "node_at 1 demo_bus = boot some_mac 9"
  "node_at 2 demo_bus = boot (replicate 6 1) 9" "nic_at p demo_bus = snd (members demo_bus ! p)"
  by (simp_all add: demo_bus_def node_at_def nic_at_def numeral_2_eq_2)

theorem bus_stays_well_formed_witness:
  "run_all bus_exec [Bus_Send 1 2 0 (text_message [5])] demo_bus = Inl Waits \<or>
     (\<exists>u. run_all bus_exec [Bus_Send 1 2 0 (text_message [5])] demo_bus = Inr u \<and> bus_ok u)"
proof (rule bus_stays_well_formed [OF demo_bus_ok])
  show "run_allowed bus_exec bus_op_ok [Bus_Send 1 2 0 (text_message [5])] demo_bus"
    by (simp add: demo_bus_simps text_message_ok MAX_SIZE_def boot_fields del: One_nat_def split: sum.splits)
qed

theorem bus_delivery_witness:
  "\<exists>u ms. run_all bus_exec [Bus_Send 0 2 0 (text_message [5]), Bus_Send 1 2 0 (text_message [6, 7]),
       Bus_Read 2 2 (replicate frame_size 0)] demo_bus = Inr u \<and> mailbox 0 (node_at 2 u) = ms \<and>
     map msg_bytes ms = [[5], [6, 7]]"
proof -
  let ?ps = "[(0, 2, 0, text_message [5]), (1, 2, 0, text_message [6, 7])] :: bus_post list"
  have nics0: "nic_at 0 demo_bus = 0" "nic_at 1 demo_bus = 0" "nic_at 2 demo_bus = 0"
    by (simp_all add: nic_at_def demo_bus_def numeral_2_eq_2)
  have q: "my_quadrant 2 (boot a p) = 2" for a p by (simp add: my_quadrant_def get_quadrant_def boot_fields)
  have cs: "can_send 9 2 2 0 (text_message bs) (boot a 9) 0" if "bs \<noteq> []" "length bs \<le> 4" for a bs
    using that by (simp add: can_send_def boot_fields free_slots_zero_pool lessThan_empty_iff q text_message_ok
        MAX_SIZE_def) (simp add: text_message_def)
  have ps: "posts_ok 9 2 ?ps demo_bus"
    using cs by (simp add: posts_ok_def demo_bus_simps(1-4) nics0 del: One_nat_def)
  have bl: "backlog r (ring_of demo_bus) = 0" if "r < PROCS" for r
    using that by (simp add: backlog_def demo_bus_def shm_zero_def PROCS_def)
  then have rm: "all_have_room (length ?ps) demo_bus"
    by (simp add: all_have_room_def demo_bus_simps(1) N_def PROCS_def)
  have ch: "can_hear 9 2 2 0 (length ?ps) (node_at 2 demo_bus) (nic_at 2 demo_bus)"
    by (simp add: can_hear_def demo_bus_simps(1-4) nics0 boot_fields free_slots_zero_pool routing_def q)
  obtain u ms where u: "run_all bus_exec (map post_op ?ps @ [Bus_Read 2 2 (replicate frame_size 0)]) demo_bus = Inr u"
      "mailbox 0 (node_at 2 u) = mailbox 0 (node_at 2 demo_bus) @ ms" "list_all2 says ms (letters_of ?ps demo_bus)"
    using bus_delivery [OF demo_bus_ok _ _ ps rm bl ch, of "replicate frame_size 0"]
    by (auto simp: demo_bus_simps(1) PROCS_def)
  have "mailbox 0 (node_at 2 demo_bus) = []"
    by (simp add: demo_bus_simps(1-4) mailbox_def contents_def boot_fields co_new_def)
  moreover have "map msg_bytes ms = [[5], [6, 7]]"
    using u(3) by (auto simp: letters_of_def list_all2_Cons2 says_def letter_from_def)
      (simp_all add: msg_bytes_def text_message_def)
  ultimately show ?thesis using u(1,2) by auto
qed

end
