(* ===== verification/Units.thy ===== *)
theory Units
  imports Wire
begin

text \<open>
  The unit codes of \<open>smart_data.hpp\<close>: the 32-bit layout, the physical quantities, the
  numeric type a code selects, and the port a unit's messages travel on, which is the low half of
  its code.
\<close>

section \<open>Fields\<close>

definition I32 :: u32 where "I32 = push_bit 29 0"
definition I64 :: u32 where "I64 = push_bit 29 1"
definition F32 :: u32 where "F32 = push_bit 29 2"
definition D64 :: u32 where "D64 = push_bit 29 3"
definition NUM :: u32 where "NUM = D64"

definition DIR :: u32 where "DIR = push_bit 27 0"
definition DIV :: u32 where "DIV = push_bit 27 1"
definition LOG :: u32 where "LOG = push_bit 27 2"
definition LOG_DIV :: u32 where "LOG_DIV = push_bit 27 3"
definition MOD :: u32 where "MOD = LOG_DIV"

definition SR_POS :: nat where "SR_POS = 24"
definition RAD_POS :: nat where "RAD_POS = 21"
definition M_POS :: nat where "M_POS = 18"
definition KG_POS :: nat where "KG_POS = 15"
definition S_POS :: nat where "S_POS = 12"
definition A_POS :: nat where "A_POS = 9"
definition K_POS :: nat where "K_POS = 6"
definition MOL_POS :: nat where "MOL_POS = 3"
definition CD_POS :: nat where "CD_POS = 0"

lemmas positions = SR_POS_def RAD_POS_def M_POS_def KG_POS_def S_POS_def A_POS_def K_POS_def
  MOL_POS_def CD_POS_def

text \<open>The masks \<open>SR\<close>, \<open>RAD\<close>, \<open>M\<close>, ... of the code are \<open>field_mask\<close> of the positions.\<close>

definition field_mask :: "nat \<Rightarrow> u32" where "field_mask pos = push_bit pos 7"

definition SI_BIT :: u32 where "SI_BIT = push_bit 31 1"
definition EXP :: int where "EXP = 4"

text \<open>The exponents of \<open>SIUnit\<close>, in the order of its template parameters.\<close>

record exponents =
  e_sr :: int
  e_rad :: int
  e_m :: int
  e_kg :: int
  e_s :: int
  e_a :: int
  e_k :: int
  e_mol :: int
  e_cd :: int

definition exp_field :: "nat \<Rightarrow> int \<Rightarrow> u32" where
  "exp_field pos e = push_bit pos (word_of_int (e + EXP))"

definition si_unit :: "u32 \<Rightarrow> u32 \<Rightarrow> exponents \<Rightarrow> u32" where
  "si_unit num md e =
     SI_BIT OR num OR md OR exp_field SR_POS (e_sr e) OR exp_field RAD_POS (e_rad e) OR
     exp_field M_POS (e_m e) OR exp_field KG_POS (e_kg e) OR exp_field S_POS (e_s e) OR
     exp_field A_POS (e_a e) OR exp_field K_POS (e_k e) OR exp_field MOL_POS (e_mol e) OR
     exp_field CD_POS (e_cd e)"

text \<open>Reading an exponent back through its mask.\<close>

definition get_exp :: "nat \<Rightarrow> u32 \<Rightarrow> int" where
  "get_exp pos u = uint (drop_bit pos (u AND field_mask pos)) - EXP"

definition get_exponents :: "u32 \<Rightarrow> exponents" where
  "get_exponents u = \<lparr>e_sr = get_exp SR_POS u, e_rad = get_exp RAD_POS u, e_m = get_exp M_POS u,
     e_kg = get_exp KG_POS u, e_s = get_exp S_POS u, e_a = get_exp A_POS u, e_k = get_exp K_POS u,
     e_mol = get_exp MOL_POS u, e_cd = get_exp CD_POS u\<rparr>"

definition exps :: "int \<Rightarrow> int \<Rightarrow> int \<Rightarrow> int \<Rightarrow> int \<Rightarrow> int \<Rightarrow> int \<Rightarrow> int \<Rightarrow> int \<Rightarrow> exponents" where
  "exps sr rad m kg s a k mol cd = \<lparr>e_sr = sr, e_rad = rad, e_m = m, e_kg = kg, e_s = s, e_a = a,
     e_k = k, e_mol = mol, e_cd = cd\<rparr>"

definition exps_ok :: "exponents \<Rightarrow> bool" where
  "exps_ok e \<longleftrightarrow> (\<forall>x\<in>set [e_sr e, e_rad e, e_m e, e_kg e, e_s e, e_a e, e_k e, e_mol e, e_cd e].
     -4 \<le> x \<and> x \<le> 3)"

section \<open>Quantities\<close>

datatype quantity =
    Acceleration | Angle | Angular_Velocity | Area | Current | Force | Humidity | Length
  | Luminous_Intensity | Mass | Power | Pressure | Velocity | Sound_Intensity | Temperature | Time
  | Volume | Voltage | Water_Flow | Frequency | Ratio | Percent

abbreviation "Electric_Current \<equiv> Current"
abbreviation "Speed \<equiv> Velocity"

fun unit_code :: "quantity \<Rightarrow> u32" where
  "unit_code Acceleration = si_unit D64 DIR (exps 0 0 1 0 (-2) 0 0 0 0)"
| "unit_code Angle = si_unit D64 DIR (exps 0 1 0 0 0 0 0 0 0)"
| "unit_code Angular_Velocity = si_unit D64 DIR (exps 0 1 0 0 (-1) 0 0 0 0)"
| "unit_code Area = si_unit D64 DIR (exps 0 0 2 0 0 0 0 0 0)"
| "unit_code Current = si_unit D64 DIR (exps 0 0 0 0 0 1 0 0 0)"
| "unit_code Force = si_unit D64 DIR (exps 0 0 1 1 (-2) 0 0 0 0)"
| "unit_code Humidity = si_unit D64 DIR (exps 0 0 (-3) 1 0 0 0 0 0)"
| "unit_code Length = si_unit D64 DIR (exps 0 0 1 0 0 0 0 0 0)"
| "unit_code Luminous_Intensity = si_unit D64 DIR (exps 0 0 0 0 0 0 0 0 1)"
| "unit_code Mass = si_unit D64 DIR (exps 0 0 0 1 0 0 0 0 0)"
| "unit_code Power = si_unit D64 DIR (exps 0 0 2 1 (-3) 0 0 0 0)"
| "unit_code Pressure = si_unit D64 DIR (exps 0 0 (-1) 1 (-2) 0 0 0 0)"
| "unit_code Velocity = si_unit D64 DIR (exps 0 0 1 0 (-1) 0 0 0 0)"
| "unit_code Sound_Intensity = si_unit D64 DIR (exps 0 0 0 1 (-3) 0 0 0 0)"
| "unit_code Temperature = si_unit D64 DIR (exps 0 0 0 0 0 0 1 0 0)"
| "unit_code Time = si_unit D64 DIR (exps 0 0 0 0 1 0 0 0 0)"
| "unit_code Volume = si_unit D64 DIR (exps 0 0 3 0 0 0 0 0 0)"
| "unit_code Voltage = si_unit D64 DIR (exps 0 0 2 1 (-3) (-1) 0 0 0)"
| "unit_code Water_Flow = si_unit D64 DIR (exps 0 0 3 0 (-1) 0 0 0 0)"
| "unit_code Frequency = si_unit D64 DIR (exps 0 0 0 0 (-1) 0 0 0 0)"
| "unit_code Ratio = si_unit D64 LOG_DIV (exps (-4) (-4) (-4) (-4) (-4) (-4) (-4) (-4) (-4))"
| "unit_code Percent = si_unit D64 LOG_DIV (exps (-4) (-4) (-4) (-4) (-4) (-4) (-4) (-4) (-3))"

definition quantities :: "quantity list" where
  "quantities = [Acceleration, Angle, Angular_Velocity, Area, Current, Force, Humidity, Length,
     Luminous_Intensity, Mass, Power, Pressure, Velocity, Sound_Intensity, Temperature, Time, Volume,
     Voltage, Water_Flow, Frequency, Ratio, Percent]"

text \<open>The list holds every quantity, so properties of all of them can be evaluated.\<close>

lemma all_quantities: "UNIV = set quantities" and distinct_quantities: "distinct quantities"
proof -
  have "q \<in> set quantities" for q by (cases q) (simp_all add: quantities_def)
  then show "UNIV = set quantities" by blast
  show "distinct quantities" by (simp add: quantities_def)
qed

instantiation quantity :: enum
begin

definition enum_quantity :: "quantity list" where "enum_quantity = quantities"
definition enum_all_quantity :: "(quantity \<Rightarrow> bool) \<Rightarrow> bool" where
  "enum_all_quantity p = list_all p quantities"
definition enum_ex_quantity :: "(quantity \<Rightarrow> bool) \<Rightarrow> bool" where
  "enum_ex_quantity p = list_ex p quantities"

instance
  by standard
    (simp_all add: enum_quantity_def enum_all_quantity_def enum_ex_quantity_def list_all_iff list_ex_iff
      distinct_quantities flip: all_quantities)

end

text \<open>\<open>Get<UNIT>::Type\<close>.\<close>

datatype num_type = T_int32 | T_int64 | T_float | T_double | T_void

definition get_type :: "u32 \<Rightarrow> num_type" where
  "get_type u =
     (if u AND NUM = I32 then T_int32 else if u AND NUM = I64 then T_int64
      else if u AND NUM = F32 then T_float else if u AND NUM = D64 then T_double else T_void)"

text \<open>\<open>static_cast<Protocol::Port>(UNIT)\<close>.\<close>

definition unit_port :: "u32 \<Rightarrow> u16" where
  "unit_port u = ucast u"

section \<open>Packing and unpacking\<close>

lemma field_mask_drop: "drop_bit pos (u AND field_mask pos) = take_bit 3 (drop_bit pos u)"
proof -
  have "(7 :: u32) = mask 3" by (simp add: mask_eq_exp_minus_1)
  then have "field_mask pos = push_bit pos (mask 3)" by (simp only: field_mask_def)
  then show ?thesis
    by (intro bit_word_eqI) (auto simp: bit_simps simp del: mask_numeral dest: bit_imp_le_length)
qed

lemma exp_take_bit:
  assumes "-4 \<le> x" and "x \<le> 3"
  shows "word_of_int (x + EXP) = take_bit 3 (word_of_int (x + EXP) :: u32)"
    and "uint (take_bit 3 (word_of_int (x + EXP) :: u32)) = x + EXP"
proof -
  have "x + EXP = take_bit 3 (x + EXP)" using assms by (simp add: EXP_def take_bit_int_eq_self)
  then show "word_of_int (x + EXP) = take_bit 3 (word_of_int (x + EXP) :: u32)"
    by (metis take_bit_of_int)
  moreover have "take_bit LENGTH(32) (x + EXP) = x + EXP"
    using assms by (simp add: EXP_def take_bit_int_eq_self)
  then have "uint (word_of_int (x + EXP) :: u32) = x + EXP"
    by (simp only: uint_word_of_int_eq)
  ultimately show "uint (take_bit 3 (word_of_int (x + EXP) :: u32)) = x + EXP" by simp
qed

text \<open>Eleven disjoint fields put together; each is read back.\<close>

definition pack :: "u32 \<Rightarrow> u32 \<Rightarrow> u32 list \<Rightarrow> u32" where
  "pack num md fs = SI_BIT OR push_bit 29 (take_bit 2 num) OR push_bit 27 (take_bit 2 md) OR
     push_bit 24 (take_bit 3 (fs ! 0)) OR push_bit 21 (take_bit 3 (fs ! 1)) OR
     push_bit 18 (take_bit 3 (fs ! 2)) OR push_bit 15 (take_bit 3 (fs ! 3)) OR
     push_bit 12 (take_bit 3 (fs ! 4)) OR push_bit 9 (take_bit 3 (fs ! 5)) OR
     push_bit 6 (take_bit 3 (fs ! 6)) OR push_bit 3 (take_bit 3 (fs ! 7)) OR
     push_bit 0 (take_bit 3 (fs ! 8))"

lemma bit_SI_BIT: "bit SI_BIT n \<longleftrightarrow> n = 31"
  unfolding SI_BIT_def bit_push_bit_iff by (auto simp: bit_1_iff)

lemmas pack_bits = pack_def bit_SI_BIT bit_simps

lemma field_same: "p + w \<le> 32 \<Longrightarrow> take_bit w (drop_bit p (push_bit p (take_bit w x))) = take_bit w (x :: u32)"
  by (rule bit_word_eqI) (auto simp: bit_simps)

lemma field_below: "q + v \<le> p \<Longrightarrow> take_bit w (drop_bit p (push_bit q (take_bit v x))) = (0 :: u32)"
  by (rule bit_word_eqI) (auto simp: bit_simps)

lemma field_above: "p + w \<le> q \<Longrightarrow> take_bit w (drop_bit p (push_bit q x)) = (0 :: u32)"
  by (rule bit_word_eqI) (auto simp: bit_simps)

lemmas field_simps = drop_bit_or take_bit_or field_same field_below field_above

lemma pack_fields:
  "take_bit 3 (drop_bit 24 (pack num md fs)) = take_bit 3 (fs ! 0)"
  "take_bit 3 (drop_bit 21 (pack num md fs)) = take_bit 3 (fs ! 1)"
  "take_bit 3 (drop_bit 18 (pack num md fs)) = take_bit 3 (fs ! 2)"
  "take_bit 3 (drop_bit 15 (pack num md fs)) = take_bit 3 (fs ! 3)"
  "take_bit 3 (drop_bit 12 (pack num md fs)) = take_bit 3 (fs ! 4)"
  "take_bit 3 (drop_bit 9 (pack num md fs)) = take_bit 3 (fs ! 5)"
  "take_bit 3 (drop_bit 6 (pack num md fs)) = take_bit 3 (fs ! 6)"
  "take_bit 3 (drop_bit 3 (pack num md fs)) = take_bit 3 (fs ! 7)"
  "take_bit 3 (drop_bit 0 (pack num md fs)) = take_bit 3 (fs ! 8)"
  "take_bit 2 (drop_bit 29 (pack num md fs)) = take_bit 2 num"
  "take_bit 2 (drop_bit 27 (pack num md fs)) = take_bit 2 md"
  unfolding pack_def SI_BIT_def by (simp_all only: field_simps) simp_all

lemma and_field_mask: "u AND push_bit p (mask w) = push_bit p (take_bit w (drop_bit p (u :: u32)))"
  by (rule bit_word_eqI) (auto simp: bit_simps simp del: mask_numeral)

lemma pack_num: "pack num md fs AND push_bit 29 (mask 2) = push_bit 29 (take_bit 2 num)"
  by (simp only: and_field_mask pack_fields)

lemma pack_mod: "pack num md fs AND push_bit 27 (mask 2) = push_bit 27 (take_bit 2 md)"
  by (simp only: and_field_mask pack_fields)

lemma two_bit_masks: "NUM = push_bit 29 (mask 2)" "MOD = push_bit 27 (mask 2)"
  by (simp_all add: NUM_def D64_def MOD_def LOG_DIV_def mask_eq_exp_minus_1)

lemma get_exp_field:
  assumes "take_bit 3 (drop_bit pos u) = take_bit 3 (word_of_int (x + EXP))" and "-4 \<le> x" and "x \<le> 3"
  shows "get_exp pos u = x"
proof -
  have "get_exp pos u = uint (take_bit 3 (drop_bit pos u)) - EXP"
    by (simp only: get_exp_def field_mask_drop)
  also have "\<dots> = x" by (simp only: assms(1) exp_take_bit(2) [OF assms(2,3)])
  finally show ?thesis .
qed

lemma si_unit_pack:
  assumes "exps_ok e" and "num = push_bit 29 (take_bit 2 n)" and "md = push_bit 27 (take_bit 2 k)"
  shows "si_unit num md e = pack n k (map (\<lambda>x. word_of_int (x + EXP))
      [e_sr e, e_rad e, e_m e, e_kg e, e_s e, e_a e, e_k e, e_mol e, e_cd e])"
proof -
  have "exp_field pos x = push_bit pos (take_bit 3 (word_of_int (x + EXP)))" if "-4 \<le> x" "x \<le> 3" for pos x
    using exp_take_bit(1) [OF that] by (simp only: exp_field_def)
  then show ?thesis
    using assms by (simp add: si_unit_def pack_def exps_ok_def positions or.assoc)
qed

text \<open>
  A unit code is read back through the masks of the class: for exponents between -4 and 3 every
  exponent, the numeric type and the mode are recovered and bit 31 is set.
\<close>

theorem unit_fields_roundtrip:
  assumes "exps_ok e" and "num = I32 \<or> num = I64 \<or> num = F32 \<or> num = D64"
    and "md = DIR \<or> md = DIV \<or> md = LOG \<or> md = LOG_DIV"
  shows "get_exponents (si_unit num md e) = e \<and> si_unit num md e AND NUM = num \<and>
    si_unit num md e AND MOD = md \<and> bit (si_unit num md e) 31"
proof -
  have t: "take_bit 2 (0 :: u32) = 0" "take_bit 2 (1 :: u32) = 1" "take_bit 2 (2 :: u32) = 2"
    "take_bit 2 (3 :: u32) = 3" by simp_all
  obtain n where n: "num = push_bit 29 (take_bit 2 n)"
    using assms(2) t unfolding I32_def I64_def F32_def D64_def by metis
  obtain k where k: "md = push_bit 27 (take_bit 2 k)"
    using assms(3) t unfolding DIR_def DIV_def LOG_def LOG_DIV_def by metis
  note p = si_unit_pack [OF assms(1) n k]
  have "get_exponents (si_unit num md e) =
      \<lparr>e_sr = e_sr e, e_rad = e_rad e, e_m = e_m e, e_kg = e_kg e, e_s = e_s e, e_a = e_a e, e_k = e_k e,
       e_mol = e_mol e, e_cd = e_cd e\<rparr>"
    unfolding get_exponents_def p positions using assms(1)
    by (simp only: exponents.ext_inject, intro conjI get_exp_field)
      (simp_all add: pack_fields pack_fields(9) [simplified] exps_ok_def)
  then have "get_exponents (si_unit num md e) = e" by simp
  moreover have "bit (si_unit num md e) 31" by (simp add: p pack_bits)
  moreover have "si_unit num md e AND NUM = num" "si_unit num md e AND MOD = md"
    by (simp_all only: p two_bit_masks pack_num pack_mod n [symmetric] k [symmetric])
  ultimately show ?thesis by blast
qed

theorem unit_fields_roundtrip_witness:
  "get_exponents (si_unit D64 LOG_DIV (exps (-4) 3 2 1 0 (-1) (-2) (-3) (-4))) =
     exps (-4) 3 2 1 0 (-1) (-2) (-3) (-4)"
  using unit_fields_roundtrip [of "exps (-4) 3 2 1 0 (-1) (-2) (-3) (-4)" D64 LOG_DIV]
  by (simp add: exps_ok_def exps_def)

section \<open>Codes and ports\<close>

lemma unit_codes:
  "map unit_code quantities = [3835046180, 3836889380, 3836885284, 3835316516, 3834792740, 3835078948,
     3834038564, 3835054372, 3834792229, 3834824996, 3835336996, 3834554660, 3835050276, 3834812708,
     3834792292, 3834796324, 3835578660, 3835336484, 3835574564, 3834788132, 4160749568, 4160749569]"
  by (simp add: quantities_def si_unit_def exps_def exp_field_def positions EXP_def SI_BIT_def D64_def
      DIR_def LOG_DIV_def)

text \<open>The quantities some component of the program produces or asks for.\<close>

definition quantities_in_use :: "quantity list" where
  "quantities_in_use = [Acceleration, Temperature, Velocity, Pressure, Current, Voltage]"

definition reserved_ports :: "u16 list" where
  "reserved_ports = [0, PORT_GATEWAY, PORT_SENSOR, PORT_ACTUATOR, PORT_POWERTRAIN, PORT_TIME_CLIENT, PORT_RSU]"

lemmas unit_code_simps = si_unit_def exps_def exp_field_def positions EXP_def SI_BIT_def D64_def
  DIR_def LOG_DIV_def

text \<open>
  All the quantities have different codes and select \<open>double\<close>; the six in use have
  different ports, none of them reserved.
\<close>

theorem units_in_use_have_own_ports:
  "inj unit_code \<and> (\<forall>q. get_type (unit_code q) = T_double) \<and>
   distinct (map (unit_port \<circ> unit_code) quantities_in_use) \<and>
   set (map (unit_port \<circ> unit_code) quantities_in_use) \<inter> set reserved_ports = {}"
proof (intro conjI)
  have "distinct (map unit_code quantities)" unfolding unit_codes by simp
  then show "inj unit_code" by (simp add: distinct_map all_quantities)
  have "get_type u = T_double" if "u \<in> set (map unit_code quantities)" for u
    using that unfolding unit_codes by (auto simp: get_type_def NUM_def D64_def I32_def I64_def F32_def)
  then show "\<forall>q. get_type (unit_code q) = T_double" by (simp flip: all_quantities)
  have ports: "map (unit_port \<circ> unit_code) quantities_in_use = [10532, 18788, 14628, 43300, 19236, 38692]"
    by (simp add: quantities_in_use_def unit_port_def unit_code_simps)
  show "distinct (map (unit_port \<circ> unit_code) quantities_in_use)" unfolding ports by simp
  show "set (map (unit_port \<circ> unit_code) quantities_in_use) \<inter> set reserved_ports = {}"
    unfolding ports by (simp add: reserved_ports_def PORT_GATEWAY_def PORT_SENSOR_def PORT_ACTUATOR_def
        PORT_POWERTRAIN_def PORT_TIME_CLIENT_def PORT_RSU_def)
qed

text \<open>
  The port keeps only the low 16 bits of the code, so the exponents of the metre and the
  radian and two bits of the kilogram's are lost: length, area, volume and angle share a port, as do
  velocity, angular velocity, water flow and frequency, force and pressure, power and sound
  intensity, mass and humidity; and the port of a ratio is 0, the broadcast port.
\<close>

theorem unit_ports_collide:
  "unit_port (unit_code Length) = unit_port (unit_code Area) \<and>
   unit_port (unit_code Area) = unit_port (unit_code Volume) \<and>
   unit_port (unit_code Volume) = unit_port (unit_code Angle) \<and>
   unit_port (unit_code Velocity) = unit_port (unit_code Angular_Velocity) \<and>
   unit_port (unit_code Velocity) = unit_port (unit_code Water_Flow) \<and>
   unit_port (unit_code Velocity) = unit_port (unit_code Frequency) \<and>
   unit_port (unit_code Force) = unit_port (unit_code Pressure) \<and>
   unit_port (unit_code Power) = unit_port (unit_code Sound_Intensity) \<and>
   unit_port (unit_code Mass) = unit_port (unit_code Humidity) \<and>
   unit_port (unit_code Ratio) = 0"
  by (simp add: unit_port_def unit_code_simps)

end

