(* ===== verification/Time_Sync.thy ===== *)
theory Time_Sync
  imports Wire "HOL-Library.Signed_Division"
begin

text \<open>
  Clock synchronisation: the road side unit's handler (\<open>RSU.hpp\<close>, the master) and the
  vehicle's \<open>TimeClient\<close> (\<open>time_client.hpp\<close>, the slave). What the client receives is
  the list of results of its calls of \<open>receive\<close>; the readings of the clock are arguments.
  Times are nanoseconds; signed 64-bit arithmetic on values from the network is checked.
\<close>

section \<open>Time\<close>

type_synonym timespec = "int \<times> int"   \<comment> \<open>\<open>tv_sec\<close> and \<open>tv_nsec\<close>\<close>

definition ns_of :: "timespec \<Rightarrow> int" where
  "ns_of t = fst t * 1000000000 + snd t"

text \<open>The unsigned computation of the RSU wraps.\<close>

definition ns_u64 :: "timespec \<Rightarrow> u64" where
  "ns_u64 t = word_of_int (fst t) * 1000000000 + word_of_int (snd t)"

definition chk :: "int \<Rightarrow> runtime_error + int" where
  "chk x = (if - (2 ^ 63) \<le> x \<and> x < 2 ^ 63 then Inr x else Inl Signed_Overflow)"

lemma chk_ok: "\<bar>x\<bar> < 2 ^ 63 \<Longrightarrow> chk x = Inr x"
  by (simp add: chk_def abs_less_iff)

lemma chk_Inr: "chk x = Inr y \<Longrightarrow> y = x"
  by (simp add: chk_def split: if_splits)

text \<open>C++ division truncates: \<open>sdiv\<close> and \<open>smod\<close>.\<close>

definition ptp_offset :: "int \<Rightarrow> int \<Rightarrow> int \<Rightarrow> int \<Rightarrow> runtime_error + int" where
  "ptp_offset t1 t2 t3 t4 =
     and_then (chk (t2 - t1)) (\<lambda>a. and_then (chk (t3 - t4)) (\<lambda>b.
       and_then (chk (a + b)) (\<lambda>c. Inr (c sdiv 2))))"

definition corrected_ns :: "int \<Rightarrow> int \<Rightarrow> runtime_error + int" where
  "corrected_ns now_ns offset =
     and_then (chk (- offset)) (\<lambda>correction. chk (now_ns + correction))"

definition to_timespec :: "int \<Rightarrow> timespec" where
  "to_timespec new_ns =
     (let sec = new_ns sdiv 1000000000; nsec = new_ns smod 1000000000 in
      if nsec < 0 then (sec - 1, nsec + 1000000000) else (sec, nsec))"

lemma to_timespec_eq: "to_timespec n = (n div 1000000000, n mod 1000000000)"
proof (cases "0 \<le> n")
  case True
  then show ?thesis
    by (auto simp: to_timespec_def signed_divide_int_def signed_modulo_int_def Let_def sgn_if)
next
  case False
  define m where "m = - n"
  have "0 < m" "n = - m" using False by (simp_all add: m_def)
  then show ?thesis
    by (auto simp: to_timespec_def signed_divide_int_def signed_modulo_int_def Let_def sgn_if
        zdiv_zminus1_eq_if zmod_zminus1_eq_if)
qed

lemma ns_of_to_timespec: "ns_of (to_timespec n) = n"
  by (simp add: to_timespec_eq ns_of_def)

lemma to_timespec_range: "0 \<le> snd (to_timespec n) \<and> snd (to_timespec n) < 1000000000"
  by (simp add: to_timespec_eq)

section \<open>PTP messages\<close>

definition ptp_message :: "message \<Rightarrow> ptp_frame \<Rightarrow> message" where
  "ptp_message junk p =
     set_size sizeof_ptp ((new_message junk)\<lparr>m_data := poke 0 (enc_ptp p) (m_data (new_message junk))\<rparr>)"

text \<open>\<open>m\<close> is a message whose valid bytes are the frame \<open>p\<close>.\<close>

definition carries :: "message \<Rightarrow> ptp_frame \<Rightarrow> bool" where
  "carries m p \<longleftrightarrow> message_ok m \<and> msg_bytes m = enc_ptp p"

lemma length_enc_ptp [simp]: "length (enc_ptp p) = 13"
  using ptp_codec.enc_length [of p] by (simp add: sizeof_ptp_def)

lemma dec_ptp_prefix:
  assumes "take 13 d = enc_ptp p"
  shows "dec_ptp d = p"
proof -
  have "13 \<le> length d" using assms length_enc_ptp [of p] by (metis length_take min.absorb_iff2 nat_le_linear)
  then have "d ! 0 = take 13 d ! 0" "peek 1 8 d = peek 1 8 (take 13 d)" "peek 9 4 d = peek 9 4 (take 13 d)"
    by (simp_all add: peek_take)
  then have "dec_ptp d = dec_ptp (take 13 d)" by (simp only: dec_ptp_def)
  then show ?thesis using ptp_codec.dec_enc [of p] assms by simp
qed

lemma carries_simps:
  assumes "carries m p"
  shows "m_size m = 13" and "dec_ptp (m_data m) = p"
proof -
  have l: "length (msg_bytes m) = 13" using assms by (simp add: carries_def)
  moreover have "m_size m \<le> length (m_data m)" using assms by (simp add: carries_def message_ok_def)
  ultimately show sz: "m_size m = 13" by (simp add: msg_bytes_def)
  then have "take 13 (m_data m) = enc_ptp p" using assms by (simp add: carries_def msg_bytes_def)
  then show "dec_ptp (m_data m) = p" by (rule dec_ptp_prefix)
qed

lemma carries_ptp_message: "carries (ptp_message junk p) p"
  by (simp add: carries_def ptp_message_def message_ok_def msg_bytes_def set_size_def new_message_def
      sizeof_ptp_def MAX_SIZE_def poke_def)

section \<open>The RSU\<close>

text \<open>
  The answer to one received message, with its destination. \<open>receive_time\<close> is read after the
  message was received, \<open>now\<close> when the answer to type 0 is built.
\<close>

definition rsu_reply :: "timespec \<Rightarrow> timespec \<Rightarrow> message \<Rightarrow> message \<Rightarrow> (message \<times> mac) option" where
  "rsu_reply receive_time now junk msg =
     (if m_size msg = sizeof_ptp then
        let ptp = dec_ptp (m_data msg) in
        if message_type ptp = 0 then
          Some (ptp_message junk \<lparr>message_type = 1, timestamp = ns_u64 now, seq = seq ptp\<rparr>, m_src msg)
        else if message_type ptp = 2 then
          Some (ptp_message junk \<lparr>message_type = 3, timestamp = ns_u64 receive_time, seq = seq ptp\<rparr>,
                m_src msg)
        else None
      else None)"

section \<open>The time client\<close>

record time_client =
  tc_seq :: u32
  tc_seq_base :: u32

record stats =
  ptp_sync_ok :: int
  ptp_sync_timeout :: int
  last_offset_ns :: int
  first_quadrant :: int
  last_quadrant :: int
  quadrant_count :: "int list"

definition stats_zero :: stats where
  "stats_zero = \<lparr>ptp_sync_ok = 0, ptp_sync_timeout = 0, last_offset_ns = 0, first_quadrant = -1,
     last_quadrant = -1, quadrant_count = [0, 0, 0, 0]\<rparr>"

definition tc_new :: "mac \<Rightarrow> time_client" where
  "tc_new mac = (let base = push_bit 24 (ucast (mac ! 5)) in \<lparr>tc_seq = base, tc_seq_base = base\<rparr>)"

definition next_seq :: "time_client \<Rightarrow> time_client" where
  "next_seq c = c\<lparr>tc_seq := tc_seq_base c OR ((tc_seq c + 1) AND 0x00FFFFFF)\<rparr>"

text \<open>
  The two waiting loops: results of \<open>receive\<close> are read until one is the expected answer or a
  timeout. \<open>Waiting\<close> means that the loop has read them all and goes on.
\<close>

datatype await = Waiting | Timed_Out | Got ptp_frame message

fun await_reply :: "byte \<Rightarrow> u32 \<Rightarrow> (bool \<times> message) list \<Rightarrow> await" where
  "await_reply ty sq [] = Waiting"
| "await_reply ty sq ((got, m) # rs) =
     (if \<not> got then Timed_Out
      else if m_size m \<noteq> sizeof_ptp then await_reply ty sq rs
      else let r = dec_ptp (m_data m) in
        if seq r = sq \<and> message_type r = ty then Got r m else await_reply ty sq rs)"

record sync_env =
  sync_results :: "(bool \<times> message) list"    \<comment> \<open>receives after Sync\_Req\<close>
  clock_t2 :: timespec
  clock_t3 :: timespec
  delay_results :: "(bool \<times> message) list"   \<comment> \<open>receives after Delay\_Req\<close>
  clock_now :: timespec
  sync_junk :: message

record sync_result =
  sr_sent :: "message list"
  sr_clock :: "timespec option"      \<comment> \<open>the argument of \<open>clock_settime\<close>\<close>
  sr_returned :: bool
  sr_client :: time_client
  sr_stats :: stats

definition sync_time :: "mac \<Rightarrow> sync_env \<Rightarrow> time_client \<Rightarrow> stats \<Rightarrow> runtime_error + sync_result" where
  "sync_time mac env c0 st =
     (let c = next_seq c0;
          req = set_src mac (ptp_message (sync_junk env) \<lparr>message_type = 0, timestamp = 0, seq = tc_seq c\<rparr>);
          dreq = set_src mac (ptp_message (sync_junk env) \<lparr>message_type = 2, timestamp = 0, seq = tc_seq c\<rparr>);
          timeout = st\<lparr>ptp_sync_timeout := ptp_sync_timeout st + 1\<rparr>
      in case await_reply 1 (tc_seq c) (sync_results env) of
           Waiting \<Rightarrow> Inr \<lparr>sr_sent = [req], sr_clock = None, sr_returned = False, sr_client = c, sr_stats = st\<rparr>
         | Timed_Out \<Rightarrow> Inr \<lparr>sr_sent = [req], sr_clock = None, sr_returned = True, sr_client = c, sr_stats = timeout\<rparr>
         | Got r1 m1 \<Rightarrow>
           (let t2 = ns_of (clock_t2 env); t1 = sint (timestamp r1); t3 = ns_of (clock_t3 env)
            in case await_reply 3 (tc_seq c) (delay_results env) of
                 Waiting \<Rightarrow> Inr \<lparr>sr_sent = [req, dreq], sr_clock = None, sr_returned = False, sr_client = c, sr_stats = st\<rparr>
               | Timed_Out \<Rightarrow> Inr \<lparr>sr_sent = [req, dreq], sr_clock = None, sr_returned = True, sr_client = c, sr_stats = timeout\<rparr>
               | Got r4 m4 \<Rightarrow>
                 and_then (ptp_offset t1 t2 t3 (sint (timestamp r4))) (\<lambda>offset.
                 and_then (corrected_ns (ns_of (clock_now env)) offset) (\<lambda>new_ns.
                   Inr \<lparr>sr_sent = [req, dreq], sr_clock = Some (to_timespec new_ns), sr_returned = True,
                        sr_client = c,
                        sr_stats = st\<lparr>last_offset_ns := offset, ptp_sync_ok := ptp_sync_ok st + 1\<rparr>\<rparr>))))"

section \<open>The client's loop\<close>

text \<open>Position statistics: the counter array has four entries.\<close>

definition count_quadrant :: "byte \<Rightarrow> stats \<Rightarrow> runtime_error + stats" where
  "count_quadrant q st =
     (let st1 = (if first_quadrant st = -1 then st\<lparr>first_quadrant := uint q\<rparr> else st)\<lparr>last_quadrant := uint q\<rparr>
      in if unat q < length (quadrant_count st1)
         then Inr (st1\<lparr>quadrant_count := (quadrant_count st1)[unat q := quadrant_count st1 ! unat q + 1]\<rparr>)
         else Inl Out_Of_Bounds)"

definition next_interval :: "int \<Rightarrow> int \<Rightarrow> int" where
  "next_interval delta interval_ms =
     (if delta < 1000000 then min (interval_ms * 2) 1000 else max (interval_ms sdiv 2) 500)"

record tc_loop =
  l_last_offset :: int
  l_interval :: int
  l_client :: time_client
  l_stats :: stats

definition tc_loop_start :: "mac \<Rightarrow> tc_loop" where
  "tc_loop_start mac = \<lparr>l_last_offset = 0, l_interval = 500, l_client = tc_new mac, l_stats = stats_zero\<rparr>"

text \<open>
  What follows \<open>syncTime\<close> in a turn of \<open>run\<close>, and the turn; \<open>None\<close> when \<open>syncTime\<close> is
  still waiting.
\<close>

definition tc_adapt :: "tc_loop \<Rightarrow> sync_result \<Rightarrow> runtime_error + tc_loop option" where
  "tc_adapt l r =
     (if \<not> sr_returned r then Inr None
      else and_then (chk (last_offset_ns (sr_stats r) - l_last_offset l)) (\<lambda>d.
        and_then (chk \<bar>d\<bar>) (\<lambda>delta.
        Inr (Some \<lparr>l_last_offset = last_offset_ns (sr_stats r),
                   l_interval = next_interval delta (l_interval l),
                   l_client = sr_client r, l_stats = sr_stats r\<rparr>))))"

definition tc_turn :: "mac \<Rightarrow> byte \<Rightarrow> sync_env \<Rightarrow> tc_loop \<Rightarrow> runtime_error + tc_loop option" where
  "tc_turn mac q env l =
     and_then (count_quadrant q (l_stats l)) (\<lambda>st.
     and_then (sync_time mac env (l_client l) st) (tc_adapt l))"

fun tc_run :: "mac \<Rightarrow> (byte \<times> sync_env) list \<Rightarrow> tc_loop \<Rightarrow> runtime_error + tc_loop option" where
  "tc_run mac [] l = Inr (Some l)"
| "tc_run mac ((q, env) # turns) l =
     and_then (tc_turn mac q env l) (\<lambda>r. case r of None \<Rightarrow> Inr None | Some l' \<Rightarrow> tc_run mac turns l')"

section \<open>Sequence numbers\<close>

lemma mask_24: "(x AND 0x00FFFFFF) = take_bit 24 (x :: u32)"
  using take_bit_eq_mask [of 24 x] by (simp add: mask_eq_exp_minus_1)

lemma take_bit_24_add: "take_bit 24 (take_bit 24 a + b) = take_bit 24 (a + b :: u32)"
  by transfer (simp add: take_bit_eq_mod mod_simps)

lemma next_seq_iterate:
  "tc_seq ((next_seq ^^ i) (tc_new mac)) =
     push_bit 24 (ucast (mac ! 5)) OR take_bit 24 (word_of_nat i) \<and>
   tc_seq_base ((next_seq ^^ i) (tc_new mac)) = push_bit 24 (ucast (mac ! 5))"
proof (induction i)
  case 0
  then show ?case by (simp add: tc_new_def Let_def)
next
  case (Suc i)
  let ?hi = "push_bit 24 (ucast (mac ! 5)) :: u32"
  have "take_bit 24 (?hi OR take_bit 24 (word_of_nat i)) = take_bit 24 (word_of_nat i :: u32)"
    by (rule bit_word_eqI) (auto simp: bit_simps)
  then have "take_bit 24 ((?hi OR take_bit 24 (word_of_nat i)) + 1) = take_bit 24 (word_of_nat i + 1)"
    by (metis take_bit_24_add)
  then have "take_bit 24 ((?hi OR take_bit 24 (word_of_nat i)) + 1) = take_bit 24 (word_of_nat (Suc i))"
    by (simp add: add.commute)
  with Suc show ?case by (simp add: next_seq_def mask_24)
qed

text \<open>
  Two synchronisations use the same sequence number exactly when the two vehicles' MAC addresses
  end in the same byte and the attempts' numbers agree modulo 2^24, so an answer to another vehicle
  or to a recent attempt is never taken for the expected one.
\<close>

theorem seq_collision:
  "tc_seq ((next_seq ^^ i) (tc_new a)) = tc_seq ((next_seq ^^ j) (tc_new b)) \<longleftrightarrow>
     a ! 5 = b ! 5 \<and> i mod 2 ^ 24 = j mod 2 ^ 24"
proof -
  have split: "(push_bit 24 (ucast x) OR take_bit 24 k :: u32) = push_bit 24 (ucast y) OR take_bit 24 l \<longleftrightarrow>
      x = y \<and> take_bit 24 k = take_bit 24 l" for x y :: byte and k l
  proof
    assume eq: "push_bit 24 (ucast x) OR take_bit 24 k = push_bit 24 (ucast y) OR take_bit 24 l"
    have lo: "take_bit 24 (push_bit 24 (ucast z) OR take_bit 24 m :: u32) = take_bit 24 m" for z :: byte and m
      by (rule bit_word_eqI) (auto simp: bit_simps)
    have hi: "ucast (drop_bit 24 (push_bit 24 (ucast z) OR take_bit 24 m :: u32)) = z" for z :: byte and m
      by (rule bit_word_eqI) (auto simp: bit_simps)
    show "x = y \<and> take_bit 24 k = take_bit 24 l" using eq lo hi by metis
  qed auto
  have "take_bit 24 (word_of_nat i :: u32) = take_bit 24 (word_of_nat j) \<longleftrightarrow> i mod 2 ^ 24 = j mod 2 ^ 24"
  proof -
    have "take_bit 24 (word_of_nat k :: u32) = word_of_nat (k mod 2 ^ 24)" for k
      by (simp add: take_bit_of_nat) (simp add: take_bit_eq_mod)
    moreover have "unat (word_of_nat (k mod 2 ^ 24) :: u32) = k mod 2 ^ 24" for k
      by (simp add: unat_of_nat)
    ultimately show ?thesis by metis
  qed
  then show ?thesis using split by (simp add: next_seq_iterate)
qed

section \<open>Waiting\<close>

text \<open>A received message that is not the answer of type \<open>ty\<close> to \<open>sq\<close>.\<close>

definition unrelated :: "byte \<Rightarrow> u32 \<Rightarrow> bool \<times> message \<Rightarrow> bool" where
  "unrelated ty sq = (\<lambda>(ok, m). ok \<and> (m_size m \<noteq> sizeof_ptp \<or>
     seq (dec_ptp (m_data m)) \<noteq> sq \<or> message_type (dec_ptp (m_data m)) \<noteq> ty))"

lemma await_unrelated:
  "list_all (unrelated ty sq) rs \<Longrightarrow> await_reply ty sq (rs @ rs') = await_reply ty sq rs'"
  by (induction rs) (auto simp: unrelated_def Let_def)

lemma await_answer:
  assumes "list_all (unrelated ty sq) rs" and "carries m p" and "seq p = sq" and "message_type p = ty"
  shows "await_reply ty sq (rs @ (True, m) # rs') = Got p m"
  using assms carries_simps [OF assms(2)] by (simp add: await_unrelated sizeof_ptp_def)

text \<open>
  The 100 ms limit bounds one \<open>receive\<close>, not the wait: as long as some other message
  arrives in time, however many, \<open>syncTime\<close> neither returns nor counts a timeout nor touches
  the clock.
\<close>

theorem traffic_prolongs_wait:
  assumes "list_all (unrelated 1 (tc_seq (next_seq c))) (sync_results env)"
  shows "\<exists>r. sync_time mac env c st = Inr r \<and> \<not> sr_returned r \<and> sr_clock r = None \<and> sr_stats r = st"
  using await_unrelated [OF assms, of "[]"] by (simp add: sync_time_def Let_def)

text \<open>An environment in which nothing is received, and one with a message for somebody else.\<close>

definition some_vehicle :: mac where "some_vehicle = [2, 0, 0, 0, 0, 7]"

definition blank_message :: message where
  "blank_message = \<lparr>m_data = replicate MAX_SIZE 0, m_size = 0, m_src = some_vehicle, m_origin = 0,
     m_timestamp = 0, m_data_type = 0, m_msg_type = 0\<rparr>"

definition silent_env :: sync_env where
  "silent_env = \<lparr>sync_results = [(False, blank_message)], clock_t2 = (5, 0), clock_t3 = (5, 0),
     delay_results = [], clock_now = (5, 0), sync_junk = blank_message\<rparr>"

theorem traffic_prolongs_wait_witness:
  "\<exists>r. sync_time some_vehicle (silent_env\<lparr>sync_results := replicate 1000 (True, set_size 40 blank_message)\<rparr>)
      (tc_new some_vehicle) stats_zero = Inr r \<and> \<not> sr_returned r \<and> sr_clock r = None \<and> sr_stats r = stats_zero"
  by (rule traffic_prolongs_wait)
    (simp add: list_all_iff unrelated_def set_size_def sizeof_ptp_def)

section \<open>The loop\<close>

lemma interval_step:
  "i = 500 \<or> i = 1000 \<Longrightarrow> next_interval d i = 500 \<or> next_interval d i = 1000"
  by (auto simp: next_interval_def signed_divide_int_def)

definition loop_ok :: "nat \<Rightarrow> tc_loop \<Rightarrow> bool" where
  "loop_ok n l \<longleftrightarrow> (l_interval l = 500 \<or> l_interval l = 1000) \<and>
     length (quadrant_count (l_stats l)) = 4 \<and> sum_list (quadrant_count (l_stats l)) = int n \<and>
     ptp_sync_ok (l_stats l) + ptp_sync_timeout (l_stats l) = int n \<and>
     l_last_offset l = last_offset_ns (l_stats l)"

lemma sum_list_incr: "i < length xs \<Longrightarrow> sum_list (xs[i := xs ! i + 1]) = sum_list xs + (1::int)"
proof (induction xs arbitrary: i)
  case Nil
  then show ?case by simp
next
  case (Cons x xs)
  then show ?case by (cases i) auto
qed

lemma count_quadrant_Inr:
  "count_quadrant q st = Inr st' \<Longrightarrow>
     length (quadrant_count st') = length (quadrant_count st) \<and>
     sum_list (quadrant_count st') = sum_list (quadrant_count st) + 1 \<and>
     ptp_sync_ok st' = ptp_sync_ok st \<and> ptp_sync_timeout st' = ptp_sync_timeout st \<and>
     last_offset_ns st' = last_offset_ns st \<and> last_quadrant st' = uint q"
  by (auto simp: count_quadrant_def Let_def sum_list_incr split: if_splits)

lemma sync_time_returned:
  assumes "sync_time mac env c st = Inr r" and "sr_returned r"
  shows "ptp_sync_ok (sr_stats r) + ptp_sync_timeout (sr_stats r) =
      ptp_sync_ok st + ptp_sync_timeout st + 1 \<and> quadrant_count (sr_stats r) = quadrant_count st \<and>
      sr_client r = next_seq c"
  using assms by (auto simp: sync_time_def Let_def and_then_Inr_iff split: await.splits)

lemma tc_turn_ok:
  assumes "loop_ok n l" and "tc_turn mac q env l = Inr (Some l')"
  shows "loop_ok (Suc n) l' \<and> l_client l' = next_seq (l_client l)"
proof -
  obtain st r d where "count_quadrant q (l_stats l) = Inr st" "sync_time mac env (l_client l) st = Inr r"
    "sr_returned r" "l' = \<lparr>l_last_offset = last_offset_ns (sr_stats r),
      l_interval = next_interval \<bar>d\<bar> (l_interval l), l_client = sr_client r, l_stats = sr_stats r\<rparr>"
    using assms(2) by (auto simp: tc_turn_def tc_adapt_def and_then_Inr_iff dest: chk_Inr split: if_splits)
  with assms(1) count_quadrant_Inr [of q "l_stats l" st] sync_time_returned [of mac env "l_client l" st r]
    interval_step [of "l_interval l" "\<bar>d\<bar>"]
  show ?thesis by (auto simp: loop_ok_def)
qed

lemma tc_run_ok:
  "loop_ok n l \<Longrightarrow> tc_run mac turns l = Inr (Some l') \<Longrightarrow>
     loop_ok (n + length turns) l' \<and> l_client l' = (next_seq ^^ length turns) (l_client l)"
proof (induction turns arbitrary: n l)
  case Nil
  then show ?case by simp
next
  case (Cons t turns)
  obtain q env where t: "t = (q, env)" by (cases t)
  with Cons.prems(2) obtain u where u: "tc_turn mac q env l = Inr (Some u)" "tc_run mac turns u = Inr (Some l')"
    by (auto simp: and_then_Inr_iff split: option.splits)
  from tc_turn_ok [OF Cons.prems(1) u(1)] Cons.IH [OF _ u(2), of "Suc n"]
  show ?case by (simp add: funpow_swap1)
qed

text \<open>
  C24: the adaptive interval is always 500 or 1000 ms, every completed turn of the loop is counted once
  as a success or a timeout and once in a quadrant, and the sequence number has advanced by the
  number of turns.
\<close>

theorem loop_accounting:
  assumes "tc_run mac turns (tc_loop_start mac) = Inr (Some l)"
  shows "l_interval l \<in> {500, 1000} \<and>
    ptp_sync_ok (l_stats l) + ptp_sync_timeout (l_stats l) = int (length turns) \<and>
    sum_list (quadrant_count (l_stats l)) = int (length turns) \<and>
    l_client l = (next_seq ^^ length turns) (tc_new mac)"
proof -
  have "loop_ok 0 (tc_loop_start mac)"
    by (simp add: loop_ok_def tc_loop_start_def stats_zero_def)
  from tc_run_ok [OF this assms] show ?thesis by (auto simp: loop_ok_def tc_loop_start_def)
qed

theorem loop_accounting_witness:
  "\<exists>l. tc_run some_vehicle [(1, silent_env)] (tc_loop_start some_vehicle) = Inr (Some l) \<and>
    l_interval l \<in> {500, 1000} \<and> ptp_sync_ok (l_stats l) + ptp_sync_timeout (l_stats l) = 1"
proof -
  obtain l where "tc_run some_vehicle [(1, silent_env)] (tc_loop_start some_vehicle) = Inr (Some l)"
    by (simp add: tc_turn_def tc_adapt_def count_quadrant_def tc_loop_start_def stats_zero_def Let_def sync_time_def
        silent_env_def chk_def)
  from loop_accounting [OF this] this show ?thesis by simp
qed

text \<open>
  The statistics \<open>run\<close> prints when it ends: the number of turns and the share of each quadrant, with
  the floating-point expression \<open>100.0f * count / total\<close> as a parameter. With exact arithmetic the
  shares make up 100 as soon as there was a turn; without one nothing is divided by zero.
\<close>

definition position_total :: "stats \<Rightarrow> int" where
  "position_total st = quadrant_count st ! 0 + quadrant_count st ! 1 + quadrant_count st ! 2 + quadrant_count st ! 3"

definition position_shares :: "(int \<Rightarrow> int \<Rightarrow> 'f) \<Rightarrow> 'f \<Rightarrow> stats \<Rightarrow> 'f list" where
  "position_shares percent zero st =
     map (\<lambda>i. if position_total st > 0 then percent (quadrant_count st ! i) (position_total st) else zero) [0..<4]"

theorem position_shares_complete:
  fixes percent :: "int \<Rightarrow> int \<Rightarrow> 'f::field_char_0"
  assumes "tc_run mac turns (tc_loop_start mac) = Inr (Some l)"
    and "\<forall>k n. percent k n = 100 * of_int k / of_int n"
  shows "position_total (l_stats l) = int (length turns) \<and>
    sum_list (position_shares percent 0 (l_stats l)) = (if turns = [] then 0 else 100)"
proof -
  have "loop_ok 0 (tc_loop_start mac)" by (simp add: loop_ok_def tc_loop_start_def stats_zero_def)
  from tc_run_ok [OF this assms(1)] have c: "length (quadrant_count (l_stats l)) = 4"
      "sum_list (quadrant_count (l_stats l)) = int (length turns)" by (auto simp: loop_ok_def)
  then obtain a b x y where q: "quadrant_count (l_stats l) = [a, b, x, y]"
    by (auto simp: numeral_eq_Suc length_Suc_conv)
  then have t: "position_total (l_stats l) = int (length turns)" using c(2) by (simp add: position_total_def)
  have s: "a + b + x + y = int (length turns)" using c(2) q by simp
  have "sum_list (position_shares percent 0 (l_stats l)) = 100" if "turns \<noteq> []"
  proof -
    let ?n = "of_int (int (length turns)) :: 'f"
    have n: "?n \<noteq> 0" using that by simp
    have "sum_list (position_shares percent 0 (l_stats l)) =
        (100 * of_int a + 100 * of_int b + 100 * of_int x + 100 * of_int y) / ?n"
      using that assms(2) by (simp add: position_shares_def t q upt_conv_Cons numeral_eq_Suc add.assoc add_divide_distrib)
    also have "100 * of_int a + 100 * of_int b + 100 * of_int x + 100 * of_int y = 100 * ?n"
      unfolding s [symmetric] by (simp add: distrib_left)
    finally show ?thesis using n by simp
  qed
  moreover have "sum_list (position_shares percent 0 (l_stats l)) = 0" if "turns = []"
    using that by (simp add: position_shares_def t upt_conv_Cons numeral_eq_Suc)
  ultimately have "sum_list (position_shares percent 0 (l_stats l)) = (if turns = [] then 0 else 100)" by simp
  with t show ?thesis ..
qed

text \<open>
  Without \<open>/proc/position\<close> the quadrant is 255 and \<open>run\<close> increments a
  counter outside the array of four before anything else.
\<close>

theorem missing_position_faults:
  "tc_run mac ((255, env) # turns) (tc_loop_start mac) = Inl Out_Of_Bounds"
  by (simp add: tc_turn_def count_quadrant_def tc_loop_start_def stats_zero_def Let_def)

section \<open>Setting the clock\<close>

text \<open>
  The seconds and nanoseconds handed to \<open>clock_settime\<close> are normalised for every
  corrected time, negative ones included, and denote exactly that time.
\<close>

theorem clock_split_roundtrip:
  "ns_of (to_timespec n) = n \<and> 0 \<le> snd (to_timespec n) \<and> snd (to_timespec n) < 1000000000"
  using ns_of_to_timespec to_timespec_range by blast

definition time_ok :: "int \<Rightarrow> bool" where
  "time_ok x \<longleftrightarrow> 0 \<le> x \<and> x < 2 ^ 61"

lemma sint_ns_u64:
  assumes "time_ok (ns_of t)"
  shows "sint (ns_u64 t) = ns_of t"
proof -
  have "ns_u64 t = word_of_int (ns_of t)" by (simp add: ns_u64_def ns_of_def)
  then show ?thesis
    using assms by (simp add: time_ok_def sint_sbintrunc' signed_take_bit_int_eq_self)
qed

lemma sdiv_2_bounds: "\<bar>(2 * a + e) sdiv 2 - a\<bar> \<le> (\<bar>e\<bar> + 1) div (2::int)"
  by (auto simp: signed_divide_int_def sgn_if abs_if)

lemma sdiv_2_le: "\<bar>x sdiv 2\<bar> \<le> \<bar>x :: int\<bar>"
  by (auto simp: signed_divide_int_def sgn_if abs_if)

lemma ptp_offset_ok:
  assumes "time_ok t1" and "time_ok t2" and "time_ok t3" and "time_ok t4"
    and "t2 = t1 + d1 + theta" and "t4 = t3 - theta + d2"
  obtains offset where "ptp_offset t1 t2 t3 t4 = Inr offset"
    and "\<bar>offset - theta\<bar> \<le> (\<bar>d1 - d2\<bar> + 1) div 2" and "d1 = d2 \<Longrightarrow> offset = theta"
    and "\<bar>offset\<bar> < 2 ^ 62"
proof -
  let ?sum = "(t2 - t1) + (t3 - t4)"
  have sum: "?sum = 2 * theta + (d1 - d2)" using assms(5,6) by simp
  have b: "\<bar>t2 - t1\<bar> < 2 ^ 61" "\<bar>t3 - t4\<bar> < 2 ^ 61" using assms(1-4) by (auto simp: time_ok_def abs_if)
  have "\<bar>t2 - t1\<bar> < 2 ^ 63" "\<bar>t3 - t4\<bar> < 2 ^ 63" "\<bar>?sum\<bar> < 2 ^ 63"
    using b by (simp_all add: abs_less_iff)
  then have "ptp_offset t1 t2 t3 t4 = Inr (?sum sdiv 2)"
    by (simp only: ptp_offset_def chk_ok and_then_simps)
  moreover have "\<bar>?sum sdiv 2 - theta\<bar> \<le> (\<bar>d1 - d2\<bar> + 1) div 2"
    using sdiv_2_bounds [of theta "d1 - d2"] sum by simp
  moreover have "\<bar>?sum sdiv 2\<bar> \<le> \<bar>?sum\<bar>" by (rule sdiv_2_le)
  then have "\<bar>?sum sdiv 2\<bar> < 2 ^ 62"
    using b abs_triangle_ineq [of "t2 - t1" "t3 - t4"] by simp
  moreover have "?sum sdiv 2 = theta" if "d1 = d2"
    using sum that by (auto simp: signed_divide_int_def sgn_if abs_if)
  ultimately show ?thesis using that by blast
qed

text \<open>What the RSU answers to a PTP request, and what it does with anything else.\<close>

lemma rsu_reply_carries:
  assumes "carries m p"
  shows "rsu_reply rt now junk m =
     (if message_type p = 0 then
        Some (ptp_message junk \<lparr>message_type = 1, timestamp = ns_u64 now, seq = seq p\<rparr>, m_src m)
      else if message_type p = 2 then
        Some (ptp_message junk \<lparr>message_type = 3, timestamp = ns_u64 rt, seq = seq p\<rparr>, m_src m)
      else None)"
  using carries_simps [OF assms] by (simp add: rsu_reply_def Let_def sizeof_ptp_def)

text \<open>The answer reaches the client with other messages before it and after it.\<close>

definition answered_by :: "(bool \<times> message) list \<Rightarrow> byte \<Rightarrow> u32 \<Rightarrow> message \<Rightarrow> bool" where
  "answered_by results ty sq answer \<longleftrightarrow> (\<exists>before a after. results = before @ (True, a) # after \<and>
     list_all (unrelated ty sq) before \<and> message_ok a \<and> msg_bytes a = msg_bytes answer)"

lemma await_answered_by:
  assumes "answered_by results ty sq answer" and "carries answer p" and "seq p = sq" and "message_type p = ty"
  shows "\<exists>a. await_reply ty sq results = Got p a"
proof -
  obtain b a c where "results = b @ (True, a) # c" "list_all (unrelated ty sq) b" "carries a p"
    using assms(1,2) by (auto simp: answered_by_def carries_def)
  then show ?thesis using await_answer [OF _ _ assms(3,4)] by blast
qed

lemma msg_bytes_set_src [simp]: "msg_bytes (set_src a m) = msg_bytes m"
  by (simp add: msg_bytes_def set_src_def)

lemma clock_set:
  assumes "carries q1 \<lparr>message_type = 0, timestamp = 0, seq = tc_seq (next_seq c)\<rparr>"
    and "rsu_reply rt1 now1 j1 q1 = Some (p1, dst1)"
    and "answered_by (sync_results env) 1 (tc_seq (next_seq c)) p1"
    and "carries q2 \<lparr>message_type = 2, timestamp = 0, seq = tc_seq (next_seq c)\<rparr>"
    and "rsu_reply rt2 now2 j2 q2 = Some (p2, dst2)"
    and "answered_by (delay_results env) 3 (tc_seq (next_seq c)) p2"
    and "ns_of (clock_t2 env) = ns_of now1 + d1 + theta"
    and "ns_of rt2 = ns_of (clock_t3 env) - theta + d2"
    and "time_ok (ns_of now1)" and "time_ok (ns_of (clock_t2 env))" and "time_ok (ns_of (clock_t3 env))"
    and "time_ok (ns_of rt2)" and "time_ok (ns_of (clock_now env))"
  shows "\<exists>off r ts. sync_time mac env c st = Inr r \<and> sr_returned r \<and> sr_clock r = Some ts \<and>
    map msg_bytes (sr_sent r) = [msg_bytes q1, msg_bytes q2] \<and>
    sr_stats r = st\<lparr>last_offset_ns := off, ptp_sync_ok := ptp_sync_ok st + 1\<rparr> \<and> \<bar>off\<bar> < 2 ^ 62 \<and>
    sr_client r = next_seq c \<and>
    \<bar>ns_of ts - (ns_of (clock_now env) - theta)\<bar> \<le> (\<bar>d1 - d2\<bar> + 1) div 2 \<and>
    (d1 = d2 \<longrightarrow> ns_of ts = ns_of (clock_now env) - theta)"
proof -
  let ?sq = "tc_seq (next_seq c)"
  let ?f1 = "\<lparr>message_type = 1, timestamp = ns_u64 now1, seq = ?sq\<rparr>"
  let ?f3 = "\<lparr>message_type = 3, timestamp = ns_u64 rt2, seq = ?sq\<rparr>"
  have p1: "carries p1 ?f1" and p2: "carries p2 ?f3"
    using assms(2,5) carries_ptp_message by (auto simp: rsu_reply_carries [OF assms(1)]
        rsu_reply_carries [OF assms(4)])
  obtain a1 a3 where "await_reply 1 ?sq (sync_results env) = Got ?f1 a1"
    and "await_reply 3 ?sq (delay_results env) = Got ?f3 a3"
    using await_answered_by [OF assms(3) p1] await_answered_by [OF assms(6) p2] by auto
  note got = this
  obtain offset where off: "ptp_offset (ns_of now1) (ns_of (clock_t2 env)) (ns_of (clock_t3 env))
      (ns_of rt2) = Inr offset"
    "\<bar>offset - theta\<bar> \<le> (\<bar>d1 - d2\<bar> + 1) div 2" "d1 = d2 \<Longrightarrow> offset = theta" "\<bar>offset\<bar> < 2 ^ 62"
    using ptp_offset_ok [OF assms(9-12,7,8)] by metis
  have "corrected_ns (ns_of (clock_now env)) offset = Inr (ns_of (clock_now env) - offset)"
  proof -
    have "\<bar>- offset\<bar> < 2 ^ 63" and "\<bar>ns_of (clock_now env) + - offset\<bar> < 2 ^ 63"
      using off(4) assms(13) by (simp_all add: time_ok_def abs_less_iff)
    then show ?thesis by (simp only: corrected_ns_def chk_ok and_then_simps) simp
  qed
  moreover have "msg_bytes (ptp_message j p) = enc_ptp p" for j p
    using carries_ptp_message [of j p] by (simp add: carries_def)
  moreover obtain sec ns where ts: "to_timespec (ns_of (clock_now env) - offset) = (sec, ns)"
    by (cases "to_timespec (ns_of (clock_now env) - offset)")
  moreover have "ns_of (sec, ns) = ns_of (clock_now env) - offset"
    using ns_of_to_timespec [of "ns_of (clock_now env) - offset"] ts by simp
  ultimately show ?thesis
    using got off assms(1,4) sint_ns_u64 [OF assms(9)] sint_ns_u64 [OF assms(12)]
    by (intro exI [of _ offset]) (simp add: sync_time_def Let_def carries_def abs_minus_commute)
qed

text \<open>
  When both requests reach the RSU and both of its answers reach the client, among any other
  traffic, the client sets its clock to the RSU's time up to half the difference of the two network
  delays, and exactly when the delays are equal. \<open>theta\<close> is how far the client's clock is ahead;
  \<open>q1\<close> and \<open>q2\<close> are what the RSU receives.
\<close>

theorem clock_synchronised:
  assumes "carries q1 \<lparr>message_type = 0, timestamp = 0, seq = tc_seq (next_seq c)\<rparr>"
    and "rsu_reply rt1 now1 j1 q1 = Some (p1, dst1)"
    and "answered_by (sync_results env) 1 (tc_seq (next_seq c)) p1"
    and "carries q2 \<lparr>message_type = 2, timestamp = 0, seq = tc_seq (next_seq c)\<rparr>"
    and "rsu_reply rt2 now2 j2 q2 = Some (p2, dst2)"
    and "answered_by (delay_results env) 3 (tc_seq (next_seq c)) p2"
    and "ns_of (clock_t2 env) = ns_of now1 + d1 + theta"
    and "ns_of rt2 = ns_of (clock_t3 env) - theta + d2"
    and "time_ok (ns_of now1)" and "time_ok (ns_of (clock_t2 env))" and "time_ok (ns_of (clock_t3 env))"
    and "time_ok (ns_of rt2)" and "time_ok (ns_of (clock_now env))"
  shows "\<exists>r ts. sync_time mac env c st = Inr r \<and> sr_returned r \<and> sr_clock r = Some ts \<and>
    map msg_bytes (sr_sent r) = [msg_bytes q1, msg_bytes q2] \<and>
    ptp_sync_ok (sr_stats r) = ptp_sync_ok st + 1 \<and>
    \<bar>ns_of ts - (ns_of (clock_now env) - theta)\<bar> \<le> (\<bar>d1 - d2\<bar> + 1) div 2 \<and>
    (d1 = d2 \<longrightarrow> ns_of ts = ns_of (clock_now env) - theta)"
  using clock_set [OF assms, of mac st] by (elim exE conjE) (intro exI conjI, assumption+, simp)

text \<open>A client whose clock is 7 s ahead; each message takes 1 ms.\<close>

definition demo_env :: "message \<Rightarrow> message \<Rightarrow> sync_env" where
  "demo_env a1 a2 = \<lparr>sync_results = [(True, set_size 40 blank_message), (True, a1)], clock_t2 = (1007, 1000000),
     clock_t3 = (1007, 2000000), delay_results = [(True, a2)], clock_now = (1007, 5000000),
     sync_junk = blank_message\<rparr>"

theorem clock_synchronised_witness:
  "\<exists>p1 p2 r ts. sync_time some_vehicle (demo_env p1 p2) (tc_new some_vehicle) stats_zero = Inr r \<and>
     sr_clock r = Some ts \<and> ns_of ts = ns_of (1000, 5000000)"
proof -
  let ?c = "tc_new some_vehicle"
  let ?sq = "tc_seq (next_seq ?c)"
  let ?q1 = "ptp_message blank_message \<lparr>message_type = 0, timestamp = 0, seq = ?sq\<rparr>"
  let ?q2 = "ptp_message blank_message \<lparr>message_type = 2, timestamp = 0, seq = ?sq\<rparr>"
  let ?p1 = "ptp_message blank_message \<lparr>message_type = 1, timestamp = ns_u64 (1000, 0), seq = ?sq\<rparr>"
  let ?p2 = "ptp_message blank_message \<lparr>message_type = 3, timestamp = ns_u64 (1000, 3000000), seq = ?sq\<rparr>"
  have ok: "message_ok (ptp_message j p)" for j p
    using carries_ptp_message [of j p] by (simp add: carries_def)
  have u: "unrelated 1 ?sq (True, set_size 40 blank_message)"
    by (simp add: unrelated_def set_size_def sizeof_ptp_def)
  have a1: "answered_by (sync_results (demo_env ?p1 ?p2)) 1 ?sq ?p1"
    unfolding answered_by_def using u ok
    by (intro exI [of _ "[(True, set_size 40 blank_message)]"] exI [of _ ?p1] exI [of _ "[]"])
      (simp add: demo_env_def)
  have a2: "answered_by (delay_results (demo_env ?p1 ?p2)) 3 ?sq ?p2"
    unfolding answered_by_def using ok
    by (intro exI [of _ "[]"] exI [of _ ?p2]) (simp add: demo_env_def)
  have r1: "rsu_reply (1000, 0) (1000, 0) blank_message ?q1 = Some (?p1, m_src ?q1)"
    and r2: "rsu_reply (1000, 3000000) (1000, 4000000) blank_message ?q2 = Some (?p2, m_src ?q2)"
    by (simp_all add: rsu_reply_carries [OF carries_ptp_message])
  have "\<exists>r ts. sync_time some_vehicle (demo_env ?p1 ?p2) ?c stats_zero = Inr r \<and> sr_returned r \<and>
    sr_clock r = Some ts \<and> map msg_bytes (sr_sent r) = [msg_bytes ?q1, msg_bytes ?q2] \<and>
    ptp_sync_ok (sr_stats r) = ptp_sync_ok stats_zero + 1 \<and>
    \<bar>ns_of ts - (ns_of (clock_now (demo_env ?p1 ?p2)) - 7000000000)\<bar> \<le> (\<bar>1000000 - 1000000\<bar> + 1) div 2 \<and>
    (1000000 = (1000000::int) \<longrightarrow> ns_of ts = ns_of (clock_now (demo_env ?p1 ?p2)) - 7000000000)"
    by (rule clock_synchronised [OF carries_ptp_message r1 a1 carries_ptp_message r2 a2])
      (simp_all add: demo_env_def ns_of_def time_ok_def)
  then show ?thesis by (simp add: demo_env_def ns_of_def) blast
qed

end
