(* ===== verification/Smart_Data.thy ===== *)
theory Smart_Data
  imports Units Time_Sync
begin

text \<open>
  The two kinds of SmartData (\<open>interested_smart_data.hpp\<close>,
  \<open>responsive_smart_data.hpp\<close>) as handlers of the messages they take from their queue, and
  the transducers. The messages a handler sends are its output. Doubles are held as their 64 bits;
  their addition \<open>fadd\<close> and the conversion \<open>to_double\<close> of a sensed value are arguments.
\<close>

section \<open>Sending\<close>

definition payload_message :: "message \<Rightarrow> byte list \<Rightarrow> message" where
  "payload_message junk bs =
     set_size (length bs) ((new_message junk)\<lparr>m_data := poke 0 bs (m_data (new_message junk))\<rparr>)"

definition interest_of :: "u32 \<Rightarrow> u64 \<Rightarrow> byte \<Rightarrow> timespec \<Rightarrow> interest_msg" where
  "interest_of unt period pos ts = \<lparr>i_kind = INTEREST, i_origin = pos, i_timestamp = ns_u64 ts,
     i_type = unt, i_period = period\<rparr>"

definition response_of :: "u32 \<Rightarrow> byte \<Rightarrow> timespec \<Rightarrow> u64 \<Rightarrow> response_msg" where
  "response_of unt pos ts val = \<lparr>r_kind = RESPONSE, r_origin = pos, r_timestamp = ns_u64 ts,
     r_type = unt, r_value = val\<rparr>"

section \<open>InterestedSmartData\<close>

record interested =
  isd_unit :: u32
  isd_period :: u64
  last_response_time :: u64
  response_count :: int
  last_value :: u64
  sum_values :: u64

definition isd_new :: "u32 \<Rightarrow> u64 \<Rightarrow> timespec \<Rightarrow> interested" where
  "isd_new unt period ts = \<lparr>isd_unit = unt, isd_period = period, last_response_time = ns_u64 ts,
     response_count = 0, last_value = 0, sum_values = 0\<rparr>"

definition send_interest :: "byte \<Rightarrow> timespec \<Rightarrow> message \<Rightarrow> interested \<Rightarrow> message" where
  "send_interest pos ts junk s =
     payload_message junk (enc_interest (interest_of (isd_unit s) (isd_period s) pos ts))"

text \<open>
  One turn of \<open>run\<close> after the first \<open>send_interest\<close>: \<open>None\<close> is the timeout of
  \<open>updated_for\<close>. The clock is read once for the test and once in \<open>send_interest\<close>.
\<close>

definition isd_turn :: "(u64 \<Rightarrow> u64 \<Rightarrow> u64) \<Rightarrow> byte \<Rightarrow> timespec \<Rightarrow> timespec \<Rightarrow> message \<Rightarrow> message option
    \<Rightarrow> interested \<Rightarrow> message list \<times> interested" where
  "isd_turn fadd pos ts ts2 junk got s =
     (case got of
        None \<Rightarrow>
          let now = ns_u64 ts in
          if 2000000000 < now - last_response_time s
          then ([send_interest pos ts2 junk s], s\<lparr>last_response_time := now\<rparr>) else ([], s)
      | Some msg \<Rightarrow>
          if sizeof_response \<le> m_size msg then
            let resp = dec_response (m_data msg) in
            if r_kind resp = RESPONSE then
              ([], s\<lparr>response_count := response_count s + 1, last_value := r_value resp,
                     sum_values := fadd (sum_values s) (r_value resp),
                     last_response_time := r_timestamp resp\<rparr>)
            else ([], s)
          else ([], s))"

section \<open>ResponsiveSmartData\<close>

record responsive =
  rsd_unit :: u32
  active_periods :: "u64 set"
  periodic_threads :: "u64 list"   \<comment> \<open>the period of each thread, in the order of creation\<close>

definition rsd_new :: "u32 \<Rightarrow> responsive" where
  "rsd_new unt = \<lparr>rsd_unit = unt, active_periods = {}, periodic_threads = []\<rparr>"

definition rsd_turn :: "message option \<Rightarrow> responsive \<Rightarrow> responsive" where
  "rsd_turn got s =
     (case got of None \<Rightarrow> s
      | Some msg \<Rightarrow>
          if sizeof_interest \<le> m_size msg then
            let interest = dec_interest (m_data msg) in
            if i_kind interest = INTEREST then
              let period = i_period interest in
              if period \<notin> active_periods s
              then s\<lparr>active_periods := insert period (active_periods s),
                     periodic_threads := periodic_threads s @ [period]\<rparr>
              else s
            else s
          else s)"

definition send_response :: "(int \<Rightarrow> u64) \<Rightarrow> int \<Rightarrow> byte \<Rightarrow> timespec \<Rightarrow> message \<Rightarrow> responsive \<Rightarrow> message" where
  "send_response to_double sensed pos ts junk s =
     payload_message junk (enc_response (response_of (rsd_unit s) pos ts (to_double sensed)))"

section \<open>Transducers\<close>

text \<open>
  \<open>sense()\<close> in tenths of the unit, as a function of what \<open>rand()\<close> returned.
\<close>

definition accelerometer :: "int \<Rightarrow> int" where "accelerometer r = r mod 200"
definition current_sensor :: "int \<Rightarrow> int" where "current_sensor r = r mod 100"
definition pressure_sensor :: "int \<Rightarrow> int" where "pressure_sensor r = (90000 + r mod 20000) * 10"
definition thermometer :: "int \<Rightarrow> int" where "thermometer r = 2800 + r mod 400"
definition velocimeter :: "int \<Rightarrow> int" where "velocimeter r = r mod 300"
definition voltage_sensor :: "int \<Rightarrow> int" where "voltage_sensor r = 110 + r mod 30"

section \<open>Messages\<close>

lemma length_enc_interest [simp]: "length (enc_interest i) = 22"
  using interest_codec.enc_length [of i] by (simp add: sizeof_interest_def)

lemma length_enc_response [simp]: "length (enc_response r) = 22"
  using response_codec.enc_length [of r] by (simp add: sizeof_response_def)

definition holds_bytes :: "message \<Rightarrow> byte list \<Rightarrow> bool" where
  "holds_bytes m bs \<longleftrightarrow> message_ok m \<and> msg_bytes m = bs"

lemma payload_message_holds: "length bs \<le> MAX_SIZE \<Longrightarrow> holds_bytes (payload_message junk bs) bs"
  by (simp add: holds_bytes_def payload_message_def message_ok_def msg_bytes_def set_size_def
      new_message_def poke_def)

lemma holds_bytes_data:
  assumes "holds_bytes m bs"
  shows "m_size m = length bs" and "take (length bs) (m_data m) = bs"
proof -
  have "length (msg_bytes m) = m_size m"
    using assms by (auto simp: holds_bytes_def message_ok_def msg_bytes_def)
  then show sz: "m_size m = length bs" using assms by (simp add: holds_bytes_def)
  then show "take (length bs) (m_data m) = bs" using assms by (simp add: holds_bytes_def msg_bytes_def)
qed

lemma dec_interest_prefix:
  assumes "take 22 d = enc_interest i"
  shows "dec_interest d = i"
proof -
  have "22 \<le> length d"
    using assms length_enc_interest [of i] by (metis length_take min.absorb_iff2 nat_le_linear)
  then have "d ! 0 = take 22 d ! 0" "d ! 1 = take 22 d ! 1" "peek 2 8 d = peek 2 8 (take 22 d)"
    "peek 10 4 d = peek 10 4 (take 22 d)" "peek 14 8 d = peek 14 8 (take 22 d)"
    by (simp_all add: peek_take)
  then have "dec_interest d = dec_interest (take 22 d)" by (simp only: dec_interest_def)
  then show ?thesis using interest_codec.dec_enc [of i] assms by simp
qed

lemma dec_response_prefix:
  assumes "take 22 d = enc_response r"
  shows "dec_response d = r"
proof -
  have "22 \<le> length d"
    using assms length_enc_response [of r] by (metis length_take min.absorb_iff2 nat_le_linear)
  then have "d ! 0 = take 22 d ! 0" "d ! 1 = take 22 d ! 1" "peek 2 8 d = peek 2 8 (take 22 d)"
    "peek 10 4 d = peek 10 4 (take 22 d)" "peek 14 8 d = peek 14 8 (take 22 d)"
    by (simp_all add: peek_take)
  then have "dec_response d = dec_response (take 22 d)" by (simp only: dec_response_def)
  then show ?thesis using response_codec.dec_enc [of r] assms by simp
qed

lemma holds_interest: "holds_bytes m (enc_interest i) \<Longrightarrow> m_size m = 22 \<and> dec_interest (m_data m) = i"
  using holds_bytes_data [of m "enc_interest i"] dec_interest_prefix by simp

lemma holds_response: "holds_bytes m (enc_response r) \<Longrightarrow> m_size m = 22 \<and> dec_response (m_data m) = r"
  using holds_bytes_data [of m "enc_response r"] dec_response_prefix by simp

text \<open>The first byte is the kind in both structures.\<close>

lemma kind_shared: "r_kind (dec_response d) = i_kind (dec_interest d)"
  by (simp add: dec_response_def dec_interest_def)

section \<open>The consumer's loop\<close>

record isd_event =
  ev_pos :: byte
  ev_now :: timespec
  ev_now2 :: timespec
  ev_junk :: message
  ev_got :: "message option"

fun isd_run :: "(u64 \<Rightarrow> u64 \<Rightarrow> u64) \<Rightarrow> isd_event list \<Rightarrow> interested \<Rightarrow> message list \<times> interested" where
  "isd_run fadd [] s = ([], s)"
| "isd_run fadd (e # es) s =
     (case isd_turn fadd (ev_pos e) (ev_now e) (ev_now2 e) (ev_junk e) (ev_got e) s of
        (out, t) \<Rightarrow> (case isd_run fadd es t of (outs, u) \<Rightarrow> (out @ outs, u)))"

text \<open>The responses among the received messages.\<close>

definition response_in :: "message option \<Rightarrow> response_msg list" where
  "response_in got = (case got of None \<Rightarrow> []
     | Some m \<Rightarrow> let r = dec_response (m_data m) in
         if 22 \<le> m_size m \<and> r_kind r = RESPONSE then [r] else [])"

definition responses :: "isd_event list \<Rightarrow> response_msg list" where
  "responses es = concat (map (response_in \<circ> ev_got) es)"

lemma isd_turn_statistics:
  assumes "isd_turn fadd pos ts ts2 junk got s = (out, t)"
  shows "response_count t = response_count s + int (length (response_in got)) \<and>
    sum_values t = fold (\<lambda>r acc. fadd acc (r_value r)) (response_in got) (sum_values s) \<and>
    last_value t = (if response_in got = [] then last_value s else r_value (last (response_in got))) \<and>
    isd_unit t = isd_unit s \<and> isd_period t = isd_period s"
  using assms
  by (auto simp: isd_turn_def response_in_def Let_def sizeof_response_def split: option.splits if_splits)

lemma isd_run_statistics:
  "isd_run fadd es s = (out, t) \<Longrightarrow>
     response_count t = response_count s + int (length (responses es)) \<and>
     sum_values t = fold (\<lambda>r acc. fadd acc (r_value r)) (responses es) (sum_values s) \<and>
     last_value t = (if responses es = [] then last_value s else r_value (last (responses es))) \<and>
     isd_unit t = isd_unit s \<and> isd_period t = isd_period s"
proof (induction es arbitrary: s out)
  case Nil
  then show ?case by (simp add: responses_def)
next
  case (Cons e es)
  obtain o1 u where u: "isd_turn fadd (ev_pos e) (ev_now e) (ev_now2 e) (ev_junk e) (ev_got e) s = (o1, u)"
    by fastforce
  obtain o2 where "isd_run fadd es u = (o2, t)" using Cons.prems u by (auto split: prod.splits)
  from Cons.IH [OF this] isd_turn_statistics [OF u] show ?case
    by (simp add: responses_def)
qed

text \<open>
  C23: whatever else arrives, the statistics of an \<open>InterestedSmartData\<close> count exactly the
  received responses: their number, the sum of their values in the order of arrival and the last
  value.
\<close>

theorem interested_statistics:
  "\<exists>out t. isd_run fadd es (isd_new unt period ts) = (out, t) \<and>
     response_count t = int (length (responses es)) \<and>
     sum_values t = fold (\<lambda>r acc. fadd acc (r_value r)) (responses es) 0 \<and>
     last_value t = (if responses es = [] then 0 else r_value (last (responses es)))"
proof -
  obtain out t where "isd_run fadd es (isd_new unt period ts) = (out, t)" by fastforce
  with isd_run_statistics [OF this] show ?thesis by (simp add: isd_new_def)
qed

text \<open>The time stamps of the interests a run sends.\<close>

definition sent_times :: "message list \<Rightarrow> nat list" where
  "sent_times ms = map (\<lambda>m. unat (i_timestamp (dec_interest (m_data m)))) ms"

text \<open>
  Nothing arrives: every \<open>updated_for\<close> times out. \<open>send_interest\<close> reads the clock after
  \<open>run\<close> did, by at most \<open>e\<close> nanoseconds.
\<close>

definition silent :: "nat \<Rightarrow> isd_event list \<Rightarrow> bool" where
  "silent e es \<longleftrightarrow> list_all (\<lambda>v. ev_got v = None \<and> unat (ns_u64 (ev_now v)) \<le> unat (ns_u64 (ev_now2 v)) \<and>
     unat (ns_u64 (ev_now2 v)) \<le> unat (ns_u64 (ev_now v)) + e) es"

lemma sent_interest_time:
  "dec_interest (m_data (send_interest pos ts junk s)) = interest_of (isd_unit s) (isd_period s) pos ts"
  unfolding send_interest_def
  by (intro holds_interest [THEN conjunct2] payload_message_holds) (simp add: MAX_SIZE_def)

lemma elapsed_word:
  assumes "a \<le> (b :: u64)"
  shows "(2000000000 < b - a) = (unat a + 2000000000 < unat b)"
proof -
  have "unat (b - a) = unat b - unat a" using assms by (simp add: unat_sub)
  moreover have "(2000000000 < b - a) = (2000000000 < unat (b - a))" by (simp add: word_less_nat_alt)
  ultimately show ?thesis using assms by (simp only: word_le_nat_alt) arith
qed

lemma silent_run:
  assumes "silent e es" and "sorted (unat (last_response_time s) # map (\<lambda>v. unat (ns_u64 (ev_now v))) es)"
    and "isd_run fadd es s = (out, t)"
  shows "sorted_wrt (\<lambda>a b. a + 2000000000 < b + e) (sent_times out) \<and>
    (\<forall>b\<in>set (sent_times out). unat (last_response_time s) + 2000000000 < b) \<and>
    unat (last_response_time s) \<le> unat (last_response_time t) \<and>
    (es \<noteq> [] \<longrightarrow> unat (ns_u64 (ev_now (last es))) \<le> unat (last_response_time t) + 2000000000)"
  using assms
proof (induction es arbitrary: s out)
  case Nil
  then show ?case by (simp add: sent_times_def)
next
  case (Cons v es)
  let ?now = "ns_u64 (ev_now v)" and ?sent = "ns_u64 (ev_now2 v)"
  obtain o1 u where u: "isd_turn fadd (ev_pos v) (ev_now v) (ev_now2 v) (ev_junk v) (ev_got v) s = (o1, u)"
    by fastforce
  obtain o2 where o2: "isd_run fadd es u = (o2, t)" "out = o1 @ o2"
    using Cons.prems(3) u by (auto split: prod.splits)
  have le: "last_response_time s \<le> ?now" using Cons.prems(2) by (simp add: word_le_nat_alt)
  have se: "silent e es" "ev_got v = None" "unat ?now \<le> unat ?sent" "unat ?sent \<le> unat ?now + e"
    using Cons.prems(1) by (simp_all add: silent_def)
  show ?case
  proof (cases "2000000000 < ?now - last_response_time s")
    case True
    then have ou: "o1 = [send_interest (ev_pos v) (ev_now2 v) (ev_junk v) s]"
      "u = s\<lparr>last_response_time := ?now\<rparr>"
      using u se by (auto simp: isd_turn_def Let_def)
    have ih: "sorted_wrt (\<lambda>a b. a + 2000000000 < b + e) (sent_times o2) \<and>
      (\<forall>b\<in>set (sent_times o2). unat ?now + 2000000000 < b) \<and>
      unat ?now \<le> unat (last_response_time t) \<and>
      (es \<noteq> [] \<longrightarrow> unat (ns_u64 (ev_now (last es))) \<le> unat (last_response_time t) + 2000000000)"
      using Cons.IH [OF se(1) _ o2(1)] Cons.prems(2) ou(2) by simp
    have out: "sent_times out = unat ?sent # sent_times o2"
      using o2(2) ou(1) by (simp add: sent_times_def sent_interest_time interest_of_def)
    have "unat ?sent + 2000000000 < b + e" if "b \<in> set (sent_times o2)" for b
      using ih that se(4) by fastforce
    moreover have "unat (last_response_time s) + 2000000000 < unat ?now" using True elapsed_word [OF le] by simp
    ultimately show ?thesis using ih se(3) by (auto simp: out)
  next
    case False
    then have ou: "o1 = []" "u = s" using u se by (auto simp: isd_turn_def Let_def)
    have "sorted (unat (last_response_time s) # map (\<lambda>v. unat (ns_u64 (ev_now v))) es)"
      using Cons.prems(2) by simp
    with Cons.IH [OF se(1) _ o2(1)] ou(2) show ?thesis
      using o2(2) ou(1) False elapsed_word [OF le] by auto
  qed
qed

text \<open>
  C31: while no message arrives at all, so that every poll times out, and the clock does not go back,
  interests are re-sent more than two seconds apart, up to the time \<open>e\<close> that may pass between
  the reading of the clock that decides and the one that stamps the interest; and silence is never left
  unanswered for more than two seconds of polling. (Any message, an interest of another process on the
  port too, ends the poll without the test, see \<open>isd_turn\<close>.)
\<close>

theorem resend_spacing:
  assumes "silent e es" and "sorted (unat (ns_u64 ts) # map (\<lambda>v. unat (ns_u64 (ev_now v))) es)"
  shows "\<exists>out t. isd_run fadd es (isd_new unt period ts) = (out, t) \<and>
    sorted_wrt (\<lambda>a b. a + 2000000000 < b + e) (unat (ns_u64 ts) # sent_times out) \<and>
    (es \<noteq> [] \<longrightarrow> unat (ns_u64 (ev_now (last es))) \<le> unat (last_response_time t) + 2000000000)"
proof -
  obtain out t where r: "isd_run fadd es (isd_new unt period ts) = (out, t)" by fastforce
  have "last_response_time (isd_new unt period ts) = ns_u64 ts" by (simp add: isd_new_def)
  with silent_run [OF assms(1) _ r] assms(2)
  have "sorted_wrt (\<lambda>a b. a + 2000000000 < b + e) (sent_times out)"
    "\<forall>b\<in>set (sent_times out). unat (ns_u64 ts) + 2000000000 < b"
    "es \<noteq> [] \<longrightarrow> unat (ns_u64 (ev_now (last es))) \<le> unat (last_response_time t) + 2000000000"
    by simp_all
  then show ?thesis using r by (intro exI [of _ out] exI [of _ t]) (auto intro: trans_less_add1)
qed

definition silent_second :: "int \<Rightarrow> isd_event" where
  "silent_second n = \<lparr>ev_pos = 0, ev_now = (n, 0), ev_now2 = (n, 5000), ev_junk = blank_message, ev_got = None\<rparr>"

theorem resend_spacing_witness:
  "\<exists>out t. isd_run (+) (map silent_second [1, 2, 3, 4]) (isd_new 5 1000000 (0, 0)) = (out, t) \<and>
    sorted_wrt (\<lambda>a b. a + 2000000000 < b + 5000) (0 # sent_times out) \<and>
    4000000000 \<le> unat (last_response_time t) + 2000000000"
proof -
  have "\<exists>out t. isd_run (+) (map silent_second [1, 2, 3, 4]) (isd_new 5 1000000 (0, 0)) = (out, t) \<and>
    sorted_wrt (\<lambda>a b. a + 2000000000 < b + 5000) (unat (ns_u64 (0, 0)) # sent_times out) \<and>
    (map silent_second [1, 2, 3, 4] \<noteq> [] \<longrightarrow>
      unat (ns_u64 (ev_now (last (map silent_second [1, 2, 3, 4])))) \<le> unat (last_response_time t) + 2000000000)"
    by (rule resend_spacing) (simp_all add: silent_def silent_second_def ns_u64_def)
  then show ?thesis by (simp add: silent_second_def ns_u64_def)
qed

lemma wrap_less: "d \<noteq> 0 \<Longrightarrow> d < - 2000000000 \<Longrightarrow> 2000000000 < - (d :: u64)"
  by (auto simp: word_less_def uint_word_ariths zmod_zminus1_eq_if uint_0_iff split: if_splits)

text \<open>
  The time of the last response is the producer's, not the consumer's; when the
  producer's clock is ahead, however little, the unsigned difference wraps and the next timeout,
  100 ms after a response, re-sends the interest.
\<close>

theorem clock_skew_resends:
  assumes "holds_bytes m (enc_response r)" and "r_kind r = RESPONSE" and "ns_u64 ts < r_timestamp r"
    and "r_timestamp r - ns_u64 ts < - 2000000000"
  shows "\<exists>t. isd_run fadd [\<lparr>ev_pos = q, ev_now = ts0, ev_now2 = ts0, ev_junk = junk, ev_got = Some m\<rparr>,
      \<lparr>ev_pos = q, ev_now = ts, ev_now2 = ts, ev_junk = junk, ev_got = None\<rparr>] s =
      ([send_interest q ts junk s], t) \<and> response_count t = response_count s + 1"
proof -
  let ?d = "r_timestamp r - ns_u64 ts"
  have "?d \<noteq> 0" using assms(3) by auto
  then have "2000000000 < - ?d" using assms(4) by (rule wrap_less)
  then have "2000000000 < ns_u64 ts - r_timestamp r" by simp
  then show ?thesis
    using holds_response [OF assms(1)] assms(2)
    by (simp add: isd_turn_def Let_def sizeof_response_def send_interest_def)
qed

theorem clock_skew_resends_witness:
  "\<exists>t. isd_run (+) [\<lparr>ev_pos = 1, ev_now = (10, 0), ev_now2 = (10, 0), ev_junk = blank_message,
        ev_got = Some (payload_message blank_message (enc_response (response_of 5 1 (10, 100000001) 7)))\<rparr>,
      \<lparr>ev_pos = 1, ev_now = (10, 100000000), ev_now2 = (10, 100000000), ev_junk = blank_message, ev_got = None\<rparr>]
      (isd_new 5 1000000 (9, 0)) =
      ([send_interest 1 (10, 100000000) blank_message (isd_new 5 1000000 (9, 0))], t) \<and>
    response_count t = response_count (isd_new 5 1000000 (9, 0)) + 1"
  by (rule clock_skew_resends [OF payload_message_holds])
    (simp_all add: MAX_SIZE_def response_of_def ns_u64_def, simp add: word_less_def uint_word_ariths)

section \<open>The producer's loop\<close>

definition requested :: "message option \<Rightarrow> u64 list" where
  "requested got = (case got of None \<Rightarrow> []
     | Some m \<Rightarrow> let i = dec_interest (m_data m) in
         if 22 \<le> m_size m \<and> i_kind i = INTEREST then [i_period i] else [])"

lemma rsd_turn_eq:
  "rsd_turn got s = (if set (requested got) \<subseteq> active_periods s then s
     else s\<lparr>active_periods := active_periods s \<union> set (requested got),
            periodic_threads := periodic_threads s @ requested got\<rparr>)"
  by (auto simp: rsd_turn_def requested_def Let_def sizeof_interest_def split: option.splits)

lemma rsd_fold:
  assumes "distinct (periodic_threads s)" and "set (periodic_threads s) = active_periods s"
  shows "distinct (periodic_threads (fold rsd_turn gots s)) \<and>
    set (periodic_threads (fold rsd_turn gots s)) = active_periods (fold rsd_turn gots s) \<and>
    active_periods (fold rsd_turn gots s) = active_periods s \<union> set (concat (map requested gots))"
  using assms
proof (induction gots arbitrary: s)
  case Nil
  then show ?case by simp
next
  case (Cons got gots)
  have "distinct (requested got)" "length (requested got) \<le> 1"
    by (auto simp: requested_def Let_def split: option.splits)
  then have "distinct (periodic_threads (rsd_turn got s)) \<and>
      set (periodic_threads (rsd_turn got s)) = active_periods (rsd_turn got s)"
    using Cons.prems by (cases "requested got") (auto simp: rsd_turn_eq)
  moreover have "active_periods (rsd_turn got s) = active_periods s \<union> set (requested got)"
    by (auto simp: rsd_turn_eq)
  ultimately show ?case using Cons.IH [of "rsd_turn got s"] by auto
qed

text \<open>
  A \<open>ResponsiveSmartData\<close> runs exactly one periodic thread for every period some received
  interest asked for, however often it was asked.
\<close>

theorem one_thread_per_period:
  "distinct (periodic_threads (fold rsd_turn gots (rsd_new unt))) \<and>
   set (periodic_threads (fold rsd_turn gots (rsd_new unt))) = set (concat (map requested gots))"
  using rsd_fold [of "rsd_new unt" gots] by (simp add: rsd_new_def)

section \<open>Consumer and producer together\<close>

text \<open>
  An interest sent by a consumer, received with its bytes intact, starts a thread of the
  consumer's period at the producer unless one runs; a response of that producer is counted by the
  consumer with the sensed value; neither reacts to messages of its own kind.
\<close>

theorem interest_response_exchange:
  assumes "holds_bytes m (msg_bytes (send_interest pos ts junk isd))"
    and "holds_bytes m' (msg_bytes (send_response to_double sensed pos' ts' junk' rsd))"
  shows "isd_period isd \<in> set (periodic_threads (fold rsd_turn (gots @ [Some m]) (rsd_new unt))) \<and>
    isd_turn fadd p t1 t2 j (Some m') isd =
      ([], isd\<lparr>response_count := response_count isd + 1, last_value := to_double sensed,
               sum_values := fadd (sum_values isd) (to_double sensed), last_response_time := ns_u64 ts'\<rparr>) \<and>
    rsd_turn (Some m') rsd = rsd \<and> isd_turn fadd p t1 t2 j (Some m) isd = ([], isd)"
proof -
  let ?i = "interest_of (isd_unit isd) (isd_period isd) pos ts"
  let ?r = "response_of (rsd_unit rsd) pos' ts' (to_double sensed)"
  have "msg_bytes (send_interest pos ts junk isd) = enc_interest ?i"
    using payload_message_holds [of "enc_interest ?i" junk]
    by (simp add: send_interest_def holds_bytes_def MAX_SIZE_def)
  then have i: "m_size m = 22 \<and> dec_interest (m_data m) = ?i" using holds_interest assms(1) by simp
  have "msg_bytes (send_response to_double sensed pos' ts' junk' rsd) = enc_response ?r"
    using payload_message_holds [of "enc_response ?r" junk']
    by (simp add: send_response_def holds_bytes_def MAX_SIZE_def)
  then have r: "m_size m' = 22 \<and> dec_response (m_data m') = ?r" using holds_response assms(2) by simp
  have ki: "i_kind (dec_interest (m_data m')) = RESPONSE"
    using kind_shared [of "m_data m'"] r by (simp add: response_of_def)
  have kr: "r_kind (dec_response (m_data m)) = INTEREST"
    using kind_shared [of "m_data m"] i by (simp add: interest_of_def)
  have "requested (Some m) = [isd_period isd]" using i by (simp add: requested_def interest_of_def)
  then have "isd_period isd \<in> set (periodic_threads (fold rsd_turn (gots @ [Some m]) (rsd_new unt)))"
    using rsd_fold [of "rsd_new unt" "gots @ [Some m]"] by (simp add: rsd_new_def)
  moreover have "isd_turn fadd p t1 t2 j (Some m') isd =
      ([], isd\<lparr>response_count := response_count isd + 1, last_value := to_double sensed,
               sum_values := fadd (sum_values isd) (to_double sensed), last_response_time := ns_u64 ts'\<rparr>)"
    using r by (simp add: isd_turn_def Let_def sizeof_response_def response_of_def)
  moreover have "rsd_turn (Some m') rsd = rsd"
    using ki by (simp add: rsd_turn_def Let_def INTEREST_def RESPONSE_def)
  moreover have "isd_turn fadd p t1 t2 j (Some m) isd = ([], isd)"
    using kr by (simp add: isd_turn_def Let_def INTEREST_def RESPONSE_def)
  ultimately show ?thesis by blast
qed

theorem interest_response_exchange_witness:
  "isd_turn (+) 0 (1, 0) (1, 0) blank_message
      (Some (send_response word_of_int 42 3 (7, 0) blank_message (rsd_new 9))) (isd_new 9 500 (0, 0)) =
    ([], (isd_new 9 500 (0, 0))\<lparr>response_count := 1, last_value := 42, sum_values := 42,
       last_response_time := 7000000000\<rparr>)"
proof -
  have h: "holds_bytes (send_interest p t j s) (msg_bytes (send_interest p t j s))" for p t j s
    using payload_message_holds [of "enc_interest (interest_of (isd_unit s) (isd_period s) p t)" j]
    by (simp add: holds_bytes_def send_interest_def MAX_SIZE_def)
  have h': "holds_bytes (send_response f v p t j s) (msg_bytes (send_response f v p t j s))" for f v p t j s
    using payload_message_holds [of "enc_response (response_of (rsd_unit s) p t (f v))" j]
    by (simp add: holds_bytes_def send_response_def MAX_SIZE_def)
  show ?thesis
    using interest_response_exchange [OF h [of 0 "(0, 0)" blank_message "isd_new 9 500 (0, 0)"]
        h' [of word_of_int 42 3 "(7, 0)" blank_message "rsd_new 9"], of "[]" 9 "(+)" 0 "(1, 0)" "(1, 0)" blank_message]
    by (simp add: isd_new_def ns_u64_def)
qed

end
