(* ===== verification/Vehicle.thy ===== *)
theory Vehicle
  imports Stack_Lifetimes Smart_Data Shm_Channel
begin

text \<open>
  The processes of a vehicle: the gateway (\<open>gateway.hpp\<close>), the components
  (\<open>component.hpp\<close>, \<open>components/*.hpp\<close>), the scenarios of \<open>vehicle_main.cpp\<close>, the
  key of the shared memory (\<open>vehicle.hpp\<close>) and the position the kernel module publishes
  (\<open>position.c\<close>, \<open>position.hpp\<close>).
\<close>

section \<open>The key of the shared memory\<close>

text \<open>\<open>key_t\<close> is a 32-bit integer; the last four bytes of the MAC address are copied into it.\<close>

definition make_key :: "mac \<Rightarrow> u32" where
  "make_key mac = (let k = le_decode (peek 2 4 mac) in if k \<noteq> 0 then k else 1)"

section \<open>SmartData of the components\<close>

datatype smart_data_kind =
    Interested quantity u64     \<comment> \<open>\<open>InterestedSmartData<UNIT>\<close> with its period\<close>
  | Responsive quantity         \<comment> \<open>\<open>ResponsiveSmartData<Transducer>\<close>, by the transducer's unit\<close>

datatype component =
    Comp_A | Comp_B | Comp_C | Comp_D | Comp_E | Velocity_Producer | Velocity_Consumer
  | Temperature_Consumer | Time_Client

definition CompA_smart_datas :: "smart_data_kind list" where
  [simp]: "CompA_smart_datas = [Interested Temperature 1000000, Responsive Acceleration]"

definition CompB_smart_datas :: "smart_data_kind list" where
  [simp]: "CompB_smart_datas = [Interested Acceleration 1000000, Responsive Temperature]"

definition CompC_smart_datas :: "smart_data_kind list" where
  [simp]: "CompC_smart_datas = [Interested Pressure 1000000, Responsive Velocity]"

definition CompD_smart_datas :: "smart_data_kind list" where
  [simp]: "CompD_smart_datas = [Interested Velocity 1000000, Responsive Pressure]"

definition CompE_smart_datas :: "smart_data_kind list" where
  [simp]: "CompE_smart_datas = [Interested Current 1000000, Responsive Voltage]"

definition VelocityProducer_smart_datas :: "smart_data_kind list" where
  [simp]: "VelocityProducer_smart_datas = [Responsive Velocity]"

definition VelocityConsumer_smart_datas :: "smart_data_kind list" where
  [simp]: "VelocityConsumer_smart_datas = [Interested Velocity 1000000]"

definition TemperatureConsumer_smart_datas :: "smart_data_kind list" where
  [simp]: "TemperatureConsumer_smart_datas = [Interested Temperature 1000000]"

text \<open>The virtual method, by the class of the object.\<close>

fun add_smart_datas :: "component \<Rightarrow> smart_data_kind list" where
  "add_smart_datas Comp_A = CompA_smart_datas"
| "add_smart_datas Comp_B = CompB_smart_datas"
| "add_smart_datas Comp_C = CompC_smart_datas"
| "add_smart_datas Comp_D = CompD_smart_datas"
| "add_smart_datas Comp_E = CompE_smart_datas"
| "add_smart_datas Velocity_Producer = VelocityProducer_smart_datas"
| "add_smart_datas Velocity_Consumer = VelocityConsumer_smart_datas"
| "add_smart_datas Temperature_Consumer = TemperatureConsumer_smart_datas"
| "add_smart_datas Time_Client = []"

definition gateway_smart_datas :: "smart_data_kind list" where
  "gateway_smart_datas = [Interested Velocity 1000000, Responsive Velocity]"

fun kind_port :: "smart_data_kind \<Rightarrow> u16" where
  "kind_port (Interested q p) = unit_port (unit_code q)"
| "kind_port (Responsive q) = unit_port (unit_code q)"

definition wants :: "smart_data_kind list \<Rightarrow> quantity set" where
  "wants sds = {q. \<exists>p. Interested q p \<in> set sds}"

definition offers :: "smart_data_kind list \<Rightarrow> quantity set" where
  "offers sds = {q. Responsive q \<in> set sds}"

section \<open>Scenarios\<close>

definition scenario :: "string \<Rightarrow> component list" where
  "scenario name =
     (if name = ''basic_local'' then [Velocity_Producer, Velocity_Consumer]
      else if name = ''silent_producer'' then [Velocity_Producer, Temperature_Consumer]
      else if name = ''fanout_local''
        then [Velocity_Producer, Velocity_Consumer, Velocity_Consumer, Velocity_Consumer]
      else [Comp_A, Comp_B, Comp_C, Comp_D, Comp_E, Time_Client])"

text \<open>
  The gateway object is constructed before the children are forked; its SmartData are created only
  by \<open>setup\<close>, which \<open>main\<close> does not call.
\<close>

definition on_the_bus :: "string \<Rightarrow> smart_data_kind list" where
  "on_the_bus name = concat (map add_smart_datas (scenario name))"

section \<open>Building a process\<close>

text \<open>
  A SmartData creates a communicator on its unit's port and, when it starts, subscribes itself.
\<close>

definition smart_data_start :: "mac \<Rightarrow> smart_data_kind \<Rightarrow> node \<Rightarrow> node" where
  "smart_data_start mac sd s =
     endpoint_create (length (comms s)) (comm_create \<lparr>paddr = mac, port = kind_port sd\<rparr> s)"

definition component_boot :: "mac \<Rightarrow> component \<Rightarrow> node" where
  "component_boot mac c =
     fold (smart_data_start mac) (add_smart_datas c) (proto_new 0 (process [mac]))"

text \<open>The time client's process has a second NIC, on the network.\<close>

definition time_client_boot :: "mac \<Rightarrow> mac \<Rightarrow> node" where
  "time_client_boot mac rs_mac =
     proto_attach_nic 1 (endpoint_create 0 (comm_create \<lparr>paddr = mac, port = PORT_TIME_CLIENT\<rparr>
       (proto_new 0 (process [mac, rs_mac]))))"

text \<open>The gateway's first NIC is on the network, its second on the shared memory, with one address.\<close>

definition gateway_boot :: "mac \<Rightarrow> node" where
  "gateway_boot mac =
     proto_attach_nic 1 (endpoint_create 0 (comm_create \<lparr>paddr = mac, port = PORT_GATEWAY\<rparr>
       (proto_new 0 (process [mac, mac]))))"

definition gateway_setup :: "mac \<Rightarrow> node \<Rightarrow> node" where
  "gateway_setup mac s = fold (smart_data_start mac) gateway_smart_datas s"

section \<open>Position\<close>

fun decimal :: "nat \<Rightarrow> string" where
  "decimal n = (if n < 10 then [char_of (48 + n)] else decimal (n div 10) @ [char_of (48 + n mod 10)])"

declare decimal.simps [simp del]

text \<open>\<open>proc_read\<close> prints the quadrant with \<open>%u\<close> and a newline.\<close>

definition proc_read :: "byte \<Rightarrow> string" where
  "proc_read q = decimal (unat q) @ [char_of (10 :: nat)]"

definition is_digit :: "char \<Rightarrow> bool" where
  "is_digit c \<longleftrightarrow> 48 \<le> (of_char c :: nat) \<and> (of_char c :: nat) \<le> 57"

definition is_space :: "char \<Rightarrow> bool" where
  "is_space c \<longleftrightarrow> (of_char c :: nat) \<in> {9, 10, 11, 12, 13, 32}"

text \<open>
  \<open>f >> q\<close>: white space is skipped, the digits read; without a digit the result is 0, out of
  the range of \<open>unsigned\<close> it is the greatest one.
\<close>

definition read_unsigned :: "string \<Rightarrow> nat" where
  "read_unsigned txt =
     (let ds = takeWhile is_digit (dropWhile is_space txt);
          v = foldl (\<lambda>v c. 10 * v + (of_char c - 48)) 0 ds
      in min v (2 ^ 32 - 1))"

text \<open>\<open>None\<close>: the file cannot be opened.\<close>

definition position_quadrant :: "string option \<Rightarrow> byte" where
  "position_quadrant file = (case file of None \<Rightarrow> 255 | Some txt \<Rightarrow> of_nat (read_unsigned txt))"

section \<open>Properties\<close>

lemma le_decode_4_inj:
  assumes "length xs = 4" and "length ys = 4" and "(le_decode xs :: u32) = le_decode ys"
  shows "xs = ys"
proof -
  have enc: "le_encode 4 (le_decode zs :: u32) = zs" if l: "length zs = 4" for zs
  proof -
    obtain a b c d where zs: "zs = [a, b, c, d]"
      using l by (auto simp: eval_nat_numeral length_Suc_conv)
    let ?w = "le_decode [a, b, c, d] :: u32"
    have "ucast ?w = a" by (rule bit_word_eqI) (auto simp: bit_simps dest: bit_imp_le_length)
    moreover have "ucast (drop_bit 8 ?w) = b"
      by (rule bit_word_eqI) (auto simp: bit_simps dest: bit_imp_le_length)
    moreover have "ucast (drop_bit 16 ?w) = c"
      by (rule bit_word_eqI) (auto simp: bit_simps dest: bit_imp_le_length)
    moreover have "ucast (drop_bit 24 ?w) = d"
      by (rule bit_word_eqI) (auto simp: bit_simps dest: bit_imp_le_length)
    ultimately show ?thesis by (simp add: zs eval_nat_numeral(2,3) drop_bit_drop_bit)
  qed
  show ?thesis using enc [OF assms(1)] enc [OF assms(2)] assms(3) by metis
qed

lemma decode_one: "le_decode [1, 0, 0, 0] = (1 :: u32)" and decode_zero: "le_decode [0, 0, 0, 0] = (0 :: u32)"
  by simp_all

text \<open>
  Two vehicles use the same System V key, hence the same shared memory, exactly when the last four
  bytes of their MAC addresses agree, up to the two values 0 and 1 that both give the key 1; the key
  is never 0 (\<open>IPC_PRIVATE\<close>).
\<close>

theorem make_key_collision:
  assumes "length a = 6" and "length b = 6"
  shows "make_key a \<noteq> 0 \<and>
    (make_key a = make_key b \<longleftrightarrow> drop 2 a = drop 2 b \<or>
      {drop 2 a, drop 2 b} \<subseteq> {[0, 0, 0, 0], [1, 0, 0, 0]})"
proof -
  have p: "peek 2 4 a = drop 2 a" "peek 2 4 b = drop 2 b" using assms by (simp_all add: peek_def)
  have l: "length (drop 2 a) = 4" "length (drop 2 b) = 4" using assms by simp_all
  have inj: "xs = ys" if "(le_decode xs :: u32) = le_decode ys" "length xs = 4" "length ys = 4" for xs ys
    using le_decode_4_inj that by blast
  have z: "(le_decode xs :: u32) = 0 \<longleftrightarrow> xs = [0, 0, 0, 0]" if "length xs = 4" for xs
    using inj [of xs "[0, 0, 0, 0]"] that decode_zero by auto
  have o: "(le_decode xs :: u32) = 1 \<longleftrightarrow> xs = [1, 0, 0, 0]" if "length xs = 4" for xs
    using inj [of xs "[1, 0, 0, 0]"] that decode_one by auto
  show ?thesis
    using z [OF l(1)] z [OF l(2)] o [OF l(1)] o [OF l(2)] inj [OF _ l]
    by (auto simp: make_key_def Let_def p)
qed

theorem make_key_collision_witness:
  "make_key [9, 9, 0, 0, 0, 0] = make_key [2, 3, 1, 0, 0, 0]"
  using make_key_collision [of "[9, 9, 0, 0, 0, 0]" "[2, 3, 1, 0, 0, 0]"] by simp

text \<open>
  In every scenario the gateway and the components together fit the eight reader entries of the
  shared memory; every quantity asked for has its own port.
\<close>

theorem scenario_fits_channel:
  "length (scenario name) + 1 \<le> PROCS \<and>
   wants (on_the_bus name) \<union> offers (on_the_bus name) \<subseteq> set quantities_in_use"
  by (auto simp: scenario_def on_the_bus_def PROCS_def wants_def offers_def quantities_in_use_def)

text \<open>
  In the default scenario every quantity a component asks for is produced by another one,
  except the current of \<open>CompE\<close>, which nothing produces; the voltage it produces is asked for by
  nobody. In \<open>silent_producer\<close> nothing that is asked for is produced.
\<close>

theorem scenario_unserved:
  "wants (on_the_bus ''default'') - offers (on_the_bus ''default'') = {Current} \<and>
   offers (on_the_bus ''default'') - wants (on_the_bus ''default'') = {Voltage} \<and>
   wants (on_the_bus ''basic_local'') \<subseteq> offers (on_the_bus ''basic_local'') \<and>
   wants (on_the_bus ''fanout_local'') \<subseteq> offers (on_the_bus ''fanout_local'') \<and>
   wants (on_the_bus ''silent_producer'') \<inter> offers (on_the_bus ''silent_producer'') = {}"
  by (auto simp: scenario_def on_the_bus_def wants_def offers_def)

section \<open>Processes\<close>

lemma process_ok: "\<forall>a\<in>set macs. length a = 6 \<Longrightarrow> node_ok (process macs)"
  by (auto simp: process_def node_ok_def heap_ok_def wired_def queued_def nic_ok_def new_nic_def
      pool_ok_zero [unfolded zero_pool_def, simplified])

lemma proto_new_ok: "node_ok s \<Longrightarrow> n < length (nics s) \<Longrightarrow> node_ok (proto_new n s)"
  using attach_nic_ok [of s n]
  by (simp add: proto_new_def node_ok_def heap_ok_def wired_def queued_def)

lemma comm_create_fields:
  "length (comms (comm_create a s)) = Suc (length (comms s))"
  "c_subscribers (comms (comm_create a s) ! length (comms s)) = []"
  by (simp_all add: comm_create_def proto_attach_def)

lemma smart_data_start_ok:
  "node_ok s \<Longrightarrow> length mac = 6 \<Longrightarrow> node_ok (smart_data_start mac sd s)"
  unfolding smart_data_start_def
  by (intro endpoint_create_ok comm_create_ok) (simp_all add: comm_create_fields)

lemma smart_datas_ok:
  "node_ok s \<Longrightarrow> length mac = 6 \<Longrightarrow> node_ok (fold (smart_data_start mac) sds s)"
  by (induction sds arbitrary: s) (simp_all add: smart_data_start_ok)

lemma nics_process: "length (nics (process macs)) = length macs"
  by (simp add: process_def)

lemma component_boot_ok: "length mac = 6 \<Longrightarrow> node_ok (component_boot mac c)"
  unfolding component_boot_def
  by (intro smart_datas_ok proto_new_ok process_ok) (simp_all add: nics_process)

lemma two_nic_boot_ok:
  assumes "length a = 6" and "length b = 6"
  shows "node_ok (proto_attach_nic 1 (endpoint_create 0 (comm_create \<lparr>paddr = a, port = p\<rparr>
      (proto_new 0 (process [a, b])))))"
proof -
  have "node_ok (proto_new 0 (process [a, b]))"
    using assms by (intro proto_new_ok process_ok) (simp_all add: nics_process)
  moreover have "comms (proto_new 0 (process [a, b])) = []"
    by (simp add: proto_new_def proto_attach_nic_def process_def)
  ultimately have "node_ok (endpoint_create 0 (comm_create \<lparr>paddr = a, port = p\<rparr> (proto_new 0 (process [a, b]))))"
    using assms comm_create_fields [of "\<lparr>paddr = a, port = p\<rparr>" "proto_new 0 (process [a, b])"]
    by (intro endpoint_create_ok comm_create_ok) simp_all
  then show ?thesis
    by (rule attach_nic_ok)
      (simp add: endpoint_create_def comm_subscribe_def comm_create_def proto_attach_def proto_new_def
        proto_attach_nic_def process_def)
qed

text \<open>
  C21: the processes the program builds, that is every component, the time client and the gateway with
  and without its SmartData, start in a state from which no sequence of stack operations faults or
  loses a message.
\<close>

theorem processes_memory_safe:
  assumes "length mac = 6" and "length rs_mac = 6"
    and "s = component_boot mac c \<or> s = time_client_boot mac rs_mac \<or> s = gateway_boot mac \<or>
      s = gateway_setup mac (gateway_boot mac)"
    and "run_ok ops s"
  shows "\<exists>t. stack_run ops s = Inr t \<and> set (queued t) = dom (heap t) \<and> distinct (queued t)"
proof -
  have "node_ok (gateway_boot mac)" "node_ok (time_client_boot mac rs_mac)"
    using two_nic_boot_ok assms(1,2) by (simp_all add: gateway_boot_def time_client_boot_def)
  then have "node_ok s"
    using assms(1,3) component_boot_ok smart_datas_ok by (auto simp: gateway_setup_def)
  from stack_run_ok [OF this assms(4)] show ?thesis by (auto simp: node_ok_def heap_ok_def)
qed

theorem processes_memory_safe_witness:
  "\<exists>t. stack_run [Set_Quadrant 1] (gateway_setup some_mac (gateway_boot some_mac)) = Inr t \<and>
     set (queued t) = dom (heap t) \<and> distinct (queued t)"
  by (rule processes_memory_safe [where mac = some_mac and rs_mac = some_mac])
    (simp_all add: some_mac_def)

text \<open>
  A message the gateway sends goes out on the network and on the shared memory, as the same frame.
\<close>

theorem gateway_sends_on_both:
  assumes "length mac = 6" and "message_ok m" and "0 < m_size m"
  shows "\<exists>t w. comm_send pos 0 m (gateway_boot mac) = Inr (True, t) \<and> on_wire t = [(0, w), (1, w)] \<and>
    w = wire_frame mac \<lparr>paddr = mac, port = PORT_GATEWAY\<rparr> \<lparr>paddr = BROADCAST, port = PORT_GATEWAY\<rparr>
      pos (msg_bytes m)"
proof -
  let ?s = "gateway_boot mac"
  have f: "p_nics ?s = [0, 1]" "on_wire ?s = []" "p_quadrant ?s = 255"
    "nics ?s = [\<lparr>n_address = mac, pool = zero_pool, n_observers = [(PROTO, ())]\<rparr>,
      \<lparr>n_address = mac, pool = zero_pool, n_observers = [(PROTO, ())]\<rparr>]"
    "c_address (comms ?s ! 0) = \<lparr>paddr = mac, port = PORT_GATEWAY\<rparr>"
    by (simp_all add: gateway_boot_def endpoint_create_def comm_subscribe_def comm_create_def
        proto_attach_def proto_new_def proto_attach_nic_def process_def new_nic_def attach_def
        zero_pool_def)
  have ok: "node_ok ?s" using two_nic_boot_ok [OF assms(1,1)] by (simp add: gateway_boot_def)
  have sz: "m_size m \<le> length (m_data m)" "m_size m \<le> PROTOCOL_MTU"
    using assms(2) by (simp_all add: message_ok_def MAX_SIZE_def PROTOCOL_MTU_def MTU_def header_size_def)
  have n: "\<forall>n\<in>set [0, 1]. n < length (nics ?s)" by (simp add: f)
  from send_nics_spec [OF ok n, of "\<lparr>paddr = BROADCAST, port = PORT_GATEWAY\<rparr>" "m_size m" "m_data m" pos
      "c_address (comms ?s ! 0)"] sz
  obtain t where "send_nics pos (c_address (comms ?s ! 0)) \<lparr>paddr = BROADCAST, port = PORT_GATEWAY\<rparr>
      (m_data m) (m_size m) [0, 1] ?s = Inr t" and
    "on_wire t = frames_out ?s [0, 1] (c_address (comms ?s ! 0)) \<lparr>paddr = BROADCAST, port = PORT_GATEWAY\<rparr>
      (my_quadrant pos ?s) (msg_bytes m)"
    by (auto simp: f(2) msg_bytes_def)
  then show ?thesis
    using assms(3)
    by (simp add: comm_send_def proto_send_def Let_def f frames_out_def free_slots_zero_pool
        lessThan_empty_iff my_quadrant_def get_quadrant_def)
qed

theorem gateway_sends_on_both_witness:
  "\<exists>t w. comm_send 3 0 (text_message [65]) (gateway_boot some_mac) = Inr (True, t) \<and>
     on_wire t = [(0, w), (1, w)]"
proof -
  have "message_ok (text_message [65])" by (rule text_message_ok) (simp add: MAX_SIZE_def)
  moreover have "0 < m_size (text_message [65])" by (simp add: text_message_def)
  moreover have "length some_mac = 6" by (simp add: some_mac_def)
  ultimately show ?thesis using gateway_sends_on_both [of some_mac "text_message [65]" 3] by blast
qed

section \<open>Position\<close>

lemma digit_char: "d < 10 \<Longrightarrow> is_digit (char_of (48 + d)) \<and> (of_char (char_of (48 + d)) :: nat) = 48 + d"
  by (simp add: is_digit_def)

lemma decimal_digits: "list_all is_digit (decimal n) \<and> decimal n \<noteq> []"
proof (induction n rule: decimal.induct)
  case (1 n)
  show ?case
  proof (cases "n < 10")
    case True
    then show ?thesis using digit_char [of n] by (simp add: decimal.simps [of n])
  next
    case False
    then show ?thesis using 1 digit_char [of "n mod 10"] by (simp add: decimal.simps [of n])
  qed
qed

lemma decimal_value: "foldl (\<lambda>v c. 10 * v + (of_char c - 48)) 0 (decimal n) = n"
proof (induction n rule: decimal.induct)
  case (1 n)
  show ?case
  proof (cases "n < 10")
    case True
    then show ?thesis using digit_char [of n] by (simp add: decimal.simps [of n])
  next
    case False
    then show ?thesis using 1 digit_char [of "n mod 10"] by (simp add: decimal.simps [of n])
  qed
qed

lemma decimal_length: "n < 256 \<Longrightarrow> length (decimal n) \<le> 3"
  by (simp add: decimal.simps [of n] decimal.simps [of "n div 10"] decimal.simps [of "n div 10 div 10"])

lemma digit_not_space: "is_digit c \<Longrightarrow> \<not> is_space c"
  by (auto simp: is_digit_def is_space_def)

text \<open>
  \<open>Position::quadrant\<close> reads back exactly the quadrant the kernel module prints, for every
  value of its byte, and what is printed fits the module's buffer of eight characters; without the
  file it is 255.
\<close>

theorem position_roundtrip:
  "position_quadrant (Some (proc_read q)) = q \<and> length (proc_read q) < 8 \<and> position_quadrant None = 255"
proof -
  let ?ds = "decimal (unat q)"
  have d: "list_all is_digit ?ds" "?ds \<noteq> []" using decimal_digits by simp_all
  have "dropWhile is_space (proc_read q) = proc_read q"
    using d digit_not_space by (cases ?ds) (simp_all add: proc_read_def)
  moreover have "takeWhile is_digit (proc_read q) = ?ds"
    using d(1) by (simp add: proc_read_def list_all_iff is_digit_def)
  moreover have "unat q < 256" using unsigned_less [of q, where ?'a = nat] by simp
  ultimately have "read_unsigned (proc_read q) = unat q"
    using decimal_value [of "unat q"] by (simp add: read_unsigned_def)
  then show ?thesis
    using decimal_length [OF \<open>unat q < 256\<close>] by (simp add: position_quadrant_def proc_read_def)
qed

end

