(* ===== verification/Smart_Bus.thy ===== *)
theory Smart_Bus
  imports Vehicle_Bus Smart_Data Vehicle
begin

text \<open>
  The SmartData of a vehicle's processes on their shared memory: each SmartData sends through its
  communicator and takes messages from its queue (\<open>interested_smart_data.hpp\<close>,
  \<open>responsive_smart_data.hpp\<close>), the processes are members of the bus.
\<close>

section \<open>SmartData on the stack\<close>

text \<open>
  \<open>updated_for\<close> and the \<open>delete\<close> at the end of the turn; nothing in between touches the heap.
\<close>

definition sd_take :: "nat \<Rightarrow> node \<Rightarrow> runtime_error + (message option \<times> node)" where
  "sd_take k s =
     and_then (co_updated_for (consumers s ! k)) (\<lambda>(d, ob).
       let s1 = s\<lparr>consumers := (consumers s)[k := ob]\<rparr> in
       case d of None \<Rightarrow> Inr (None, s1)
       | Some p \<Rightarrow> (case heap s1 p of None \<Rightarrow> Inl Use_After_Free
           | Some m \<Rightarrow> and_then (delete_msg p s1) (\<lambda>s2. Inr (Some m, s2))))"

datatype sd_obj = Consumer interested | Producer responsive

text \<open>The objects of each process by their number, which is that of their communicator and queue.\<close>

record sd_sys =
  sd_bus :: bus_sys
  sd_objs :: "sd_obj list list"

definition obj_at :: "nat \<Rightarrow> nat \<Rightarrow> sd_sys \<Rightarrow> sd_obj" where
  "obj_at p k v = sd_objs v ! p ! k"

definition set_obj :: "nat \<Rightarrow> nat \<Rightarrow> sd_obj \<Rightarrow> sd_sys \<Rightarrow> sd_sys" where
  "set_obj p k ob v = v\<lparr>sd_objs := (sd_objs v)[p := (sd_objs v ! p)[k := ob]]\<rparr>"

datatype sd_error = On_Bus bus_error | No_Such_Thread

fun sd_send_all :: "nat \<Rightarrow> byte \<Rightarrow> nat \<Rightarrow> message list \<Rightarrow> sd_sys \<Rightarrow> sd_error + sd_sys" where
  "sd_send_all p pos k [] v = Inr v"
| "sd_send_all p pos k (m # ms) v =
     (case bus_send p pos k m (sd_bus v) of Inl e \<Rightarrow> Inl (On_Bus e)
      | Inr b \<Rightarrow> sd_send_all p pos k ms (v\<lparr>sd_bus := b\<rparr>))"

text \<open>The \<open>send_interest\<close> before the loop of a consumer.\<close>

definition sd_start :: "nat \<Rightarrow> nat \<Rightarrow> byte \<Rightarrow> timespec \<Rightarrow> message \<Rightarrow> sd_sys \<Rightarrow> sd_error + sd_sys" where
  "sd_start p k pos ts junk v =
     (case obj_at p k v of Producer ob \<Rightarrow> Inr v
      | Consumer ob \<Rightarrow> sd_send_all p pos k [send_interest pos ts junk ob] v)"

text \<open>One turn of the loop of either kind.\<close>

definition sd_turn :: "(u64 \<Rightarrow> u64 \<Rightarrow> u64) \<Rightarrow> nat \<Rightarrow> nat \<Rightarrow> byte \<Rightarrow> timespec \<Rightarrow> timespec \<Rightarrow> message \<Rightarrow> sd_sys
    \<Rightarrow> sd_error + sd_sys" where
  "sd_turn fadd p k pos ts ts2 junk v =
     (case sd_take k (node_at p (sd_bus v)) of Inl e \<Rightarrow> Inl (On_Bus (Fault e))
      | Inr (got, t) \<Rightarrow>
          (let v' = v\<lparr>sd_bus := set_node p t (sd_bus v)\<rparr> in
           case obj_at p k v of
             Consumer ob \<Rightarrow> (case isd_turn fadd pos ts ts2 junk got ob of (out, ob') \<Rightarrow>
               sd_send_all p pos k out (set_obj p k (Consumer ob') v'))
           | Producer ob \<Rightarrow> Inr (set_obj p k (Producer (rsd_turn got ob)) v')))"

text \<open>The task of one of the producer's periodic threads.\<close>

definition sd_respond :: "(int \<Rightarrow> u64) \<Rightarrow> nat \<Rightarrow> nat \<Rightarrow> nat \<Rightarrow> byte \<Rightarrow> timespec \<Rightarrow> message \<Rightarrow> int \<Rightarrow> sd_sys
    \<Rightarrow> sd_error + sd_sys" where
  "sd_respond to_double p k j pos ts junk sensed v =
     (case obj_at p k v of Consumer ob \<Rightarrow> Inl No_Such_Thread
      | Producer ob \<Rightarrow>
          if j < length (periodic_threads ob)
          then sd_send_all p pos k [send_response to_double sensed pos ts junk ob] v
          else Inl No_Such_Thread)"

datatype sd_op = Sd_Start nat nat byte timespec message | Sd_Read nat byte frame
  | Sd_Turn nat nat byte timespec timespec message | Sd_Respond nat nat nat byte timespec message int

fun sd_exec :: "(u64 \<Rightarrow> u64 \<Rightarrow> u64) \<Rightarrow> (int \<Rightarrow> u64) \<Rightarrow> sd_op \<Rightarrow> sd_sys \<Rightarrow> sd_error + sd_sys" where
  "sd_exec fadd to_double (Sd_Start p k pos ts junk) v = sd_start p k pos ts junk v"
| "sd_exec fadd to_double (Sd_Read p pos tmp) v =
     (case bus_read p pos tmp (sd_bus v) of Inl e \<Rightarrow> Inl (On_Bus e) | Inr b \<Rightarrow> Inr (v\<lparr>sd_bus := b\<rparr>))"
| "sd_exec fadd to_double (Sd_Turn p k pos ts ts2 junk) v = sd_turn fadd p k pos ts ts2 junk v"
| "sd_exec fadd to_double (Sd_Respond p k j pos ts junk sensed) v =
     sd_respond to_double p k j pos ts junk sensed v"

section \<open>Taking messages\<close>

lemma sd_take_front:
  assumes "node_ok s" and "k < length (consumers s)" and "mailbox k s = m # ms"
  obtains t where "sd_take k s = Inr (Some m, t)" and "node_ok t" and "mailbox k t = ms" and "\<And>n. still n 0 s t"
proof -
  obtain p q where q: "queue (consumers s ! k) = p # q" "heap s p = Some m" "map (the \<circ> heap s) q = ms"
    by (rule mailbox_front [OF assms])
  obtain b x t where r: "endpoint_receive k m s = Inr (b, x, t)" "node_ok t"
    by (rule receive_ok [OF assms(1,2)])
  have "co_ok (consumers s ! k)" using assms by (simp add: node_ok_def heap_ok_def)
  from co_updated_for_ok [OF this] q(1,2) r(1)
  have rx: "sd_take k s = Inr (Some m, t)" "b = (0 < m_size m)" "x = m"
    by (auto simp: sd_take_def endpoint_receive_def Let_def and_then_Inr_iff delete_msg_def)
  have mt: "mail_of t = mail_take k (mail_of s)" by (rule receive_mail(1) [OF assms(1,2) r(1)])
  have "length (consumers t) = length (consumers s)"
    using arg_cong [OF mt, of "\<lambda>b. length (boxes b)"] by (simp add: mail_of_def mail_take_def)
  then have k: "k < length (consumers t)" using assms(2) by simp
  have "boxes (mail_of t) ! k = tl (boxes (mail_of s) ! k)"
    using assms(2) by (simp add: mt mail_take_def) (simp add: mail_of_def)
  then have "mailbox k t = ms" using assms(2,3) k by (simp add: box_mailbox)
  then show ?thesis using that rx(1) r(2) still_receive [OF assms(1,2) r(1)] by blast
qed

section \<open>Runs of one kind\<close>

lemma set_obj_simps [simp]:
  "sd_bus (set_obj p k ob v) = sd_bus v"
  "p < length (sd_objs v) \<Longrightarrow> k < length (sd_objs v ! p) \<Longrightarrow> obj_at p k (set_obj p k ob v) = ob"
  "(q, l) \<noteq> (p, k) \<Longrightarrow> obj_at q l (set_obj p k ob v) = obj_at q l v"
  "length (sd_objs (set_obj p k ob v)) = length (sd_objs v)"
  "length (sd_objs (set_obj p k ob v) ! q) = length (sd_objs v ! q)"
  "obj_at q l (v\<lparr>sd_bus := b\<rparr>) = obj_at q l v"
  "set_obj p k ob (v\<lparr>sd_bus := b\<rparr>) = (set_obj p k ob v)\<lparr>sd_bus := b\<rparr>"
  by (auto simp: set_obj_def obj_at_def)
    (metis nth_list_update_eq nth_list_update_neq list_update_beyond not_le length_list_update)+

text \<open>The messages of SmartData as posts on the bus.\<close>

lemma respond_posts:
  assumes "obj_at r l v = Producer ob" and "j < length (periodic_threads ob)"
  shows "run_all (sd_exec fadd to_double) (map (\<lambda>(ts, x). Sd_Respond r l j pos ts junk x) rs) v =
    (case run_all bus_exec (map (\<lambda>(ts, x). Bus_Send r pos l (send_response to_double x pos ts junk ob)) rs) (sd_bus v)
     of Inl e \<Rightarrow> Inl (On_Bus e) | Inr b \<Rightarrow> Inr (v\<lparr>sd_bus := b\<rparr>))"
  using assms
proof (induction rs arbitrary: v)
  case Nil
  then show ?case by simp
next
  case (Cons x rs)
  then show ?case
    by (cases x; cases "bus_send r pos l (send_response to_double (snd x) pos (fst x) junk ob) (sd_bus v)")
      (simp_all add: sd_respond_def split: sum.split)
qed

lemma bus_ok_take:
  assumes "bus_ok b" and "p < length (members b)" and "node_ok t" and "still n 0 (node_at p b) t"
  shows "bus_ok (set_node p t b)"
proof -
  have "nic_at p b < length (nics t)"
    using bus_ok_member(2) [OF assms(1,2)] assms(4) by (simp add: still_def same_layout_def)
  then have "bus_ok ((set_node p t b)\<lparr>ring_of := ring_of b\<rparr>)"
    using assms(1) by (intro bus_ok_set_node assms(1-3)) (simp_all add: bus_ok_def)
  moreover have "(set_node p t b)\<lparr>ring_of := ring_of b\<rparr> = set_node p t b"
    by (cases b) (simp add: set_node_def nic_at_def)
  ultimately show ?thesis by simp
qed

text \<open>A consumer's turns on messages it finds in its queue.\<close>

lemma turns_consume:
  assumes "bus_ok (sd_bus v)" and "p < length (members (sd_bus v))" and "p < length (sd_objs v)"
    and "k < length (sd_objs v ! p)" and "k < length (consumers (node_at p (sd_bus v)))"
    and "obj_at p k v = Consumer ob" and "mailbox k (node_at p (sd_bus v)) = ms" and "length us = length ms"
  shows "\<exists>w. run_all (sd_exec fadd to_double) (map (\<lambda>(ts, ts2, junk). Sd_Turn p k pos ts ts2 junk) us) v = Inr w \<and>
    bus_ok (sd_bus w) \<and> mailbox k (node_at p (sd_bus w)) = [] \<and>
    obj_at p k w = Consumer (snd (isd_run fadd (map (\<lambda>((ts, ts2, junk), m).
      \<lparr>ev_pos = pos, ev_now = ts, ev_now2 = ts2, ev_junk = junk, ev_got = Some m\<rparr>) (zip us ms)) ob)) \<and>
    (\<forall>q l. (q, l) \<noteq> (p, k) \<longrightarrow> obj_at q l w = obj_at q l v)"
  using assms
proof (induction ms arbitrary: v us ob)
  case Nil
  then show ?case by simp
next
  case (Cons m ms)
  obtain ts ts2 junk us' where us: "us = (ts, ts2, junk) # us'" "length us' = length ms"
    using Cons.prems(8) by (cases us) auto
  note ok = bus_ok_member [OF Cons.prems(1,2)]
  let ?b = "sd_bus v"
  obtain t where t: "sd_take k (node_at p ?b) = Inr (Some m, t)" "node_ok t" "mailbox k t = ms"
      "\<And>n. still n 0 (node_at p ?b) t"
    by (rule sd_take_front [OF ok(1) Cons.prems(5,7)]) blast
  obtain ob' where ob': "isd_turn fadd pos ts ts2 junk (Some m) ob = ([], ob')"
    by (cases "isd_turn fadd pos ts ts2 junk (Some m) ob") (auto simp: isd_turn_def Let_def split: if_splits)
  let ?v = "set_obj p k (Consumer ob') (v\<lparr>sd_bus := set_node p t ?b\<rparr>)"
  have e: "sd_turn fadd p k pos ts ts2 junk v = Inr ?v"
    using t(1) Cons.prems(6) ob' by (simp add: sd_turn_def Let_def)
  have lay: "length (nics t) = length (nics (node_at p ?b))" "length (consumers t) = length (consumers (node_at p ?b))"
    using t(4) [of 0] by (simp_all add: still_def same_layout_def)
  have b: "bus_ok (sd_bus ?v)" using bus_ok_take [OF Cons.prems(1,2) t(2,4)] by simp
  obtain w where w: "run_all (sd_exec fadd to_double) (map (\<lambda>(ts, ts2, junk). Sd_Turn p k pos ts ts2 junk) us') ?v = Inr w"
      "bus_ok (sd_bus w)" "mailbox k (node_at p (sd_bus w)) = []"
      "obj_at p k w = Consumer (snd (isd_run fadd (map (\<lambda>((ts, ts2, junk), m).
        \<lparr>ev_pos = pos, ev_now = ts, ev_now2 = ts2, ev_junk = junk, ev_got = Some m\<rparr>) (zip us' ms)) ob'))"
      "\<forall>q l. (q, l) \<noteq> (p, k) \<longrightarrow> obj_at q l w = obj_at q l ?v"
    using Cons.IH [OF b, of ob' us'] Cons.prems(2-5) t(3) lay us(2) by auto
  show ?case
    using w e us(1) ob' by (intro exI [of _ w]) (auto split: prod.splits)
qed

section \<open>An exchange\<close>

text \<open>
  SmartData \<open>k\<close> of process \<open>p\<close> on port \<open>pt\<close> in quadrant \<open>qd\<close>, with nothing to read and nothing
  in its queue, and buffers for \<open>j\<close> frames.
\<close>

definition sd_ready :: "u16 \<Rightarrow> byte \<Rightarrow> byte \<Rightarrow> nat \<Rightarrow> nat \<Rightarrow> nat \<Rightarrow> sd_sys \<Rightarrow> bool" where
  "sd_ready pt qd pos j p k v \<longleftrightarrow>
     (let b = sd_bus v; s = node_at p b; n = nic_at p b in
      p < length (members b) \<and> p < length (sd_objs v) \<and> k < length (sd_objs v ! p) \<and>
      distinct (p_nics s) \<and> n \<in> set (p_nics s) \<and> k < length (comms s) \<and> port (c_address (comms s ! k)) = pt \<and>
      can_hear pt qd pos k j s n \<and> mailbox k s = [] \<and> backlog p (ring_of b) = 0)"

text \<open>The number of the first thread with a period.\<close>

definition thread_of :: "u64 \<Rightarrow> responsive \<Rightarrow> nat" where
  "thread_of period ob = length (takeWhile (\<lambda>q. q \<noteq> period) (periodic_threads ob))"

lemma sent_interest:
  "message_ok (send_interest pos ts junk ob)" "0 < m_size (send_interest pos ts junk ob)"
  "msg_bytes (send_interest pos ts junk ob) = enc_interest (interest_of (isd_unit ob) (isd_period ob) pos ts)"
  using payload_message_holds [of "enc_interest (interest_of (isd_unit ob) (isd_period ob) pos ts)" junk]
    holds_interest [of "send_interest pos ts junk ob"]
  by (simp_all add: send_interest_def holds_bytes_def MAX_SIZE_def)

lemma sent_response:
  "message_ok (send_response to_double x pos ts junk ob)" "0 < m_size (send_response to_double x pos ts junk ob)"
  "msg_bytes (send_response to_double x pos ts junk ob) = enc_response (response_of (rsd_unit ob) pos ts (to_double x))"
  using payload_message_holds [of "enc_response (response_of (rsd_unit ob) pos ts (to_double x))" junk]
    holds_response [of "send_response to_double x pos ts junk ob"]
  by (simp_all add: send_response_def holds_bytes_def MAX_SIZE_def)

lemma says_holds: "says m l \<Longrightarrow> message_ok m \<Longrightarrow> holds_bytes m (l_payload l)"
  by (simp add: says_def holds_bytes_def)

lemma ready_can_send:
  assumes "bus_ok (sd_bus v)" and "sd_ready pt qd pos j p k v" and "still (nic_at p (sd_bus v)) i (node_at p (sd_bus v)) t"
    and "i < j" and "message_ok m" and "0 < m_size m"
  shows "can_send pt qd pos k m t (nic_at p (sd_bus v))"
proof -
  note rd = assms(2) [unfolded sd_ready_def Let_def can_hear_def]
  have "0 < card (free_slots (pool (nics (node_at p (sd_bus v)) ! nic_at p (sd_bus v))))" using rd assms(4) by linarith
  then have "free_slots (pool (nics (node_at p (sd_bus v)) ! nic_at p (sd_bus v))) \<noteq> {}" by auto
  then have "can_send pt qd pos k m (node_at p (sd_bus v)) (nic_at p (sd_bus v))"
    using rd assms(5,6) by (simp add: can_send_def)
  moreover have "i < card (free_slots (pool (nics (node_at p (sd_bus v)) ! nic_at p (sd_bus v))))"
    using rd assms(4) by linarith
  moreover have "nic_at p (sd_bus v) < length (nics (node_at p (sd_bus v)))"
    by (rule bus_ok_member(2) [OF assms(1)]) (use rd in simp)
  ultimately show ?thesis using still_can_send(2) [OF assms(3)] by blast
qed

lemma posted_at:
  assumes "posted qd ls b u" and "bus_ok b" and "r < length (members b)"
  shows "nic_at r u = nic_at r b" and "still (nic_at r b) 0 (node_at r b) (node_at r u)"
    and "mailbox k (node_at r u) = mailbox k (node_at r b)"
    and "pending r (ring_of u) = pending r (ring_of b) @ map (letter_frame qd) ls"
    and "backlog r (ring_of u) = backlog r (ring_of b) + length ls"
proof -
  have p: "nic_at r u = nic_at r b" "after_send (node_at r b) (node_at r u)"
      "pending r (ring_of u) = pending r (ring_of b) @ map (letter_frame qd) ls"
    using assms(1,3) by (simp_all add: posted_def)
  note as = after_send_still [OF p(2) bus_ok_member(2) [OF assms(2,3)]]
  show "nic_at r u = nic_at r b" "still (nic_at r b) 0 (node_at r b) (node_at r u)"
    "mailbox k (node_at r u) = mailbox k (node_at r b)"
    "pending r (ring_of u) = pending r (ring_of b) @ map (letter_frame qd) ls"
    using p as by simp_all
  show "backlog r (ring_of u) = backlog r (ring_of b) + length ls"
    using arg_cong [OF p(3), of length] by simp
qed

lemma thread_started:
  assumes "holds_bytes m (enc_interest (interest_of u period pos ts))"
    and "active_periods d = set (periodic_threads d)"
  shows "thread_of period d < length (periodic_threads (rsd_turn (Some m) d)) \<and>
    periodic_threads (rsd_turn (Some m) d) ! thread_of period d = period"
proof -
  let ?ts = "periodic_threads d"
  have t: "periodic_threads (rsd_turn (Some m) d) = (if period \<in> set ?ts then ?ts else ?ts @ [period])"
    using holds_interest [OF assms(1)] assms(2)
    by (simp add: rsd_turn_def Let_def sizeof_interest_def interest_of_def)
  show ?thesis
  proof (cases "period \<in> set ?ts")
    case True
    have "takeWhile (\<lambda>q. q \<noteq> period) ?ts \<noteq> ?ts" using True by (auto simp: takeWhile_eq_all_conv)
    then have "thread_of period d < length ?ts"
      using length_takeWhile_le [of "\<lambda>q. q \<noteq> period" ?ts] takeWhile_eq_take [of "\<lambda>q. q \<noteq> period" ?ts]
      by (metis le_neq_implies_less take_all_iff order.refl thread_of_def)
    then show ?thesis using True nth_length_takeWhile [of "\<lambda>q. q \<noteq> period" ?ts] by (simp add: t thread_of_def)
  next
    case False
    then have "takeWhile (\<lambda>q. q \<noteq> period) ?ts = ?ts" by (auto simp: takeWhile_eq_all_conv)
    then have "thread_of period d = length ?ts" by (simp only: thread_of_def)
    then show ?thesis using False by (simp add: t)
  qed
qed

text \<open>The first half: the interest reaches the producer, which has a thread of its period then.\<close>

text \<open>
  Whatever is sent from the threads of a process, another reads it from the ring together with what it
  had not read yet; nobody else is touched.
\<close>

lemma posts_heard:
  assumes "bus_ok b" and "posts_ok pt qd ps b" and "all_have_room (length ps) b" and "pt \<noteq> 0"
    and "p < length (members b)" and "can_hear pt qd pos k (length (pre @ letters_of ps b)) (node_at p b) (nic_at p b)"
    and "pending p (ring_of b) = map (letter_frame qd) pre" and "\<forall>l\<in>set (pre @ letters_of ps b). letter_ok pt l"
    and "length tmp = frame_size"
  obtains b1 b2 ms where "run_all bus_exec (map post_op ps) b = Inr b1" and "posted qd (letters_of ps b) b b1"
    and "bus_read p pos tmp b1 = Inr b2" and "bus_ok b2" and "length (members b2) = length (members b)"
    and "\<And>q. q < length (members b) \<Longrightarrow> nic_at q b2 = nic_at q b"
    and "\<And>q. q \<noteq> p \<Longrightarrow> node_at q b2 = node_at q b1"
    and "\<And>q. q \<noteq> p \<Longrightarrow> pending q (ring_of b2) = pending q (ring_of b1)" and "backlog p (ring_of b2) = 0"
    and "mailbox k (node_at p b2) = mailbox k (node_at p b) @ ms" and "list_all2 says ms (pre @ letters_of ps b)"
    and "\<forall>m\<in>set ms. message_ok m"
    and "still (nic_at p b) (length (pre @ letters_of ps b)) (node_at p b) (node_at p b2)"
proof -
  obtain b1 where b1: "run_all bus_exec (map post_op ps) b = Inr b1" "posted qd (letters_of ps b) b b1"
    using posts_written [OF assms(1-3)] by auto
  note at = posted_at [OF b1(2) assms(1)]
  have ok1: "bus_ok b1" and len1: "length (members b1) = length (members b)" using b1(2) by (simp_all add: posted_def)
  have hear: "can_hear pt qd pos k (length (pre @ letters_of ps b)) (node_at p b1) (nic_at p b1)"
    using still_can_hear [OF at(2) [OF assms(5)], of pt qd pos k "length (pre @ letters_of ps b)"] assms(6) at(1) [OF assms(5)]
    by simp
  have pd: "pending p (ring_of b1) = map (letter_frame qd) (pre @ letters_of ps b)"
    using at(4) [OF assms(5)] assms(7) by simp
  obtain b2 ms where "bus_read p pos tmp b1 = Inr b2 \<and> bus_ok b2 \<and> length (members b2) = length (members b1) \<and>
    (\<forall>j. nic_at j b2 = nic_at j b1) \<and> (\<forall>j. j \<noteq> p \<longrightarrow> node_at j b2 = node_at j b1) \<and>
    (\<forall>j. j \<noteq> p \<longrightarrow> pending j (ring_of b2) = pending j (ring_of b1)) \<and> backlog p (ring_of b2) = 0 \<and>
    mailbox k (node_at p b2) = mailbox k (node_at p b1) @ ms \<and> list_all2 says ms (pre @ letters_of ps b) \<and>
    (\<forall>m\<in>set ms. origin m = qd AND 0x3 \<and> message_ok m) \<and>
    still (nic_at p b1) (length (pre @ letters_of ps b)) (node_at p b1) (node_at p b2)"
    using bus_reads [OF ok1 _ assms(4) hear pd assms(8,9)] assms(5) len1 by auto
  then show thesis
    using that [OF b1, of b2 ms] at(1-3) assms(5) len1 still_trans [OF at(2) [OF assms(5)]] by simp
qed

lemma interest_arrives:
  assumes "bus_ok (sd_bus v)" and "all_have_room (Suc n) (sd_bus v)" and "pt \<noteq> 0" and "p \<noteq> r"
    and "sd_ready pt qd pos i p k v" and "sd_ready pt qd pos j r l v" and "0 < i" and "0 < j"
    and "obj_at p k v = Consumer c" and "obj_at r l v = Producer d"
    and "active_periods d = set (periodic_threads d)" and "length tmp = frame_size"
  obtains w d' l0 where "run_all (sd_exec fadd to_double)
      [Sd_Start p k pos ts junk, Sd_Read r pos tmp, Sd_Turn r l pos ts1 ts2 junk] v = Inr w"
    and "bus_ok (sd_bus w)" and "length (members (sd_bus w)) = length (members (sd_bus v))"
    and "all_have_room n (sd_bus w)" and "nic_at p (sd_bus w) = nic_at p (sd_bus v)" and "nic_at r (sd_bus w) = nic_at r (sd_bus v)"
    and "length (sd_objs w) = length (sd_objs v)" and "\<And>q. length (sd_objs w ! q) = length (sd_objs v ! q)"
    and "obj_at p k w = Consumer c" and "obj_at r l w = Producer d'"
    and "thread_of (isd_period c) d < length (periodic_threads d')"
    and "periodic_threads d' ! thread_of (isd_period c) d = isd_period c"
    and "still (nic_at p (sd_bus v)) 0 (node_at p (sd_bus v)) (node_at p (sd_bus w))"
    and "mailbox k (node_at p (sd_bus w)) = []" and "pending p (ring_of (sd_bus w)) = [letter_frame qd l0]"
    and "letter_ok pt l0" and "l_payload l0 = enc_interest (interest_of (isd_unit c) (isd_period c) pos ts)"
    and "still (nic_at r (sd_bus v)) 1 (node_at r (sd_bus v)) (node_at r (sd_bus w))"
proof -
  let ?b = "sd_bus v"
  let ?m = "send_interest pos ts junk c"
  note rp = assms(5) [unfolded sd_ready_def Let_def] and rr = assms(6) [unfolded sd_ready_def Let_def]
  have p: "p < length (members ?b)" and r: "r < length (members ?b)" using rp rr by simp_all
  have cs: "can_send pt qd pos k ?m (node_at p ?b) (nic_at p ?b)"
    by (rule ready_can_send [OF assms(1,5) still_refl assms(7) sent_interest(1,2)])
  then have po: "posts_ok pt qd [(p, pos, k, ?m)] ?b" using p by (simp add: posts_ok_def)
  have ro: "all_have_room (length [(p, pos, k, ?m)]) ?b" using assms(2) by (fastforce simp: all_have_room_def)
  let ?l0 = "letter_from (node_at p ?b) (nic_at p ?b) k ?m"
  have ls: "letters_of [(p, pos, k, ?m)] ?b = [?l0]" by (simp add: letters_of_def)
  have lo: "letter_ok pt ?l0" by (rule letter_from_ok [OF bus_ok_member(1,2) [OF assms(1) p] cs])
  have hear: "can_hear pt qd pos l (length ([] @ [?l0])) (node_at r ?b) (nic_at r ?b)"
    using rr assms(8) by (simp add: can_hear_def)
  have pd: "pending r (ring_of ?b) = map (letter_frame qd) []" using rr by (simp add: pending_def)
  obtain b1 b2 ms where b1: "run_all bus_exec (map post_op [(p, pos, k, ?m)]) ?b = Inr b1" "posted qd [?l0] ?b b1"
    and b2: "bus_read r pos tmp b1 = Inr b2" "bus_ok b2" "length (members b2) = length (members ?b)"
      "\<And>q. q < length (members ?b) \<Longrightarrow> nic_at q b2 = nic_at q ?b" "\<And>q. q \<noteq> r \<Longrightarrow> node_at q b2 = node_at q b1"
      "\<And>q. q \<noteq> r \<Longrightarrow> pending q (ring_of b2) = pending q (ring_of b1)" "backlog r (ring_of b2) = 0"
      "mailbox l (node_at r b2) = mailbox l (node_at r ?b) @ ms" "list_all2 says ms ([] @ [?l0])" "\<forall>m\<in>set ms. message_ok m"
      "still (nic_at r ?b) (length ([] @ [?l0])) (node_at r ?b) (node_at r b2)"
    by (rule posts_heard [OF assms(1) po ro assms(3) r, unfolded ls, OF hear pd _ assms(12)]) (use lo in simp_all)
  have sent: "bus_send p pos k ?m ?b = Inr b1" using b1(1) by (simp split: sum.splits)
  note at1 = posted_at [OF b1(2) assms(1)]
  obtain m1 where m1: "ms = [m1]" "says m1 ?l0" "message_ok m1" using b2(9,10) by (auto simp: list_all2_Cons2)
  have st2: "still (nic_at r ?b) 1 (node_at r ?b) (node_at r b2)" using b2(11) by simp
  have r2: "r < length (members b2)" using r b2(3) by simp
  have l2: "l < length (consumers (node_at r b2))" using st2 rr by (simp add: still_def same_layout_def can_hear_def)
  have "mailbox l (node_at r b2) = m1 # []" using b2(8) rr m1(1) by simp
  from sd_take_front [OF bus_ok_member(1) [OF b2(2) r2] l2 this]
  obtain t where t: "sd_take l (node_at r b2) = Inr (Some m1, t)" "node_ok t"
      "\<And>n. still n 0 (node_at r b2) t" by metis
  let ?b3 = "set_node r t b2"
  let ?w = "set_obj r l (Producer (rsd_turn (Some m1) d)) (v\<lparr>sd_bus := ?b3\<rparr>)"
  have pay: "l_payload ?l0 = enc_interest (interest_of (isd_unit c) (isd_period c) pos ts)"
    by (simp add: letter_from_def sent_interest(3))
  have th: "thread_of (isd_period c) d < length (periodic_threads (rsd_turn (Some m1) d)) \<and>
      periodic_threads (rsd_turn (Some m1) d) ! thread_of (isd_period c) d = isd_period c"
    by (rule thread_started [OF says_holds [OF m1(2,3), unfolded pay] assms(11)])
  have run: "run_all (sd_exec fadd to_double)
      [Sd_Start p k pos ts junk, Sd_Read r pos tmp, Sd_Turn r l pos ts1 ts2 junk] v = Inr ?w"
    using sent b2(1) t(1) assms(9,10) by (simp add: sd_start_def sd_turn_def Let_def)
  have "backlog q (ring_of ?b3) + n \<le> N" if "q < length (members ?b3)" for q
  proof (cases "q = r")
    case True
    then show ?thesis using b2(7) assms(2) r by (fastforce simp: all_have_room_def)
  next
    case False
    then have "backlog q (ring_of b2) = backlog q (ring_of b1)" using b2(6) length_pending by metis
    moreover have "q < length (members ?b)" using that b2(3) by simp
    ultimately show ?thesis using at1(5) [of q] assms(2) by (fastforce simp: all_have_room_def)
  qed
  then have room: "all_have_room n ?b3" by (simp add: all_have_room_def)
  have np: "node_at p ?b3 = node_at p b1" using assms(4) b2(5) by simp
  have nic: "nic_at p ?b3 = nic_at p ?b" "nic_at r ?b3 = nic_at r ?b"
    using b2(4) p r by simp_all
  have "pending p (ring_of ?b3) = [letter_frame qd ?l0]"
    using b2(6) assms(4) at1(4) [OF p] rp by (simp add: pending_def)
  then show ?thesis
    using that [OF run _ _ _ _ _ _ _ _ _ th [THEN conjunct1] th [THEN conjunct2] _ _ _ lo pay]
      bus_ok_take [OF b2(2) r2 t(2,3)] b2(3) room nic np at1(2,3) [OF p] rp rr assms(4,9,10)
      still_trans [OF st2 t(3)] r2
    by simp
qed

text \<open>The second half: what the producer sends is counted by the consumer.\<close>

lemma responses_heard:
  assumes "list_all2 says ms ls" and "\<forall>m\<in>set ms. message_ok m" and "map l_payload ls = map enc_response qs"
    and "\<forall>q\<in>set qs. r_kind q = RESPONSE"
  shows "concat (map (response_in \<circ> Some) ms) = qs"
  using assms
proof (induction ms ls arbitrary: qs rule: list_all2_induct)
  case Nil
  then show ?case by simp
next
  case (Cons m ms l ls)
  then obtain q qs' where q: "qs = q # qs'" "l_payload l = enc_response q" "map l_payload ls = map enc_response qs'"
    by (cases qs) auto
  have "m_size m = 22 \<and> dec_response (m_data m) = q"
    using says_holds [OF Cons(1)] Cons.prems(1) q(2) holds_response by simp
  then have "response_in (Some m) = [q]" using Cons.prems(3) q(1) by (simp add: response_in_def Let_def)
  with Cons.IH [of qs'] Cons.prems q show ?case by simp
qed

lemma interest_not_counted: "holds_bytes m (enc_interest i) \<Longrightarrow> i_kind i = INTEREST \<Longrightarrow> response_in (Some m) = []"
  using holds_interest [of m i] kind_shared [of "m_data m"]
  by (simp add: response_in_def Let_def INTEREST_def RESPONSE_def)

lemma responses_zip:
  "length us = length ms \<Longrightarrow> responses (map (\<lambda>((ts, ts2, junk), m).
     \<lparr>ev_pos = pos, ev_now = ts, ev_now2 = ts2, ev_junk = junk, ev_got = Some m\<rparr>) (zip us ms)) =
   concat (map (response_in \<circ> Some) ms)"
  by (induction us ms rule: list_induct2) (auto simp: responses_def)

lemma responses_counted:
  assumes "bus_ok (sd_bus w)" and "all_have_room (length rs) (sd_bus w)" and "pt \<noteq> 0"
    and "p < length (members (sd_bus w))" and "r < length (members (sd_bus w))"
    and "p < length (sd_objs w)" and "k < length (sd_objs w ! p)" and "(p, k) \<noteq> (r, l)"
    and "can_hear pt qd pos k (Suc (length rs)) (node_at p (sd_bus w)) (nic_at p (sd_bus w))"
    and "\<And>m. message_ok m \<Longrightarrow> 0 < m_size m \<Longrightarrow> can_send pt qd pos l m (node_at r (sd_bus w)) (nic_at r (sd_bus w))"
    and "obj_at p k w = Consumer c" and "obj_at r l w = Producer d" and "j < length (periodic_threads d)"
    and "mailbox k (node_at p (sd_bus w)) = []" and "pending p (ring_of (sd_bus w)) = [letter_frame qd l0]"
    and "letter_ok pt l0" and "l_payload l0 = enc_interest i0" and "i_kind i0 = INTEREST"
    and "length tmp = frame_size" and "length us = Suc (length rs)"
  shows "\<exists>u c'. run_all (sd_exec fadd to_double) (map (\<lambda>(ts, x). Sd_Respond r l j pos ts junk x) rs @
      Sd_Read p pos tmp # map (\<lambda>(ts, ts2, junk). Sd_Turn p k pos ts ts2 junk) us) w = Inr u \<and>
    bus_ok (sd_bus u) \<and> mailbox k (node_at p (sd_bus u)) = [] \<and> obj_at p k u = Consumer c' \<and>
    obj_at r l u = Producer d \<and> response_count c' = response_count c + int (length rs) \<and>
    sum_values c' = fold (\<lambda>(ts, x) acc. fadd acc (to_double x)) rs (sum_values c) \<and>
    last_value c' = (if rs = [] then last_value c else to_double (snd (last rs)))"
proof -
  let ?b = "sd_bus w"
  let ?m = "\<lambda>(ts, x). send_response to_double x pos ts junk d"
  let ?ps = "map (\<lambda>y. (r, pos, l, ?m y)) rs :: bus_post list"
  let ?q = "\<lambda>(ts, x). response_of (rsd_unit d) pos ts (to_double x)"
  have cs: "can_send pt qd pos l (?m y) (node_at r ?b) (nic_at r ?b)" for y
    by (cases y) (simp add: assms(10) sent_response(1,2))
  then have po: "posts_ok pt qd ?ps ?b" using assms(5) by (auto simp: posts_ok_def)
  let ?ls = "letters_of ?ps ?b"
  have ll: "length ?ls = length rs" "map l_payload ?ls = map enc_response (map ?q rs)"
    by (auto simp: letters_of_def letter_from_def sent_response(3))
  have "letter_ok pt (letter_from (node_at r ?b) (nic_at r ?b) l (?m y))" for y
    by (rule letter_from_ok [OF bus_ok_member(1,2) [OF assms(1,5)] cs])
  then have lo: "\<forall>l\<in>set ([l0] @ ?ls). letter_ok pt l" using assms(16) by (auto simp: letters_of_def)
  have ro: "all_have_room (length ?ps) ?b" using assms(2) by simp
  have hear: "can_hear pt qd pos k (length ([l0] @ ?ls)) (node_at p ?b) (nic_at p ?b)" using assms(9) ll(1) by simp
  have pd: "pending p (ring_of ?b) = map (letter_frame qd) [l0]" using assms(15) by simp
  obtain b1 b2 ms where b1: "run_all bus_exec (map post_op ?ps) ?b = Inr b1"
    and b2: "bus_read p pos tmp b1 = Inr b2" "bus_ok b2" "length (members b2) = length (members ?b)"
      "mailbox k (node_at p b2) = mailbox k (node_at p ?b) @ ms" "list_all2 says ms ([l0] @ ?ls)" "\<forall>m\<in>set ms. message_ok m"
      "still (nic_at p ?b) (length ([l0] @ ?ls)) (node_at p ?b) (node_at p b2)"
    by (rule posts_heard [OF assms(1) po ro assms(3,4) hear pd lo assms(19)])
  have pm: "map post_op ?ps = map (\<lambda>(ts, x). Bus_Send r pos l (send_response to_double x pos ts junk d)) rs"
    by (auto simp: split_def)
  have run1: "run_all (sd_exec fadd to_double) (map (\<lambda>(ts, x). Sd_Respond r l j pos ts junk x) rs) w =
      Inr (w\<lparr>sd_bus := b1\<rparr>)"
    using respond_posts [OF assms(12,13)] b1 unfolding pm by simp
  obtain m0 ms' where ms: "ms = m0 # ms'" "says m0 l0" "list_all2 says ms' ?ls"
    using b2(5) by (auto simp: list_all2_Cons2)
  have "holds_bytes m0 (enc_interest i0)" using says_holds [OF ms(2)] b2(6) ms(1) assms(17) by simp
  from interest_not_counted [OF this assms(18)] have "response_in (Some m0) = []" .
  moreover have "concat (map (response_in \<circ> Some) ms') = map ?q rs"
    by (rule responses_heard [OF ms(3) _ ll(2)]) (use b2(6) ms(1) in \<open>auto simp: response_of_def\<close>)
  ultimately have resp: "concat (map (response_in \<circ> Some) ms) = map ?q rs" by (simp add: ms(1))
  have us: "length us = length ms" using assms(20) ll(1) list_all2_lengthD [OF ms(3)] by (simp add: ms(1))
  have mb: "mailbox k (node_at p b2) = ms" using b2(4) assms(14) by simp
  have k2: "k < length (consumers (node_at p b2))"
    using hear b2(7) by (simp add: can_hear_def still_def same_layout_def)
  obtain u where u: "run_all (sd_exec fadd to_double) (map (\<lambda>(ts, ts2, junk). Sd_Turn p k pos ts ts2 junk) us)
        (w\<lparr>sd_bus := b2\<rparr>) = Inr u" "bus_ok (sd_bus u)" "mailbox k (node_at p (sd_bus u)) = []"
      "obj_at p k u = Consumer (snd (isd_run fadd (map (\<lambda>((ts, ts2, junk), m).
        \<lparr>ev_pos = pos, ev_now = ts, ev_now2 = ts2, ev_junk = junk, ev_got = Some m\<rparr>) (zip us ms)) c))"
      "\<forall>q l. (q, l) \<noteq> (p, k) \<longrightarrow> obj_at q l u = obj_at q l (w\<lparr>sd_bus := b2\<rparr>)"
    using turns_consume [of "w\<lparr>sd_bus := b2\<rparr>" p k c ms us fadd to_double pos]
      b2(2) b2(3) assms(4,6,7,11) k2 mb us by auto
  obtain out c' where c': "isd_run fadd (map (\<lambda>((ts, ts2, junk), m).
        \<lparr>ev_pos = pos, ev_now = ts, ev_now2 = ts2, ev_junk = junk, ev_got = Some m\<rparr>) (zip us ms)) c = (out, c')"
    by fastforce
  note st = isd_run_statistics [OF c', unfolded responses_zip [OF us] resp]
  have "fold (\<lambda>r acc. fadd acc (r_value r)) (map ?q rs) x = fold (\<lambda>(ts, x) acc. fadd acc (to_double x)) rs x" for x
    by (induction rs arbitrary: x) (auto simp: response_of_def)
  moreover have "rs \<noteq> [] \<Longrightarrow> r_value (last (map ?q rs)) = to_double (snd (last rs))"
    by (simp add: last_map split_def response_of_def)
  moreover have "obj_at r l u = Producer d" using u(5) assms(8,12) by auto
  ultimately show ?thesis
    using u c' st run1 b2(1) by (intro exI [of _ u] exI [of _ c']) (auto simp: run_all_append)
qed

text \<open>Both halves together.\<close>

lemma smart_data_exchange:
  assumes "bus_ok (sd_bus v)" and "all_have_room (Suc (length rs)) (sd_bus v)" and "pt \<noteq> 0" and "p \<noteq> r"
    and "sd_ready pt qd pos (Suc (length rs)) p k v" and "sd_ready pt qd pos 2 r l v"
    and "obj_at p k v = Consumer c" and "obj_at r l v = Producer d"
    and "active_periods d = set (periodic_threads d)" and "length tmp = frame_size" and "length us = Suc (length rs)"
  shows "\<exists>u c' d'. run_all (sd_exec fadd to_double)
      ([Sd_Start p k pos ts0 junk, Sd_Read r pos tmp, Sd_Turn r l pos ts1 ts2 junk] @
       map (\<lambda>(ts, x). Sd_Respond r l (thread_of (isd_period c) d) pos ts junk x) rs @
       Sd_Read p pos tmp # map (\<lambda>(ts, ts2, junk). Sd_Turn p k pos ts ts2 junk) us) v = Inr u \<and>
    bus_ok (sd_bus u) \<and> obj_at r l u = Producer d' \<and> isd_period c \<in> set (periodic_threads d') \<and>
    obj_at p k u = Consumer c' \<and> mailbox k (node_at p (sd_bus u)) = [] \<and>
    response_count c' = response_count c + int (length rs) \<and>
    sum_values c' = fold (\<lambda>(ts, x) acc. fadd acc (to_double x)) rs (sum_values c) \<and>
    last_value c' = (if rs = [] then last_value c else to_double (snd (last rs)))"
proof -
  obtain w d' l0 where w: "run_all (sd_exec fadd to_double)
        [Sd_Start p k pos ts0 junk, Sd_Read r pos tmp, Sd_Turn r l pos ts1 ts2 junk] v = Inr w"
      "bus_ok (sd_bus w)" "length (members (sd_bus w)) = length (members (sd_bus v))"
      "all_have_room (length rs) (sd_bus w)" "nic_at p (sd_bus w) = nic_at p (sd_bus v)"
      "nic_at r (sd_bus w) = nic_at r (sd_bus v)" "length (sd_objs w) = length (sd_objs v)"
      "length (sd_objs w ! p) = length (sd_objs v ! p)" "obj_at p k w = Consumer c" "obj_at r l w = Producer d'"
      "thread_of (isd_period c) d < length (periodic_threads d')"
      "periodic_threads d' ! thread_of (isd_period c) d = isd_period c"
      "still (nic_at p (sd_bus v)) 0 (node_at p (sd_bus v)) (node_at p (sd_bus w))"
      "mailbox k (node_at p (sd_bus w)) = []" "pending p (ring_of (sd_bus w)) = [letter_frame qd l0]"
      "letter_ok pt l0" "l_payload l0 = enc_interest (interest_of (isd_unit c) (isd_period c) pos ts0)"
      "still (nic_at r (sd_bus v)) 1 (node_at r (sd_bus v)) (node_at r (sd_bus w))"
    by (rule interest_arrives [OF assms(1-6) _ _ assms(7-10), of fadd to_double ts0 junk ts1 ts2]) (simp, simp, blast)
  note rp = assms(5) [unfolded sd_ready_def Let_def] and rr = assms(6) [unfolded sd_ready_def Let_def]
  have hear: "can_hear pt qd pos k (Suc (length rs)) (node_at p (sd_bus w)) (nic_at p (sd_bus w))"
    using still_can_hear [OF w(13), of pt qd pos k "Suc (length rs)"] rp w(5) by simp
  have send: "can_send pt qd pos l m (node_at r (sd_bus w)) (nic_at r (sd_bus w))" if "message_ok m" "0 < m_size m" for m
    using ready_can_send [OF assms(1,6) w(18) _ that] w(6) by simp
  have in_bounds: "p < length (members (sd_bus w))" "r < length (members (sd_bus w))" "p < length (sd_objs w)"
      "k < length (sd_objs w ! p)" "(p, k) \<noteq> (r, l)" using rp rr w(3,7,8) assms(4) by simp_all
  have kind: "i_kind (interest_of (isd_unit c) (isd_period c) pos ts0) = INTEREST" by (simp add: interest_of_def)
  have split: "run_all (sd_exec fadd to_double) ([Sd_Start p k pos ts0 junk, Sd_Read r pos tmp, Sd_Turn r l pos ts1 ts2 junk] @ ops)
      v = run_all (sd_exec fadd to_double) ops w" for ops
    by (simp only: run_all_append w(1) sum.case)
  note counted = responses_counted [OF w(2,4) assms(3) in_bounds hear send w(9,10,11,14-17) kind assms(10,11),
      of fadd to_double junk]
  have "isd_period c \<in> set (periodic_threads d')" using nth_mem [OF w(11)] unfolding w(12) .
  then show ?thesis using counted unfolding split by blast
qed

end
