(* ===== verification/Rsu.thy ===== *)
theory Rsu
  imports Time_Sync Stack_Lifetimes
begin

text \<open>
  The road side unit as a process (\<open>RSU.hpp\<close>): the loop of \<open>run\<close> on the protocol
  stack.
\<close>

definition rsu_boot :: "mac \<Rightarrow> byte \<Rightarrow> node" where
  "rsu_boot mac q = set_quadrant q (boot mac PORT_RSU)"

text \<open>The RSU has one communicator and one endpoint, the first of its process.\<close>

definition rsu_send :: "byte \<Rightarrow> message \<Rightarrow> node \<Rightarrow> runtime_error + (bool \<times> node)" where
  "rsu_send pos msg s = comm_send pos 0 msg s"

definition rsu_receive :: "message \<Rightarrow> node \<Rightarrow> runtime_error + (bool \<times> message \<times> node)" where
  [simp]: "rsu_receive msg s = endpoint_receive 0 msg s"

text \<open>A message the RSU sends goes to every station, to the observers of the RSU's own port.\<close>

lemma rsu_send_broadcasts:
  assumes "length mac = 6" and "message_ok msg"
  shows "\<exists>t. rsu_send pos msg (rsu_boot mac q) = Inr (0 < m_size msg, t) \<and>
    on_wire t = [(0, wire_frame mac \<lparr>paddr = mac, port = PORT_RSU\<rparr> \<lparr>paddr = BROADCAST, port = PORT_RSU\<rparr>
      (my_quadrant pos (rsu_boot mac q)) (take (m_size msg) (m_data msg)))]"
proof -
  let ?s = "rsu_boot mac q" and ?b = "\<lparr>paddr = BROADCAST, port = PORT_RSU\<rparr>"
  have ok: "node_ok ?s" unfolding rsu_boot_def by (intro set_quadrant_ok boot_ok assms(1))
  have m: "m_size msg \<le> length (m_data msg)" "m_size msg \<le> PROTOCOL_MTU"
    using assms(2) by (simp_all add: message_ok_def MAX_SIZE_def PROTOCOL_MTU_def MTU_def header_size_def)
  have "length (paddr ?b) = 6" by (simp add: BROADCAST_def)
  from send_frames [OF ok this m, of pos "\<lparr>paddr = mac, port = PORT_RSU\<rparr>"] show ?thesis
    by (auto simp: rsu_send_def comm_send_def rsu_boot_def set_quadrant_def boot_fields frames_out_def free_slots_zero_pool
        lessThan_empty_iff)
qed

text \<open>One turn of the loop of \<open>RSU::run\<close> on the RSU's process.\<close>

definition rsu_step :: "byte \<Rightarrow> timespec \<Rightarrow> timespec \<Rightarrow> message \<Rightarrow> node \<Rightarrow> runtime_error + node" where
  "rsu_step pos receive_time now junk s =
     and_then (rsu_receive (new_message junk) s) (\<lambda>(ok, msg, s1).
       if ok then
         (case rsu_reply receive_time now junk msg of
            None \<Rightarrow> Inr s1
          | Some (response, dst) \<Rightarrow> and_then (comm_send_to pos 0 response dst s1) (\<lambda>(b, s2). Inr s2))
       else Inr s1)"


section \<open>One turn of the loop\<close>

text \<open>What a request is answered with, if it is.\<close>

definition answer_to :: "timespec \<Rightarrow> timespec \<Rightarrow> ptp_frame \<Rightarrow> ptp_frame option" where
  "answer_to receive_time now p =
     (if message_type p = 0 then Some \<lparr>message_type = 1, timestamp = ns_u64 now, seq = seq p\<rparr>
      else if message_type p = 2 then Some \<lparr>message_type = 3, timestamp = ns_u64 receive_time, seq = seq p\<rparr>
      else None)"

lemma receive_front:
  assumes "node_ok s" and "k < length (consumers s)" and "queue (consumers s ! k) = p # q"
    and "heap s p = Some m"
  defines "t \<equiv> s\<lparr>consumers := (consumers s)[k := (consumers s ! k)\<lparr>sem := length q, queue := q\<rparr>],
      heap := (heap s)(p := None)\<rparr>"
  shows "endpoint_receive k out s = Inr (0 < m_size m, m, t)" and "node_ok t"
proof -
  have h: "heap_ok s" "wired s" using assms(1) by (simp_all add: node_ok_def)
  have "co_ok (consumers s ! k)" using h(1) assms(2) by (simp add: heap_ok_def)
  from co_updated_for_ok [OF this] show "endpoint_receive k out s = Inr (0 < m_size m, m, t)"
    using assms(3,4) by (simp add: endpoint_receive_def Let_def delete_msg_def t_def)
  show "node_ok t"
    using heap_ok_pop(1) [OF h(1) assms(2,3)] h(2) by (simp add: node_ok_def wired_def t_def)
qed

text \<open>The whole effect of such a turn.\<close>

definition answer_frames :: "byte \<Rightarrow> nat \<Rightarrow> mac \<Rightarrow> ptp_frame option \<Rightarrow> node \<Rightarrow> (nat \<times> byte list) list" where
  "answer_frames pos n dst ans s = (case ans of None \<Rightarrow> []
      | Some ans \<Rightarrow> [(n, wire_frame (n_address (nics s ! n)) (c_address (comms s ! 0))
          \<lparr>paddr = dst, port = 0\<rparr> (my_quadrant pos s) (enc_ptp ans))])"

lemma rsu_turn:
  assumes "node_ok s" and "p_nics s = [n]" and "free_slots (pool (nics s ! n)) \<noteq> {}"
    and "0 < length (consumers s)" and "queue (consumers s ! 0) = p # q" and "heap s p = Some m"
    and "carries m fr" and "length (m_src m) = 6"
  shows "\<exists>t. rsu_step pos rt now junk s = Inr t \<and> heap t = (heap s)(p := None) \<and>
    on_wire t = on_wire s @ answer_frames pos n (m_src m) (answer_to rt now fr) s \<and>
    node_ok t \<and> same_layout s t \<and> same_pools s t \<and> map n_address (nics t) = map n_address (nics s) \<and>
    map n_observers (nics t) = map n_observers (nics s) \<and> queue (consumers t ! 0) = q"
proof -
  define u where "u = s\<lparr>consumers := (consumers s)[0 := (consumers s ! 0)\<lparr>sem := length q, queue := q\<rparr>],
      heap := (heap s)(p := None)\<rparr>"
  have same: "same_layout s u" "same_pools s u" "nics u = nics s" "queue (consumers u ! 0) = q"
    using assms(4) by (simp_all add: u_def same_layout_def same_pools_def)
  have "endpoint_receive 0 (new_message junk) s = Inr (0 < m_size m, m, u)" and ok: "node_ok u"
    using receive_front [OF assms(1,4-6)] by (simp_all add: u_def)
  moreover have "0 < m_size m" using carries_simps(1) [OF assms(7)] by simp
  ultimately have step: "rsu_step pos rt now junk s = (case rsu_reply rt now junk m of None \<Rightarrow> Inr u
      | Some (response, dst) \<Rightarrow> and_then (comm_send_to pos 0 response dst u) (\<lambda>(b, s2). Inr s2))"
    by (simp add: rsu_step_def)
  show ?thesis
  proof (cases "answer_to rt now fr")
    case None
    then have "rsu_reply rt now junk m = None"
      using rsu_reply_carries [OF assms(7)] by (auto simp: answer_to_def split: if_splits)
    with None step ok same show ?thesis by (simp add: u_def answer_frames_def)
  next
    case (Some ans)
    then have reply: "rsu_reply rt now junk m = Some (ptp_message junk ans, m_src m)"
      using rsu_reply_carries [OF assms(7)] by (auto simp: answer_to_def split: if_splits)
    note c = carries_ptp_message [of junk ans]
    have sz: "m_size (ptp_message junk ans) = 13" and
      bytes: "take 13 (m_data (ptp_message junk ans)) = enc_ptp ans"
      using carries_simps(1) [OF c] c by (simp_all add: carries_def msg_bytes_def)
    have len: "13 \<le> length (m_data (ptp_message junk ans))"
      using c by (simp add: carries_def message_ok_def MAX_SIZE_def)
    have n: "\<forall>m\<in>set [n]. m < length (nics u)"
      using assms(1,2) by (simp add: u_def node_ok_def wired_def)
    from send_nics_spec [OF ok n, of "\<lparr>paddr = m_src m, port = 0\<rparr>" 13 "m_data (ptp_message junk ans)"
        pos "c_address (comms u ! 0)"] assms(8) len
    obtain t where "send_nics pos (c_address (comms u ! 0)) \<lparr>paddr = m_src m, port = 0\<rparr>
        (m_data (ptp_message junk ans)) 13 [n] u = Inr t" and "heap t = heap u" and
      "node_ok t" "same_layout u t" "same_pools u t" "map n_address (nics t) = map n_address (nics u)"
      "map n_observers (nics t) = map n_observers (nics u)"
      "consumers t = consumers u" and
      "on_wire t = on_wire u @ frames_out u [n] (c_address (comms u ! 0)) \<lparr>paddr = m_src m, port = 0\<rparr>
        (my_quadrant pos u) (enc_ptp ans)"
      by (auto simp: bytes same_but_nics_def PROTOCOL_MTU_def MTU_def header_size_def)
    moreover have "my_quadrant pos u = my_quadrant pos s" by (intro my_quadrant_cong) (simp add: u_def)
    ultimately show ?thesis
      using step reply Some assms(2,3,4) sz same same_layout_trans
      by (simp add: comm_send_to_def proto_send_def frames_out_def answer_frames_def u_def same_pools_def)
  qed
qed

text \<open>
  One turn of the RSU's loop on a received PTP request puts exactly one answer on the wire: type 1
  with the time of sending for type 0, type 3 with the time of reception for type 2, the request's
  sequence number, addressed to the requester's MAC on port 0; other frames are dropped without an
  answer, and the received message is deleted either way.
\<close>

theorem rsu_answers:
  assumes "node_ok s" and "p_nics s = [n]" and "free_slots (pool (nics s ! n)) \<noteq> {}"
    and "0 < length (consumers s)" and "queue (consumers s ! 0) = p # q" and "heap s p = Some m"
    and "carries m fr" and "length (m_src m) = 6"
  shows "\<exists>t. rsu_step pos rt now junk s = Inr t \<and> heap t = (heap s)(p := None) \<and>
    on_wire t = on_wire s @ (case answer_to rt now fr of None \<Rightarrow> []
      | Some ans \<Rightarrow> [(n, wire_frame (n_address (nics s ! n)) (c_address (comms s ! 0))
          \<lparr>paddr = m_src m, port = 0\<rparr> (my_quadrant pos s) (enc_ptp ans))])"
  using rsu_turn [OF assms, of pos rt now junk] by (auto simp: answer_frames_def)

text \<open>An RSU of quadrant 2 that has received a request.\<close>

definition asked_rsu :: node where
  "asked_rsu = (rsu_boot some_mac 2)\<lparr>
     consumers := [\<lparr>condition = PORT_RSU, sem = 1, queue = [0]\<rparr>],
     heap := [0 \<mapsto> set_src some_vehicle (ptp_message blank_message
       \<lparr>message_type = 2, timestamp = 0, seq = 7\<rparr>)],
     next_ptr := 1\<rparr>"

lemma asked_rsu_fields:
  "nics asked_rsu = [\<lparr>n_address = some_mac, pool = zero_pool, n_observers = [(PROTO, ())]\<rparr>]"
  "p_nics asked_rsu = [0]" "consumers asked_rsu = [\<lparr>condition = PORT_RSU, sem = 1, queue = [0]\<rparr>]"
  "heap asked_rsu = [0 \<mapsto> set_src some_vehicle (ptp_message blank_message
     \<lparr>message_type = 2, timestamp = 0, seq = 7\<rparr>)]"
  "on_wire asked_rsu = []" "next_ptr asked_rsu = 1" "p_observers asked_rsu = [(PORT_RSU, 0)]"
  "comms asked_rsu = [\<lparr>c_address = \<lparr>paddr = some_mac, port = PORT_RSU\<rparr>, c_subscribers = [(PORT_RSU, 0)]\<rparr>]"
  "my_quadrant pos asked_rsu = 2"
  by (simp_all add: asked_rsu_def rsu_boot_def set_quadrant_def boot_fields my_quadrant_def
      get_quadrant_def)

lemma carries_set_src [simp]: "carries (set_src a m) p = carries m p"
  by (simp add: carries_def message_ok_def) (simp add: set_src_def)

lemma asked_rsu_ok: "node_ok asked_rsu"
proof -
  have c: "carries (ptp_message blank_message p) p" for p by (rule carries_ptp_message)
  have "message_ok (set_src some_vehicle (ptp_message blank_message p)) \<and>
      0 < m_size (set_src some_vehicle (ptp_message blank_message p))" for p
    using c [of p] carries_simps(1) [OF c [of p]]
    by (simp add: carries_def message_ok_def set_src_def)
  then show ?thesis
    by (simp add: node_ok_def heap_ok_def wired_def queued_def asked_rsu_fields co_ok_def nic_ok_def
        comm_ok_def some_mac_def)
qed

theorem rsu_answers_witness:
  "\<exists>t. rsu_step 0 (3, 5) (4, 0) blank_message asked_rsu = Inr t \<and> heap t = Map.empty \<and>
    on_wire t = [(0, wire_frame some_mac \<lparr>paddr = some_mac, port = 9999\<rparr> \<lparr>paddr = some_vehicle, port = 0\<rparr> 2
      (enc_ptp \<lparr>message_type = 3, timestamp = 3000000005, seq = 7\<rparr>))]"
proof -
  have "\<exists>t. rsu_step 0 (3, 5) (4, 0) blank_message asked_rsu = Inr t \<and>
    heap t = (heap asked_rsu)(0 := None) \<and>
    on_wire t = on_wire asked_rsu @ (case answer_to (3, 5) (4, 0)
        \<lparr>message_type = 2, timestamp = 0, seq = 7\<rparr> of None \<Rightarrow> []
      | Some ans \<Rightarrow> [(0, wire_frame (n_address (nics asked_rsu ! 0)) (c_address (comms asked_rsu ! 0))
          \<lparr>paddr = m_src (set_src some_vehicle (ptp_message blank_message
            \<lparr>message_type = 2, timestamp = 0, seq = 7\<rparr>)), port = 0\<rparr> (my_quadrant 0 asked_rsu) (enc_ptp ans))])"
    by (rule rsu_answers [OF asked_rsu_ok, where q = "[]"])
      (simp_all add: asked_rsu_fields free_slots_zero_pool lessThan_empty_iff carries_ptp_message,
       simp add: set_src_def some_vehicle_def)
  then show ?thesis
    by (simp add: asked_rsu_fields answer_to_def ns_u64_def set_src_def PORT_RSU_def)
qed

end
