(* ===== verification/Raw_Socket.thy ===== *)
theory Raw_Socket
  imports Wire
begin

text \<open>
  The network engine (\<open>raw_socket_engine.hpp\<close>): what \<open>_drain\<close> hands to the NIC from
  the results of its calls of \<open>recvfrom\<close>, and a step relation of the kernel's queue, the
  SIGIO signal, the semaphore, the receiving thread and the thread that calls \<open>stop\<close>.
\<close>

section \<open>Draining the socket\<close>

datatype recv_result =
    R_Frame "byte list"   \<comment> \<open>the bytes written to the buffer; none when the result is 0\<close>
  | R_Again               \<comment> \<open>EWOULDBLOCK or EAGAIN\<close>
  | R_Intr                \<comment> \<open>EINTR\<close>
  | R_Error

text \<open>
  Each element is one turn: whether \<open>_running\<close> is set at its test, and the result of
  \<open>recvfrom\<close>. The buffer keeps the bytes of earlier frames behind a shorter one.
\<close>

fun drain :: "frame \<Rightarrow> (bool \<times> recv_result) list \<Rightarrow> (frame \<times> nat) list" where
  "drain buf [] = []"
| "drain buf ((running, r) # rs) =
     (if \<not> running then []
      else case r of
          R_Again \<Rightarrow> []
        | R_Intr \<Rightarrow> drain buf rs
        | R_Error \<Rightarrow> []
        | R_Frame bs \<Rightarrow>
            if bs = [] then []
            else let buf' = poke 0 bs buf in
              if ntohs (frame_type buf') = 0x8888 then (buf', length bs) # drain buf' rs
              else drain buf' rs)"

definition goes_on :: "bool \<times> recv_result \<Rightarrow> bool" where
  "goes_on = (\<lambda>(running, r). running \<and> (r = R_Intr \<or> (\<exists>bs. r = R_Frame bs \<and> bs \<noteq> [])))"

lemma goes_on_simps [simp]:
  "goes_on (running, R_Intr) = running" "goes_on (running, R_Frame bs) = (running \<and> bs \<noteq> [])"
  "\<not> goes_on (running, R_Again)" "\<not> goes_on (running, R_Error)"
  by (simp_all add: goes_on_def)

definition frames_of :: "(bool \<times> recv_result) list \<Rightarrow> byte list list" where
  "frames_of rs = concat (map (\<lambda>(running, r). case r of R_Frame bs \<Rightarrow> [bs] | _ \<Rightarrow> []) rs)"

definition whole_frame :: "byte list \<Rightarrow> bool" where
  "whole_frame bs \<longleftrightarrow> 14 \<le> length bs \<and> length bs \<le> frame_size"

lemma frame_type_poke:
  assumes "whole_frame bs" and "length buf = frame_size"
  shows "frame_type (poke 0 bs buf) = frame_type bs"
  using assms by (simp add: frame_type_def whole_frame_def peek_poke_within)

text \<open>
  \<open>_drain\<close> hands over, in order, exactly the frames of the protocol's type received before
  the first empty read, error or stop; interruptions are retried, other types skipped, and each frame
  has the received bytes in front.
\<close>

theorem drain_hands_over:
  assumes "length buf = frame_size" and "list_all whole_frame (frames_of (takeWhile goes_on rs))"
  shows "map (\<lambda>(f, n). take n f) (drain buf rs) =
      filter (\<lambda>bs. ntohs (frame_type bs) = 0x8888) (frames_of (takeWhile goes_on rs)) \<and>
    list_all (\<lambda>(f, n). length f = frame_size \<and> n \<le> frame_size) (drain buf rs)"
  using assms
proof (induction buf rs rule: drain.induct)
  case (1 buf)
  then show ?case by (simp add: frames_of_def)
next
  case (2 buf running r rs)
  show ?case
  proof (cases "goes_on (running, r)")
    case False
    then show ?thesis by (cases r) (auto simp: frames_of_def)
  next
    case True
    show ?thesis
    proof (cases r)
      case (R_Frame bs)
      let ?buf = "poke 0 bs buf"
      have wf: "whole_frame bs" and rest: "list_all whole_frame (frames_of (takeWhile goes_on rs))"
        using "2.prems"(2) True R_Frame by (simp_all add: frames_of_def)
      have l: "length ?buf = frame_size" and t: "take (length bs) ?buf = bs"
        using wf "2.prems"(1) by (simp_all add: whole_frame_def poke_def)
      have ne: "running" "bs \<noteq> []" using True R_Frame by simp_all
      note ft = frame_type_poke [OF wf "2.prems"(1)]
      show ?thesis
      proof (cases "ntohs (frame_type ?buf) = 0x8888")
        case yes: True
        from "2.IH"(1) [OF _ R_Frame ne(2) refl yes l rest] ne(1)
        show ?thesis using R_Frame ne True yes ft l t wf
          by (simp add: frames_of_def Let_def whole_frame_def)
      next
        case no: False
        from "2.IH"(2) [OF _ R_Frame ne(2) refl no l rest] ne(1)
        show ?thesis using R_Frame ne True no ft
          by (simp add: frames_of_def Let_def)
      qed
    qed (use 2 True in \<open>simp_all add: frames_of_def\<close>)
  qed
qed

definition proto_bytes :: "byte list" where
  "proto_bytes = replicate 12 1 @ [0x88, 0x88] @ [5, 6]"

theorem drain_hands_over_witness:
  "map (\<lambda>(f, n). take n f) (drain (replicate frame_size 0)
      [(True, R_Intr), (True, R_Frame proto_bytes), (True, R_Frame (replicate 20 0)), (True, R_Again)]) =
    [proto_bytes]"
proof -
  let ?rs = "[(True, R_Intr), (True, R_Frame proto_bytes), (True, R_Frame (replicate 20 0)), (True, R_Again)]"
  have f: "frames_of (takeWhile goes_on ?rs) = [proto_bytes, replicate 20 0]"
    by (simp add: frames_of_def proto_bytes_def)
  have "peek 12 2 proto_bytes = [0x88, 0x88]" "peek 12 2 (replicate 20 (0 :: byte)) = [0, 0]"
    by (simp_all add: proto_bytes_def peek_def eval_nat_numeral)
  moreover have "ntohs (le_decode [0x88, 0x88]) = 0x8888" "ntohs (le_decode [0, 0]) = 0" by code_simp+
  ultimately have "ntohs (frame_type proto_bytes) = 0x8888" "ntohs (frame_type (replicate 20 0)) = 0"
    by (simp_all only: frame_type_def)
  note types = this
  have wf: "list_all whole_frame (frames_of (takeWhile goes_on ?rs))"
    unfolding f by (simp add: whole_frame_def proto_bytes_def frame_size_def MTU_def)
  have "length (replicate frame_size 0) = frame_size" by simp
  from drain_hands_over [OF this wf, THEN conjunct1] show ?thesis
    unfolding f by (simp add: types del: drain.simps)
qed

section \<open>Wake-ups\<close>

text \<open>
  The receiving thread: before the test of \<open>_running\<close> in \<open>_receive_loop\<close>, before the one in
  \<open>_drain\<close>, in \<open>recvfrom\<close>, at the second test of the loop, in \<open>sem_wait\<close>, returned.
  The stopping thread: not called, flag cleared, signal ignored, semaphore posted, joined.
  \<open>re_broke\<close> records that \<open>_drain\<close> last ended in an error of \<open>recvfrom\<close> or in a result of
  zero bytes, which end it like an empty queue.
\<close>

datatype rx_pc = Rx_Top | Rx_Drain | Rx_Recv | Rx_Check | Rx_Wait | Rx_Exited
datatype stop_pc = S_Idle | S_Cleared | S_Ignored | S_Posted | S_Joined

record raw_engine =
  re_running :: bool
  re_queue :: "byte list list"     \<comment> \<open>the kernel's receive queue\<close>
  re_pending :: bool               \<comment> \<open>SIGIO pending; signals do not queue\<close>
  re_sem :: nat
  re_rx :: rx_pc
  re_stop :: stop_pc
  re_arrived :: "byte list list"
  re_taken :: "byte list list"
  re_broke :: bool

text \<open>Frames may be queued before the handler is installed, so without a signal.\<close>

definition raw_start :: "byte list list \<Rightarrow> raw_engine" where
  "raw_start early = \<lparr>re_running = True, re_queue = early, re_pending = False, re_sem = 0, re_rx = Rx_Top,
     re_stop = S_Idle, re_arrived = early, re_taken = [], re_broke = False\<rparr>"

inductive raw_step :: "raw_engine \<Rightarrow> raw_engine \<Rightarrow> bool" where
  arrive: "raw_step s (s\<lparr>re_queue := re_queue s @ [f], re_arrived := re_arrived s @ [f],
      re_pending := re_stop s \<in> {S_Idle, S_Cleared}\<rparr>)"
| signal: "re_pending s \<Longrightarrow> raw_step s (s\<lparr>re_pending := False, re_sem := re_sem s + 1\<rparr>)"
| top_run: "re_rx s = Rx_Top \<Longrightarrow> re_running s \<Longrightarrow> raw_step s (s\<lparr>re_rx := Rx_Drain, re_broke := False\<rparr>)"
| top_exit: "re_rx s = Rx_Top \<Longrightarrow> \<not> re_running s \<Longrightarrow> raw_step s (s\<lparr>re_rx := Rx_Exited\<rparr>)"
| drain_run: "re_rx s = Rx_Drain \<Longrightarrow> re_running s \<Longrightarrow> raw_step s (s\<lparr>re_rx := Rx_Recv\<rparr>)"
| drain_stop: "re_rx s = Rx_Drain \<Longrightarrow> \<not> re_running s \<Longrightarrow> raw_step s (s\<lparr>re_rx := Rx_Check\<rparr>)"
| take_frame: "re_rx s = Rx_Recv \<Longrightarrow> re_queue s = f # q \<Longrightarrow> f \<noteq> [] \<Longrightarrow>
    raw_step s (s\<lparr>re_queue := q, re_taken := re_taken s @ [f], re_rx := Rx_Drain\<rparr>)"
| take_empty: "re_rx s = Rx_Recv \<Longrightarrow> re_queue s = [] # q \<Longrightarrow>
    raw_step s (s\<lparr>re_queue := q, re_taken := re_taken s @ [[]], re_rx := Rx_Check, re_broke := True\<rparr>)"
| emptied: "re_rx s = Rx_Recv \<Longrightarrow> re_queue s = [] \<Longrightarrow> raw_step s (s\<lparr>re_rx := Rx_Check\<rparr>)"
| recv_intr: "re_rx s = Rx_Recv \<Longrightarrow> raw_step s (s\<lparr>re_rx := Rx_Drain\<rparr>)"
| recv_error: "re_rx s = Rx_Recv \<Longrightarrow> raw_step s (s\<lparr>re_rx := Rx_Check, re_broke := True\<rparr>)"
| check_run: "re_rx s = Rx_Check \<Longrightarrow> re_running s \<Longrightarrow> raw_step s (s\<lparr>re_rx := Rx_Wait\<rparr>)"
| check_exit: "re_rx s = Rx_Check \<Longrightarrow> \<not> re_running s \<Longrightarrow> raw_step s (s\<lparr>re_rx := Rx_Exited\<rparr>)"
| wake: "re_rx s = Rx_Wait \<Longrightarrow> 0 < re_sem s \<Longrightarrow> raw_step s (s\<lparr>re_rx := Rx_Top, re_sem := re_sem s - 1\<rparr>)"
| interrupted: "re_rx s = Rx_Wait \<Longrightarrow> raw_step s (s\<lparr>re_rx := Rx_Top\<rparr>)"
| stop_clear: "re_stop s = S_Idle \<Longrightarrow> raw_step s (s\<lparr>re_running := False, re_stop := S_Cleared\<rparr>)"
| stop_ignore: "re_stop s = S_Cleared \<Longrightarrow> raw_step s (s\<lparr>re_pending := False, re_stop := S_Ignored\<rparr>)"
| stop_post: "re_stop s = S_Ignored \<Longrightarrow> raw_step s (s\<lparr>re_sem := re_sem s + 1, re_stop := S_Posted\<rparr>)"
| stop_join: "re_stop s = S_Posted \<Longrightarrow> re_rx s = Rx_Exited \<Longrightarrow> raw_step s (s\<lparr>re_stop := S_Joined\<rparr>)"

inductive_cases raw_stepE: "raw_step s t"

definition raw_ok :: "raw_engine \<Rightarrow> bool" where
  "raw_ok s \<longleftrightarrow> re_arrived s = re_taken s @ re_queue s \<and>
     (re_running s \<longleftrightarrow> re_stop s = S_Idle) \<and>
     (re_running s \<and> re_queue s \<noteq> [] \<and> re_rx s \<in> {Rx_Check, Rx_Wait} \<longrightarrow>
       re_pending s \<or> 0 < re_sem s \<or> re_broke s) \<and>
     (re_stop s = S_Posted \<and> re_rx s = Rx_Wait \<longrightarrow> 0 < re_sem s) \<and>
     (re_stop s = S_Joined \<longrightarrow> re_rx s = Rx_Exited) \<and>
     (re_running s \<longrightarrow> re_rx s \<noteq> Rx_Exited)"

lemma raw_step_ok: "raw_step s t \<Longrightarrow> raw_ok s \<Longrightarrow> raw_ok t"
  by (erule raw_stepE) (auto simp: raw_ok_def)

interpretation raw: step_invariant raw_step raw_ok
  by unfold_locales (rule raw_step_ok)

lemma raw_start_ok: "raw_ok (raw_start early)"
  by (simp add: raw_ok_def raw_start_def)

text \<open>
  C19: in every interleaving no frame is lost or reordered, and no wake-up is missed but for a
  \<open>_drain\<close> that broke off: while the engine runs and the kernel holds frames, the receiving thread
  is still going to read them, or a signal or a semaphore permit is there to wake it, or its last
  \<open>_drain\<close> ended in an error of \<open>recvfrom\<close> or an empty packet. Frames that arrived before the
  handler was installed are included.
\<close>

theorem raw_no_lost_wakeup:
  assumes "reachable raw_step (raw_start early) s"
  shows "re_arrived s = re_taken s @ re_queue s \<and>
    (re_running s \<and> re_queue s \<noteq> [] \<longrightarrow>
      re_rx s \<in> {Rx_Top, Rx_Drain, Rx_Recv} \<or> re_pending s \<or> 0 < re_sem s \<or> re_broke s)"
  using raw.reachable_inv [OF assms raw_start_ok] by (cases "re_rx s") (auto simp: raw_ok_def)

text \<open>The steps to the first \<open>recvfrom\<close>.\<close>

lemma raw_reads:
  "reachable raw_step (raw_start early) ((raw_start early)\<lparr>re_rx := Rx_Recv\<rparr>)"
proof -
  let ?s = "raw_start early"
  have "raw_step ?s (?s\<lparr>re_rx := Rx_Drain\<rparr>)"
    using raw_step.top_run [of ?s] by (simp add: raw_start_def)
  moreover have "raw_step (?s\<lparr>re_rx := Rx_Drain\<rparr>) (?s\<lparr>re_rx := Rx_Recv\<rparr>)"
    using raw_step.drain_run [of "?s\<lparr>re_rx := Rx_Drain\<rparr>"] by (simp add: raw_start_def)
  ultimately show ?thesis by (meson reachable.intros)
qed

theorem raw_no_lost_wakeup_witness:
  "\<exists>s. reachable raw_step (raw_start []) s \<and> re_rx s = Rx_Wait \<and> re_queue s = [[7]] \<and> re_pending s"
proof -
  let ?s1 = "(raw_start [])\<lparr>re_rx := Rx_Recv\<rparr>"
  let ?s2 = "?s1\<lparr>re_rx := Rx_Check\<rparr>" let ?s3 = "?s2\<lparr>re_rx := Rx_Wait\<rparr>"
  let ?s4 = "?s3\<lparr>re_queue := [[7]], re_arrived := [[7]], re_pending := True\<rparr>"
  have "raw_step ?s1 ?s2" using raw_step.emptied [of ?s1] by (simp add: raw_start_def)
  moreover have "raw_step ?s2 ?s3" using raw_step.check_run [of ?s2] by (simp add: raw_start_def)
  moreover have "raw_step ?s3 ?s4" using raw_step.arrive [of ?s3 "[7]"] by (simp add: raw_start_def)
  ultimately have "reachable raw_step (raw_start []) ?s4" using raw_reads by (meson reachable.intros)
  with raw_no_lost_wakeup [OF this] show ?thesis by (intro exI [of _ ?s4]) (simp add: raw_start_def)
qed

text \<open>
  Without the last case of C19 it would be false: after an error of \<open>recvfrom\<close>, or behind an empty
  packet, the thread sleeps while frames wait that arrived before the handler was installed, and neither
  a signal nor a permit will wake it. \<open>_drain\<close> treats both as an emptied queue.
\<close>

theorem broken_drain_sleeps:
  assumes "early \<noteq> []"
  shows "\<exists>s. reachable raw_step (raw_start early) s \<and> re_running s \<and> re_queue s = early \<and>
      re_rx s = Rx_Wait \<and> \<not> re_pending s \<and> re_sem s = 0"
    and "\<exists>s. reachable raw_step (raw_start ([] # early)) s \<and> re_running s \<and> re_queue s = early \<and>
      re_rx s = Rx_Wait \<and> \<not> re_pending s \<and> re_sem s = 0"
proof -
  let ?s = "(raw_start early)\<lparr>re_rx := Rx_Recv\<rparr>"
  let ?t = "(raw_start ([] # early))\<lparr>re_rx := Rx_Recv\<rparr>"
  let ?s1 = "?s\<lparr>re_rx := Rx_Check, re_broke := True\<rparr>"
  let ?t1 = "?t\<lparr>re_queue := early, re_taken := [[]], re_rx := Rx_Check, re_broke := True\<rparr>"
  have "raw_step ?s ?s1" using raw_step.recv_error [of ?s] by (simp add: raw_start_def)
  moreover have "raw_step ?s1 (?s1\<lparr>re_rx := Rx_Wait\<rparr>)"
    using raw_step.check_run [of ?s1] by (simp add: raw_start_def)
  ultimately have "reachable raw_step (raw_start early) (?s1\<lparr>re_rx := Rx_Wait\<rparr>)"
    using raw_reads by (meson reachable.intros)
  then show "\<exists>s. reachable raw_step (raw_start early) s \<and> re_running s \<and> re_queue s = early \<and>
      re_rx s = Rx_Wait \<and> \<not> re_pending s \<and> re_sem s = 0"
    by (intro exI [of _ "?s1\<lparr>re_rx := Rx_Wait\<rparr>"]) (simp add: raw_start_def)
  have "raw_step ?t ?t1" using raw_step.take_empty [of ?t early] by (simp add: raw_start_def)
  moreover have "raw_step ?t1 (?t1\<lparr>re_rx := Rx_Wait\<rparr>)"
    using raw_step.check_run [of ?t1] by (simp add: raw_start_def)
  ultimately have "reachable raw_step (raw_start ([] # early)) (?t1\<lparr>re_rx := Rx_Wait\<rparr>)"
    using raw_reads by (meson reachable.intros)
  then show "\<exists>s. reachable raw_step (raw_start ([] # early)) s \<and> re_running s \<and> re_queue s = early \<and>
      re_rx s = Rx_Wait \<and> \<not> re_pending s \<and> re_sem s = 0"
    by (intro exI [of _ "?t1\<lparr>re_rx := Rx_Wait\<rparr>"]) (simp add: raw_start_def)
qed

text \<open>
  \<open>stop\<close> cannot hang: once it waits in \<open>join\<close>, the receiving thread has returned or can
  take a step, in every reachable state (\<open>recvfrom\<close> does not block).
\<close>

theorem raw_stop_not_blocked:
  assumes "reachable raw_step (raw_start early) s" and "re_stop s = S_Posted"
  shows "re_rx s = Rx_Exited \<or>
    (re_rx s = Rx_Wait \<and> 0 < re_sem s) \<or> re_rx s \<in> {Rx_Top, Rx_Drain, Rx_Recv, Rx_Check} \<and> \<not> re_running s"
  using raw.reachable_inv [OF assms(1) raw_start_ok] assms(2) by (cases "re_rx s") (auto simp: raw_ok_def)

theorem raw_stop_not_blocked_witness:
  "\<exists>s. reachable raw_step (raw_start []) s \<and> re_stop s = S_Posted \<and> re_rx s = Rx_Top \<and> \<not> re_running s"
proof -
  let ?s0 = "raw_start []"
  let ?s1 = "?s0\<lparr>re_running := False, re_stop := S_Cleared\<rparr>"
  let ?s2 = "?s1\<lparr>re_pending := False, re_stop := S_Ignored\<rparr>"
  let ?s3 = "?s2\<lparr>re_sem := 1, re_stop := S_Posted\<rparr>"
  have "raw_step ?s0 ?s1" using raw_step.stop_clear [of ?s0] by (simp add: raw_start_def)
  moreover have "raw_step ?s1 ?s2" using raw_step.stop_ignore [of ?s1] by (simp add: raw_start_def)
  moreover have "raw_step ?s2 ?s3" using raw_step.stop_post [of ?s2] by (simp add: raw_start_def)
  ultimately have "reachable raw_step (raw_start []) ?s3" by (meson reachable.intros)
  with raw_stop_not_blocked [OF this] show ?thesis by (intro exI [of _ ?s3]) (simp add: raw_start_def)
qed

end
