(* ===== verification/Periodic.thy ===== *)
theory Periodic
  imports Prelude
begin

text \<open>
  \<open>PeriodicThread\<close> (\<open>periodic_thread.hpp\<close>): the times at which it runs its task. Times are
  nanoseconds of the steady clock. Each turn is described by the reading of the clock after the task
  and the period loaded then; the thread wakes at \<open>next\<close>, or at once when that has passed.
\<close>

record periodic =
  pt_next :: int
  pt_period_us :: u64
  pt_stop :: bool

definition pt_start :: "int \<Rightarrow> u64 \<Rightarrow> periodic" where
  "pt_start now period = \<lparr>pt_next = now, pt_period_us = period, pt_stop = False\<rparr>"

definition pt_stop_call :: "periodic \<Rightarrow> periodic" where
  "pt_stop_call s = s\<lparr>pt_stop := True\<rparr>"

definition pt_set_period :: "u64 \<Rightarrow> periodic \<Rightarrow> periodic" where
  "pt_set_period p s = s\<lparr>pt_period_us := p\<rparr>"

text \<open>
  \<open>std::chrono::microseconds\<close> counts in a signed 64-bit integer, nanoseconds too.
\<close>

definition period_ns :: "u64 \<Rightarrow> runtime_error + int" where
  "period_ns p =
     (let ns = sint p * 1000 in
      if - (2 ^ 63) \<le> ns \<and> ns < 2 ^ 63 then Inr ns else Inl Signed_Overflow)"

text \<open>What happens after the task: \<open>now\<close> is read after \<open>next += period\<close>.\<close>

definition pt_schedule :: "int \<Rightarrow> periodic \<Rightarrow> runtime_error + periodic" where
  "pt_schedule now s =
     and_then (period_ns (pt_period_us s)) (\<lambda>period.
       let n = pt_next s + period in
       Inr (s\<lparr>pt_next := (if n < now then now + period else n)\<rparr>))"

text \<open>
  The loop over the readings of the clock; the result lists the wake-up times computed, and the
  state. It ends when stopped.
\<close>

fun pt_run :: "int list \<Rightarrow> periodic \<Rightarrow> runtime_error + (int list \<times> periodic)" where
  "pt_run [] s = Inr ([], s)"
| "pt_run (now # nows) s =
     (if pt_stop s then Inr ([], s)
      else and_then (pt_schedule now s) (\<lambda>t.
        and_then (pt_run nows t) (\<lambda>(ws, u). Inr (pt_next t # ws, u))))"

definition sane_period :: "u64 \<Rightarrow> bool" where
  "sane_period p \<longleftrightarrow> uint p < 2 ^ 53"

lemma period_ns_sane: "sane_period p \<Longrightarrow> period_ns p = Inr (uint p * 1000)"
proof -
  assume s: "sane_period p"
  have "sint p = uint p"
  proof -
    have "sint p = signed_take_bit 63 (uint p)" by (simp add: sint_uint)
    also have "\<dots> = uint p"
    proof (rule signed_take_bit_int_eq_self)
      show "- (2 ^ 63) \<le> uint p" by (rule order_trans [of _ 0]) simp_all
      show "uint p < 2 ^ 63" using s by (simp add: sane_period_def)
    qed
    finally show ?thesis .
  qed
  moreover have "- (2 ^ 63) \<le> uint p * 1000" by (rule order_trans [of _ 0]) simp_all
  ultimately show ?thesis using s by (simp add: period_ns_def Let_def sane_period_def)
qed

lemma pt_schedule_sane:
  "sane_period (pt_period_us s) \<Longrightarrow>
     pt_schedule now s = Inr (s\<lparr>pt_next := (let p = uint (pt_period_us s) * 1000 in
       if pt_next s + p < now then now + p else pt_next s + p)\<rparr>)"
  by (simp add: pt_schedule_def period_ns_sane Let_def)

fun in_time :: "int \<Rightarrow> int \<Rightarrow> int list \<Rightarrow> bool" where
  "in_time nxt p [] \<longleftrightarrow> True"
| "in_time nxt p (now # nows) \<longleftrightarrow> now \<le> nxt + p \<and> in_time (nxt + p) p nows"

lemma pt_run_sane:
  assumes "sane_period (pt_period_us s)" and "\<not> pt_stop s"
  defines "p \<equiv> uint (pt_period_us s) * 1000"
  shows "\<exists>ws t. pt_run nows s = Inr (ws, t) \<and> length ws = length nows \<and>
    (in_time (pt_next s) p nows \<longrightarrow> ws = map (\<lambda>k. pt_next s + int (k + 1) * p) [0..<length nows]) \<and>
    sorted_wrt (\<lambda>a b. a + p \<le> b) (pt_next s # ws) \<and> list_all2 (\<le>) nows ws"
  using assms(1,2) unfolding p_def
proof (induction nows arbitrary: s)
  case Nil
  then show ?case by simp
next
  case (Cons now nows)
  let ?p = "uint (pt_period_us s) * 1000"
  have p: "0 \<le> ?p" by simp
  define n where "n = (if pt_next s + ?p < now then now + ?p else pt_next s + ?p)"
  let ?t = "s\<lparr>pt_next := n\<rparr>"
  have sch: "pt_schedule now s = Inr ?t"
    using Cons.prems(1) by (simp add: pt_schedule_sane n_def Let_def)
  obtain ws t where t: "pt_run nows ?t = Inr (ws, t)" "length ws = length nows"
    "in_time n ?p nows \<longrightarrow> ws = map (\<lambda>k. n + int (k + 1) * ?p) [0..<length nows]"
    "sorted_wrt (\<lambda>a b. a + ?p \<le> b) (n # ws)" "list_all2 (\<le>) nows ws"
    using Cons.IH [of ?t] Cons.prems by auto
  have n: "pt_next s + ?p \<le> n" "now \<le> n" using p unfolding n_def by (simp_all only: split: if_split, linarith+)
  have run: "pt_run (now # nows) s = Inr (n # ws, t)" using sch t(1) Cons.prems(2) by simp
  have drift: "n # ws = map (\<lambda>k. pt_next s + int (k + 1) * ?p) [0..<length (now # nows)]"
    if it: "in_time (pt_next s) ?p (now # nows)"
  proof -
    have ne: "n = pt_next s + ?p" using it by (simp add: n_def)
    have "map (\<lambda>k. pt_next s + int (k + 1) * ?p) [0..<Suc (length nows)] =
        (pt_next s + ?p) # map (\<lambda>k. pt_next s + int (Suc k + 1) * ?p) [0..<length nows]"
      by (simp add: upt_conv_Cons map_Suc_upt [symmetric] del: upt_Suc)
    then show ?thesis using t(3) it ne by (simp add: algebra_simps del: upt_Suc)
  qed
  have "sorted_wrt (\<lambda>a b. a + ?p \<le> b) (pt_next s # n # ws)"
  proof -
    have "pt_next s + ?p \<le> x" if "x \<in> set ws" for x
    proof -
      have "n + ?p \<le> x" using t(4) that by simp
      then show ?thesis using n(1) p by linarith
    qed
    then show ?thesis using t(4) n(1) by simp
  qed
  then show ?case
  proof (intro exI conjI impI)
    show "pt_run (now # nows) s = Inr (n # ws, t)" by (rule run)
    show "length (n # ws) = length (now # nows)" using t(2) by simp
    show "list_all2 (\<le>) (now # nows) (n # ws)" using t(5) n(2) by simp
  qed (rule drift)
qed

text \<open>
  C39: wake-ups never drift and never bunch: while every task ends in time, the k-th wake-up is exactly
  k periods after the start; and in any case each wake-up is not before the moment it is computed
  and at least a period after the one before.
\<close>

theorem periodic_no_drift_no_burst:
  assumes "sane_period (pt_period_us s)" and "\<not> pt_stop s"
  shows "\<exists>ws t. pt_run nows s = Inr (ws, t) \<and> length ws = length nows \<and>
    (in_time (pt_next s) (uint (pt_period_us s) * 1000) nows \<longrightarrow>
      ws = map (\<lambda>k. pt_next s + int (k + 1) * (uint (pt_period_us s) * 1000)) [0..<length nows]) \<and>
    sorted_wrt (\<lambda>a b. a + uint (pt_period_us s) * 1000 \<le> b) (pt_next s # ws) \<and>
    list_all2 (\<le>) nows ws"
  by (rule pt_run_sane [OF assms])

theorem periodic_no_drift_no_burst_witness:
  "\<exists>t. pt_run [10, 2005, 9000] (pt_start 0 1) = Inr ([1000, 3005, 10000], t)"
proof -
  obtain ws t where w: "pt_run [10, 2005, 9000] (pt_start 0 1) = Inr (ws, t)"
    using periodic_no_drift_no_burst [of "pt_start 0 1" "[10, 2005, 9000]"]
    by (auto simp: pt_start_def sane_period_def)
  moreover have "pt_run [10, 2005, 9000] (pt_start 0 1) = Inr ([1000, 3005, 10000], (pt_start 0 1)\<lparr>pt_next := 10000\<rparr>)"
    by (simp add: pt_start_def pt_schedule_def period_ns_def Let_def)
  ultimately show ?thesis by auto
qed

text \<open>
  The comment of the class says that after a task longer than its period the next run
  follows immediately; the code waits another whole period from the end of the task.
\<close>

theorem late_task_waits_a_period:
  assumes "sane_period (pt_period_us s)" and "pt_next s + uint (pt_period_us s) * 1000 < now"
  shows "\<exists>t. pt_schedule now s = Inr t \<and> pt_next t = now + uint (pt_period_us s) * 1000"
  using assms by (simp add: pt_schedule_sane Let_def)

theorem late_task_waits_a_period_witness:
  "\<exists>t. pt_schedule 5000 (pt_start 0 1) = Inr t \<and> pt_next t = 6000"
  using late_task_waits_a_period [of "pt_start 0 1" 5000] by (simp add: pt_start_def sane_period_def)

text \<open>
  A period of 0 makes every wake-up immediate, so the thread runs its task without a
  pause; a period of 2^54 microseconds or more (up to 2^63) overflows the nanosecond count. A
  producer takes the period from any interest it receives.
\<close>

theorem hostile_periods:
  "sorted (t0 # nows) \<Longrightarrow>
     (\<exists>t. pt_run nows (pt_start t0 0) = Inr (nows, t)) \<and>
     (2 ^ 54 \<le> p \<and> p < 2 ^ 63 \<longrightarrow> pt_run (now # nows) (pt_start t0 p) = Inl Signed_Overflow)"
proof
  show "sorted (t0 # nows) \<Longrightarrow> \<exists>t. pt_run nows (pt_start t0 0) = Inr (nows, t)"
  proof (induction nows arbitrary: t0)
    case Nil
    then show ?case by simp
  next
    case (Cons now nows)
    obtain t where "pt_run nows (pt_start now 0) = Inr (nows, t)"
      using Cons.IH [of now] Cons.prems by auto
    moreover have "pt_schedule now (pt_start t0 0) = Inr (pt_start now 0)"
      using Cons.prems by (simp add: pt_schedule_def period_ns_def pt_start_def Let_def)
    moreover have "\<not> pt_stop (pt_start t0 0)" "pt_next (pt_start now 0) = now" by (simp_all add: pt_start_def)
    ultimately show ?case by auto
  qed
next
  show "2 ^ 54 \<le> p \<and> p < 2 ^ 63 \<longrightarrow> pt_run (now # nows) (pt_start t0 p) = Inl Signed_Overflow"
  proof
    assume p: "2 ^ 54 \<le> p \<and> p < 2 ^ 63"
    then have u: "2 ^ 54 \<le> uint p" "uint p < 2 ^ 63" by (simp_all add: word_le_def word_less_def)
    have "sint p = signed_take_bit 63 (uint p)" by (simp add: sint_uint)
    also have "\<dots> = uint p"
    proof (rule signed_take_bit_int_eq_self)
      show "- (2 ^ 63) \<le> uint p" by (rule order_trans [of _ 0]) simp_all
    qed (rule u(2))
    finally have "period_ns p = Inl Signed_Overflow" using u(1) by (simp add: period_ns_def Let_def)
    then show "pt_run (now # nows) (pt_start t0 p) = Inl Signed_Overflow"
      by (simp add: pt_schedule_def pt_start_def)
  qed
qed

theorem hostile_periods_witness:
  "(\<exists>t. pt_run [5, 5, 9] (pt_start 1 0) = Inr ([5, 5, 9], t)) \<and>
   pt_run [7, 5, 5, 9] (pt_start 1 0x7000000000000000) = Inl Signed_Overflow"
  using hostile_periods [of 1 "[5, 5, 9]" "0x7000000000000000" 7] by simp

end
