(* ===== verification/Periodic_Stop.thy ===== *)
theory Periodic_Stop
  imports Periodic
begin

text \<open>
  Stopping a \<open>PeriodicThread\<close> (\<open>periodic_thread.hpp\<close>): the loop of \<open>run\<close> with its wait on
  the condition variable, interleaved with \<open>stop\<close> and the destructor, which stores the flag and
  notifies without holding the mutex.
\<close>

section \<open>The loop and its stopper\<close>

text \<open>
  \<open>wait_until\<close> with a predicate tests the predicate, gives the mutex back and sleeps in one
  step, and tests it again when it is notified; at the deadline it returns.
\<close>

datatype run_pc = At_Test | At_Call | In_Task | At_Lock | At_Pred | To_Sleep | Asleep | Ended

datatype stop_pc = Not_Yet | Stored | Notified

record pt_sys =
  r_pc :: run_pc
  r_thread :: periodic
  r_stopper :: stop_pc
  r_begun :: nat       \<comment> \<open>tasks begun since the flag was stored\<close>

definition pt_sys_start :: "periodic \<Rightarrow> pt_sys" where
  "pt_sys_start p = \<lparr>r_pc = At_Test, r_thread = p, r_stopper = Not_Yet, r_begun = 0\<rparr>"

datatype pt_act = Run int | Expire | Store | Notify_All

fun pt_line :: "int \<Rightarrow> run_pc \<Rightarrow> pt_sys \<Rightarrow> pt_sys option" where
  "pt_line now At_Test s = Some (s\<lparr>r_pc := (if pt_stop (r_thread s) then Ended else At_Call)\<rparr>)"
| "pt_line now At_Call s =
     Some (s\<lparr>r_pc := In_Task, r_begun := (if pt_stop (r_thread s) then r_begun s + 1 else r_begun s)\<rparr>)"
| "pt_line now In_Task s =
     (case pt_schedule now (r_thread s) of Inl e \<Rightarrow> None
      | Inr p \<Rightarrow> Some (s\<lparr>r_pc := At_Lock, r_thread := p\<rparr>))"
| "pt_line now At_Lock s = Some (s\<lparr>r_pc := At_Pred\<rparr>)"
| "pt_line now At_Pred s = Some (s\<lparr>r_pc := (if pt_stop (r_thread s) then At_Test else To_Sleep)\<rparr>)"
| "pt_line now To_Sleep s = Some (s\<lparr>r_pc := Asleep\<rparr>)"
| "pt_line now Asleep s = None"
| "pt_line now Ended s = None"

fun pt_exec :: "pt_sys \<Rightarrow> pt_act \<Rightarrow> pt_sys option" where
  "pt_exec s (Run now) = pt_line now (r_pc s) s"
| "pt_exec s Expire = (if r_pc s = Asleep then Some (s\<lparr>r_pc := At_Test\<rparr>) else None)"
| "pt_exec s Store =
     (if r_stopper s = Not_Yet then Some (s\<lparr>r_stopper := Stored, r_thread := pt_stop_call (r_thread s)\<rparr>) else None)"
| "pt_exec s Notify_All =
     (if r_stopper s = Stored
      then Some (s\<lparr>r_stopper := Notified, r_pc := (if r_pc s = Asleep then At_Pred else r_pc s)\<rparr>) else None)"

definition pt_step :: "pt_sys \<Rightarrow> pt_sys \<Rightarrow> bool" where
  "pt_step s t \<longleftrightarrow> (\<exists>a. pt_exec s a = Some t)"

lemma pt_reach_exec: "pt_exec s a = Some t \<Longrightarrow> reachable pt_step s0 s \<Longrightarrow> reachable pt_step s0 t"
  by (metis reachable.reach_step pt_step_def)

lemma pt_schedule_keeps: "pt_schedule now p = Inr q \<Longrightarrow> pt_stop q = pt_stop p \<and> pt_period_us q = pt_period_us p"
  by (auto simp: pt_schedule_def and_then_Inr_iff Let_def)

definition stop_inv :: "pt_sys \<Rightarrow> bool" where
  "stop_inv s \<longleftrightarrow> sane_period (pt_period_us (r_thread s)) \<and> (pt_stop (r_thread s) \<longleftrightarrow> r_stopper s \<noteq> Not_Yet) \<and>
     r_begun s \<le> 1 \<and> (r_stopper s = Not_Yet \<or> r_pc s = At_Call \<longrightarrow> r_begun s = 0)"

lemma pt_exec_inv:
  assumes "pt_exec s a = Some t" and "stop_inv s"
  shows "stop_inv t"
proof (cases a)
  case (Run now)
  then show ?thesis
    using assms pt_schedule_keeps [of now "r_thread s"]
    by (cases "r_pc s") (auto simp: stop_inv_def split: sum.splits if_splits)
qed (use assms in \<open>auto simp: stop_inv_def pt_stop_call_def split: if_splits\<close>)

interpretation pt: step_invariant pt_step stop_inv
  by unfold_locales (auto simp: pt_step_def intro: pt_exec_inv)

section \<open>Ending\<close>

text \<open>How far the loop is from its end once the flag is stored.\<close>

fun to_go :: "run_pc \<Rightarrow> nat" where
  "to_go At_Call = 7" | "to_go In_Task = 6" | "to_go At_Lock = 5" | "to_go To_Sleep = 4"
| "to_go Asleep = 3" | "to_go At_Pred = 2" | "to_go At_Test = 1" | "to_go Ended = 0"

fun pt_exec_all :: "pt_act list \<Rightarrow> pt_sys \<Rightarrow> pt_sys option" where
  "pt_exec_all [] s = Some s"
| "pt_exec_all (a # as) s = Option.bind (pt_exec s a) (pt_exec_all as)"

fun of_thread :: "pt_act \<Rightarrow> bool" where
  "of_thread (Run now) = True" | "of_thread Expire = True"
| "of_thread Store = False" | "of_thread Notify_All = False"

lemma to_go_exec:
  assumes "pt_exec s a = Some t" and "stop_inv s" and "r_stopper s \<noteq> Not_Yet"
  shows "stop_inv t \<and> r_stopper t \<noteq> Not_Yet \<and> to_go (r_pc t) + (if of_thread a then 1 else 0) \<le> to_go (r_pc s)"
proof -
  have "stop_inv t" by (rule pt_exec_inv [OF assms(1,2)])
  moreover have "pt_stop (r_thread s)" using assms(2,3) by (simp add: stop_inv_def)
  ultimately show ?thesis
    using assms(1,3)
    by (cases a; cases "r_pc s") (auto split: sum.splits if_splits)
qed

lemma to_go_run:
  "pt_exec_all as s = Some t \<Longrightarrow> stop_inv s \<Longrightarrow> r_stopper s \<noteq> Not_Yet \<Longrightarrow>
     stop_inv t \<and> to_go (r_pc t) + length (filter of_thread as) \<le> to_go (r_pc s)"
proof (induction as arbitrary: s)
  case Nil
  then show ?case by simp
next
  case (Cons a as)
  obtain u where u: "pt_exec s a = Some u" "pt_exec_all as u = Some t"
    using Cons.prems(1) by (cases "pt_exec s a") auto
  from to_go_exec [OF u(1) Cons.prems(2,3)] Cons.IH [OF u(2)] show ?case by auto
qed

text \<open>
  C30: \<open>stop\<close> ends the thread: once the flag is stored the thread makes at most seven more steps,
  in which it begins its task at most once more, and until it has ended it always has a step to make,
  at the latest when its deadline comes; so the destructor's \<open>join\<close> returns.
\<close>

theorem stop_ends_thread:
  assumes "sane_period (pt_period_us p)" and "\<not> pt_stop p" and "reachable pt_step (pt_sys_start p) s"
    and "r_stopper s \<noteq> Not_Yet" and "pt_exec_all as s = Some t"
  shows "length (filter of_thread as) \<le> 7 \<and> r_begun t \<le> 1 \<and>
    (r_pc t = Ended \<or> (\<exists>a u. of_thread a \<and> pt_exec t a = Some u))"
proof -
  have "stop_inv (pt_sys_start p)" using assms(1,2) by (simp add: stop_inv_def pt_sys_start_def)
  from pt.reachable_inv [OF assms(3) this] have "stop_inv s" .
  from to_go_run [OF assms(5) this assms(4)]
  have inv: "stop_inv t" and len: "length (filter of_thread as) \<le> to_go (r_pc s)" by simp_all
  have "to_go (r_pc s) \<le> 7" by (cases "r_pc s") simp_all
  moreover have "\<exists>a u. of_thread a \<and> pt_exec t a = Some u" if "r_pc t \<noteq> Ended"
  proof (cases "r_pc t = Asleep")
    case True
    then show ?thesis by (intro exI [of _ Expire]) simp
  next
    case False
    obtain q where "pt_schedule 0 (r_thread t) = Inr q" using inv by (simp add: stop_inv_def pt_schedule_sane)
    with False that show ?thesis by (intro exI [of _ "Run 0"], cases "r_pc t") auto
  qed
  ultimately show ?thesis using inv len by (auto simp: stop_inv_def)
qed

text \<open>
  The notification can be lost: \<open>stop\<close> stores and notifies between the thread's test of
  the predicate and its sleep, and then the destructor waits in \<open>join\<close> while only the deadline,
  up to a period away, wakes the thread.
\<close>

theorem stop_notification_lost:
  assumes "sane_period (pt_period_us p)" and "\<not> pt_stop p"
  shows "\<exists>s. reachable pt_step (pt_sys_start p) s \<and> r_stopper s = Notified \<and> r_pc s = Asleep \<and>
    pt_next (r_thread s) = pt_next p + uint (pt_period_us p) * 1000 \<and>
    (\<forall>a t. pt_exec s a = Some t \<longrightarrow> a = Expire)"
proof -
  let ?q = "p\<lparr>pt_next := pt_next p + uint (pt_period_us p) * 1000\<rparr>"
  let ?s = "\<lambda>c q k. \<lparr>r_pc = c, r_thread = q, r_stopper = k, r_begun = 0\<rparr>"
  let ?r = "reachable pt_step (pt_sys_start p)"
  have now: "\<not> pt_next p + uint (pt_period_us p) * 1000 < pt_next p" by (simp add: not_less)
  have "?r (?s At_Call p Not_Yet)"
    by (rule pt_reach_exec [of _ "Run 0", OF _ reachable.reach_start]) (simp add: pt_sys_start_def assms(2))
  then have "?r (?s In_Task p Not_Yet)" by (rule pt_reach_exec [of _ "Run 0", rotated]) (simp add: assms(2))
  then have "?r (?s At_Lock ?q Not_Yet)"
    by (rule pt_reach_exec [of _ "Run (pt_next p)", rotated])
      (simp add: pt_schedule_sane [OF assms(1)] now Let_def)
  then have "?r (?s At_Pred ?q Not_Yet)" by (rule pt_reach_exec [of _ "Run 0", rotated]) simp
  then have "?r (?s To_Sleep ?q Not_Yet)" by (rule pt_reach_exec [of _ "Run 0", rotated]) (simp add: assms(2))
  then have "?r (?s To_Sleep (pt_stop_call ?q) Stored)" by (rule pt_reach_exec [of _ Store, rotated]) simp
  then have "?r (?s To_Sleep (pt_stop_call ?q) Notified)" by (rule pt_reach_exec [of _ Notify_All, rotated]) simp
  then have "?r (?s Asleep (pt_stop_call ?q) Notified)" by (rule pt_reach_exec [of _ "Run 0", rotated]) simp
  moreover have "a = Expire" if "pt_exec (?s Asleep (pt_stop_call ?q) Notified) a = Some t" for a t
    using that by (cases a) auto
  ultimately show ?thesis
    by (intro exI [of _ "?s Asleep (pt_stop_call ?q) Notified"]) (simp add: pt_stop_call_def)
qed

theorem stop_notification_lost_witness:
  "\<exists>s. reachable pt_step (pt_sys_start (pt_start 0 1000)) s \<and> r_stopper s = Notified \<and> r_pc s = Asleep \<and>
     pt_next (r_thread s) = 1000000"
proof -
  have "sane_period (pt_period_us (pt_start 0 1000))" "\<not> pt_stop (pt_start 0 1000)"
    by (simp_all add: sane_period_def pt_start_def)
  from stop_notification_lost [OF this] show ?thesis by (auto simp: pt_start_def)
qed

theorem stop_ends_thread_witness:
  "\<exists>s t. reachable pt_step (pt_sys_start (pt_start 0 1000)) s \<and> pt_exec_all [Notify_All, Run 0] s = Some t \<and>
     r_begun t \<le> 1 \<and> r_pc t = Ended"
proof -
  let ?p = "pt_start 0 1000"
  let ?s = "\<lparr>r_pc = At_Test, r_thread = pt_stop_call ?p, r_stopper = Stored, r_begun = 0\<rparr>"
  have p: "sane_period (pt_period_us ?p)" "\<not> pt_stop ?p" by (simp_all add: sane_period_def pt_start_def)
  have r: "reachable pt_step (pt_sys_start ?p) ?s"
    by (rule pt_reach_exec [of _ Store, OF _ reachable.reach_start]) (simp add: pt_sys_start_def)
  let ?t = "\<lparr>r_pc = Ended, r_thread = pt_stop_call ?p, r_stopper = Notified, r_begun = 0\<rparr>"
  have e: "pt_exec_all [Notify_All, Run 0] ?s = Some ?t" by (simp add: pt_stop_call_def)
  have st: "r_stopper ?s \<noteq> Not_Yet" by simp
  have "r_begun ?t \<le> 1" by (rule stop_ends_thread [OF p r st e, THEN conjunct2, THEN conjunct1])
  then show ?thesis using r e by (intro exI [of _ ?s] exI [of _ ?t] conjI) simp_all
qed

end
