(* ===== verification/Buffers_Last.thy ===== *)
theory Buffers_Last
  imports Rsu Letters
begin

text \<open>
  How long the buffers of a NIC last (\<open>buffer.hpp\<close>, \<open>nic.hpp\<close>): what a frame of the protocol that
  arrives does to them, and that a NIC that has sent once never runs out.
\<close>

section \<open>Buffers that come back\<close>

text \<open>
  A received frame takes the first free buffer and returns it when it has an owner, which it has once
  the NIC has sent from it. As long as the first free buffer has one, the NIC never runs out.
\<close>

definition first_owned :: "buffer list \<Rightarrow> bool" where
  "first_owned bs \<longleftrightarrow> (case first_index is_free bs of None \<Rightarrow> False | Some i \<Rightarrow> b_owner (bs ! i) \<noteq> None)"

text \<open>Enough buffers for \<open>k\<close> received frames and one to send.\<close>

definition lasts :: "nat \<Rightarrow> buffer list \<Rightarrow> bool" where
  "lasts k bs \<longleftrightarrow> first_owned bs \<or> k < card (free_slots bs)"

lemma first_index_free:
  "first_index is_free bs = Some i \<longleftrightarrow> i \<in> free_slots bs \<and> (\<forall>j\<in>free_slots bs. i \<le> j)"
proof
  assume "first_index is_free bs = Some i"
  then show "i \<in> free_slots bs \<and> (\<forall>j\<in>free_slots bs. i \<le> j)"
    by (auto simp: first_index_Some free_slots_def not_less [symmetric])
next
  assume i: "i \<in> free_slots bs \<and> (\<forall>j\<in>free_slots bs. i \<le> j)"
  have "\<not> is_free (bs ! j)" if "j < i" for j
  proof
    assume "is_free (bs ! j)"
    then have "j \<in> free_slots bs" using i that by (auto simp: free_slots_def)
    with i that show False by auto
  qed
  with i show "first_index is_free bs = Some i" by (simp add: first_index_Some free_slots_def)
qed

lemma first_owned_cong:
  assumes "free_slots bs = free_slots bs'" and "map b_owner bs = map b_owner bs'"
  shows "first_owned bs = first_owned bs'"
proof -
  have same: "first_index is_free bs' = first_index is_free bs"
    using assms(1) first_index_free [of bs] first_index_free [of bs']
    by (metis option.exhaust)
  show ?thesis
  proof (cases "first_index is_free bs")
    case None
    then show ?thesis using same by (simp add: first_owned_def)
  next
    case (Some i)
    then have "i < length bs" by (simp add: first_index_Some)
    then have "b_owner (bs ! i) = b_owner (bs' ! i)" using assms(2) map_nth_eq by metis
    then show ?thesis using same Some by (simp add: first_owned_def)
  qed
qed

lemma lasts_free: "lasts k bs \<Longrightarrow> free_slots bs \<noteq> {}"
  by (auto simp: lasts_def first_owned_def first_index_free split: option.splits)

lemma lasts_less: "lasts k bs \<Longrightarrow> j \<le> k \<Longrightarrow> lasts j bs"
  by (auto simp: lasts_def)

lemma first_index_update:
  "first_index is_free bs = Some i \<Longrightarrow> is_free b \<Longrightarrow> first_index is_free (bs[i := b]) = Some i"
  by (auto simp: first_index_Some)

lemma sending_owns:
  assumes "send_one pos src dst dat sz n s = Inr t" and "n < length (nics s)"
    and "free_slots (pool (nics s ! n)) \<noteq> {}"
  shows "first_owned (pool (nics t ! n))"
proof -
  obtain i where i: "first_index is_free (pool (nics s ! n)) = Some i" using free_slot_exists [OF assms(3)] by blast
  then have il: "i < length (pool (nics s ! n))" by (simp add: first_index_Some)
  define b where "b = fill_alloc n (n_address (nics s ! n)) (paddr dst) (htons PROTO) (header_size + sz)
    (pool (nics s ! n) ! i)"
  have "b_owner b = Some n" by (simp add: b_def fill_alloc_def)
  then have own: "b_owner (release (b\<lparr>b_frame := f\<rparr>)) = Some n" for f by (simp add: release_def)
  have "pool_alloc n (n_address (nics s ! n)) (paddr dst) (htons PROTO) (header_size + sz) (pool (nics s ! n)) =
      (Some i, (pool (nics s ! n))[i := b])" using i by (simp add: pool_alloc_def b_def)
  with assms(1) obtain f where "nics t = (nics s)[n := (nics s ! n)\<lparr>pool :=
      pool_free i ((pool (nics s ! n))[i := b\<lparr>b_frame := f\<rparr>])\<rparr>]"
    using il by (auto simp: send_one_def Let_def and_then_Inr_iff split: if_splits)
  then have p: "pool (nics t ! n) = (pool (nics s ! n))[i := release (b\<lparr>b_frame := f\<rparr>)]"
    using assms(2) il by (simp add: pool_free_def)
  then have "first_index is_free (pool (nics t ! n)) = Some i" using first_index_update [OF i] by simp
  then show ?thesis using own il by (simp add: first_owned_def p)
qed

section \<open>What a turn leaves alone\<close>

lemma fold_and_then_keeps:
  assumes "\<And>x s t. x \<in> set xs \<Longrightarrow> f x s = Inr t \<Longrightarrow> g t = g s" and "fold (\<lambda>x r. and_then r (f x)) xs (Inr s) = Inr t"
  shows "g t = g s"
  using assms
proof (induction xs arbitrary: s)
  case (Cons x xs)
  then show ?case
  proof (cases "f x s")
    case (Inl e)
    have "fold (\<lambda>x r. and_then r (f x)) xs (Inl e) = Inl e" by (induction xs) simp_all
    with Inl Cons.prems(2) show ?thesis by simp
  next
    case (Inr u)
    with Cons.prems have "g t = g u" by (intro Cons.IH) auto
    also have "g u = g s" by (rule Cons.prems(1) [OF _ Inr]) simp
    finally show ?thesis .
  qed
qed simp

lemma fold_deliver_wire: "on_wire (fold (deliver p) ks s) = on_wire s"
  by (induction ks arbitrary: s) (simp_all add: deliver_def)

lemma comm_update_wire: "comm_update n i c s = Inr t \<Longrightarrow> on_wire t = on_wire s"
  by (auto simp: comm_update_def Let_def and_then_Inr_iff delete_msg_def notify_eq fold_deliver_wire split: if_splits)

lemma proto_update_wire:
  assumes "proto_update n i s = Inr t"
  shows "on_wire t = on_wire s"
proof -
  have n: "on_wire u = on_wire s" if "proto_notify n i p s = Inr u" for p s u
    using that fold_and_then_keeps [OF comm_update_wire] by (simp add: proto_notify_def notify_eq)
  obtain u where u: "notify_ports n i (dispatch_ports (the_frame n i s)) s = Inr u" "t = proto_free n i u"
    using assms by (auto simp: proto_update_eq and_then_Inr_iff)
  have "on_wire u = on_wire s"
    by (rule fold_and_then_keeps [OF n u(1) [unfolded notify_ports_def]])
  then show ?thesis by (simp add: u(2) proto_free_def split: option.splits)
qed

lemma nic_handle_wire: "nic_handle pos n raw len s = Inr t \<Longrightarrow> on_wire t = on_wire s"
  by (auto simp: nic_handle_def Let_def and_then_Inr_iff notify_eq split: if_splits option.splits
      dest: fold_and_then_keeps [OF proto_update_wire, rotated])

section \<open>Frames of the protocol\<close>

text \<open>A frame from any sender in any quadrant, for any port.\<close>

lemma letter_taken:
  fixes pos q :: byte
  assumes ok: "node_ok s" and n: "n < length (nics s)" and obs: "n_observers (nics s ! n) = [(PROTO, ())]"
    and free: "lasts (Suc k) (pool (nics s ! n))" and l: "letter_ok p l"
    and tmp: "length tmp = frame_size" and c: "c < length (consumers s)"
  defines "w \<equiv> letter_frame q l"
  shows "\<exists>t ms. nic_handle pos n (poke 0 w tmp) (length w) s = Inr t \<and> node_ok t \<and> same_layout s t \<and>
    map n_address (nics t) = map n_address (nics s) \<and> n_observers (nics t ! n) = [(PROTO, ())] \<and>
    lasts k (pool (nics t ! n)) \<and> (first_owned (pool (nics s ! n)) \<longrightarrow> first_owned (pool (nics t ! n))) \<and>
    on_wire t = on_wire s \<and> mailbox c t = mailbox c s @ ms \<and>
    list_all2 says ms (if q = my_quadrant pos s
      then replicate (count_list (concat (map (routing s) (letter_ports l))) c) l else [])"
proof -
  have mac: "length (l_mac l) = 6" "length (paddr (l_to l)) = 6" using l by (simp_all add: letter_ok_def)
  have lw: "14 \<le> length w" "length w \<le> frame_size"
    using letter_frame_length [OF l, of q] by (simp_all add: w_def)
  have raw: "length (poke 0 w tmp) = frame_size" "take (length w) (poke 0 w tmp) = w" using lw tmp by (simp_all add: poke_def)
  have wf: "w = wire_frame (l_mac l) (l_from l) (l_to l) q (l_payload l)" by (simp add: w_def letter_frame_def)
  note fields = wire_frame_fields [OF wf raw(2) mac]
  show ?thesis
  proof (cases "q = my_quadrant pos s")
    case False
    then have "nic_handle pos n (poke 0 w tmp) (length w) s = Inr s"
      using fields(4) by (simp add: nic_handle_def verifica_quadrante_eq)
    then show ?thesis using ok obs lasts_less [OF free] False by (intro exI [of _ s]) simp
  next
    case True
    note fr = lasts_free [OF free]
    from letter_handled [OF ok n obs fr l tmp c, of pos, folded True, folded w_def]
    obtain t m where t: "nic_handle pos n (poke 0 w tmp) (length w) s = Inr t" "node_ok t" "same_layout s t"
        "n_observers (nics t ! n) = [(PROTO, ())]" "map n_address (nics t) = map n_address (nics s)"
        "mailbox c t = mailbox c s @ replicate (count_list (concat (map (routing s) (letter_ports l))) c) m"
        "says m l" by metis
    obtain i where i: "first_index is_free (pool (nics s ! n)) = Some i" using free_slot_exists [OF fr] by blast
    have q: "verifica_quadrante pos (poke 0 w tmp) s" using fields(4) True by (simp add: verifica_quadrante_eq)
    have le: "length w \<le> length (poke 0 w tmp)" using lw raw by simp
    from received_buffer_step [OF ok n le lw q fields(2) i obs] t(1)
    have b: "free_slots (pool (nics t ! n)) = (if b_owner (pool (nics s ! n) ! i) = None
          then free_slots (pool (nics s ! n)) - {i} else free_slots (pool (nics s ! n)))"
        "map b_owner (pool (nics t ! n)) = map b_owner (pool (nics s ! n))" by simp_all
    have own: "first_owned (pool (nics s ! n)) \<longleftrightarrow> b_owner (pool (nics s ! n) ! i) \<noteq> None"
      using i by (simp add: first_owned_def)
    have keep: "first_owned (pool (nics s ! n)) \<longrightarrow> first_owned (pool (nics t ! n))"
      using own b first_owned_cong by metis
    moreover have "lasts k (pool (nics t ! n))"
      using free keep own b(1) by (auto simp: lasts_def card_Diff_singleton_if)
    ultimately show ?thesis
      using t nic_handle_wire [OF t(1)] True by (intro exI [of _ t] exI) (auto simp: list_all2_conv_all_nth)
  qed
qed

lemma receive_wire:
  assumes "endpoint_receive k out s = Inr (b, m, t)"
  shows "on_wire t = on_wire s"
proof -
  from assms obtain d ob where "co_updated_for (consumers s ! k) = Inr (d, ob)"
    by (auto simp: endpoint_receive_def and_then_Inr_iff)
  with assms show ?thesis
    by (cases d) (auto simp: endpoint_receive_def Let_def and_then_Inr_iff delete_msg_def
        split: option.splits if_splits)
qed

lemma rsu_step_owns:
  assumes "rsu_step pos rt now junk s = Inr t" and "p_nics s = [0]" and "0 < length (nics s)"
    and "free_slots (pool (nics s ! 0)) \<noteq> {}" and "on_wire t \<noteq> on_wire s"
  shows "first_owned (pool (nics t ! 0))"
proof -
  obtain ok msg u where u: "endpoint_receive 0 (new_message junk) s = Inr (ok, msg, u)"
    using assms(1) by (auto simp: rsu_step_def and_then_Inr_iff)
  have nx: "nics u = nics s" "p_nics u = p_nics s" "on_wire u = on_wire s"
    using receive_nics [OF u] receive_keeps [OF u] receive_wire [OF u] by simp_all
  obtain response dst where "ok" "rsu_reply rt now junk msg = Some (response, dst)"
    using assms(1,5) u nx(3) by (auto simp: rsu_step_def split: if_splits option.splits)
  with assms(1) u obtain b where "comm_send_to pos 0 response dst u = Inr (b, t)"
    by (auto simp: rsu_step_def and_then_Inr_iff)
  then obtain d src sz where "send_one pos src d (m_data response) sz 0 u = Inr t"
    using nx(2) assms(2) by (auto simp: comm_send_to_def proto_send_def and_then_Inr_iff)
  from sending_owns [OF this] show ?thesis using nx assms(3,4) by simp
qed

lemma send_one_keeps_owned:
  assumes "send_one pos src dst dat sz m s = Inr t" and "n < length (nics s)" and "m < length (nics s)"
    and "first_owned (pool (nics s ! n))"
  shows "first_owned (pool (nics t ! n))"
proof (cases "m = n")
  case True
  have "free_slots (pool (nics s ! n)) \<noteq> {}" using lasts_free [of 0] assms(4) by (simp add: lasts_def)
  then show ?thesis using sending_owns assms True by simp
next
  case False
  then have "nics t ! n = nics s ! n"
    using assms(1) by (auto simp: send_one_def Let_def and_then_Inr_iff split: if_splits option.splits prod.splits)
  then show ?thesis using assms(4) by simp
qed

lemma send_one_layout: "send_one pos src dst dat sz m s = Inr t \<Longrightarrow> length (nics t) = length (nics s)"
  by (auto simp: send_one_def Let_def and_then_Inr_iff split: if_splits option.splits prod.splits)

lemma send_nics_keeps_owned:
  "send_nics pos src dst dat sz ns s = Inr t \<Longrightarrow> n < length (nics s) \<Longrightarrow> \<forall>m\<in>set ns. m < length (nics s) \<Longrightarrow>
     first_owned (pool (nics s ! n)) \<Longrightarrow> first_owned (pool (nics t ! n))"
proof (induction ns arbitrary: s)
  case (Cons m ns)
  then obtain u where "send_one pos src dst dat sz m s = Inr u" "send_nics pos src dst dat sz ns u = Inr t"
    by (auto simp: and_then_Inr_iff)
  with Cons send_one_keeps_owned [of pos src dst dat sz m s u n] send_one_layout [of pos src dst dat sz m s u]
  show ?case by simp
qed simp

text \<open>After a send through a NIC with a free buffer, that NIC's buffers last.\<close>

lemma send_nics_owns:
  "send_nics pos src dst dat sz ns s = Inr t \<Longrightarrow> n \<in> set ns \<Longrightarrow> \<forall>m\<in>set ns. m < length (nics s) \<Longrightarrow>
     free_slots (pool (nics s ! n)) \<noteq> {} \<Longrightarrow> first_owned (pool (nics t ! n))"
proof (induction ns arbitrary: s)
  case (Cons m ns)
  then obtain u where u: "send_one pos src dst dat sz m s = Inr u" "send_nics pos src dst dat sz ns u = Inr t"
    by (auto simp: and_then_Inr_iff)
  note ly = send_one_layout [OF u(1)]
  show ?case
  proof (cases "m = n")
    case True
    have "first_owned (pool (nics u ! n))" using sending_owns [OF u(1)] True Cons.prems by simp
    then show ?thesis using send_nics_keeps_owned [OF u(2), of n] Cons.prems(3) ly True by simp
  next
    case False
    then have "nics u ! n = nics s ! n"
      using u(1) by (auto simp: send_one_def Let_def and_then_Inr_iff split: if_splits option.splits prod.splits)
    then show ?thesis using Cons.IH [OF u(2)] Cons.prems False ly by simp
  qed
qed simp

end
