(* ===== verification/Ptp_Exchange.thy ===== *)
theory Ptp_Exchange
  imports Buffers_Last Raw_Socket Vehicle
begin

text \<open>
  A synchronisation over the network: the time client's \<open>send\<close> and \<open>receive\<close>
  (\<open>time_client.hpp\<close>), the engines' \<open>_drain\<close>, and on both sides the protocol stack, with
  one turn of the RSU's loop in between. The exchange supplies what \<open>sync_time\<close> receives.
\<close>

section \<open>The client's send, and the medium\<close>

definition tc_send :: "byte \<Rightarrow> nat \<Rightarrow> message \<Rightarrow> node \<Rightarrow> runtime_error + (bool \<times> node)" where
  "tc_send pos c m s =
     and_then (proto_send pos (c_address (comms s ! c)) \<lparr>paddr = BROADCAST, port = 0\<rparr> (m_data m) (m_size m) s)
       (\<lambda>(r, s'). Inr (0 < r, s'))"

definition tc_receive :: "message \<Rightarrow> node \<Rightarrow> runtime_error + (bool \<times> message \<times> node)" where
  "tc_receive msg s = endpoint_receive 0 msg s"

text \<open>\<open>_drain\<close> reads the frames and hands them to \<open>NIC::_handle\<close>.\<close>

definition raw_deliver :: "byte \<Rightarrow> nat \<Rightarrow> frame \<Rightarrow> byte list list \<Rightarrow> node \<Rightarrow> runtime_error + node" where
  "raw_deliver pos n buf fs s =
     handle_all pos n (drain buf (map (\<lambda>f. (True, R_Frame f)) fs @ [(True, R_Again)])) s"

text \<open>
  The waiting loop of \<open>syncTime\<close>: \<open>receive\<close> until it returns false or the expected answer.
  \<open>n\<close> bounds the calls; a turn more than there are messages in the queue is enough, for
  \<open>receive\<close> takes one out or returns false.
\<close>

fun tc_wait :: "nat \<Rightarrow> byte \<Rightarrow> u32 \<Rightarrow> message \<Rightarrow> node \<Rightarrow> runtime_error + (bool \<times> message) list \<times> node" where
  "tc_wait 0 ty sq out s = Inr ([], s)"
| "tc_wait (Suc n) ty sq out s =
     and_then (tc_receive out s) (\<lambda>(got, m, s').
       if unrelated ty sq (got, m)
       then and_then (tc_wait n ty sq m s') (\<lambda>(rs, t). Inr ((got, m) # rs, t))
       else Inr ([(got, m)], s'))"

text \<open>\<open>Endpoint::receive\<close> waits 100 ms for the next message; here in nanoseconds.\<close>

definition receive_timeout :: int where
  "receive_timeout = 100000000"

text \<open>
  One request: the client (whose NIC 1 is the network's) sends it, the RSU (NIC 0) gets the frames and
  makes a turn of its loop, and the client waits. \<open>delay\<close> is how long after the client's (last)
  call of \<open>receive\<close> the frames of the answer arrive: before the limit they end the wait; otherwise
  that call returns false first, and the late answer stays in the queue.
\<close>

definition ask :: "byte \<Rightarrow> byte \<Rightarrow> frame \<Rightarrow> timespec \<Rightarrow> timespec \<Rightarrow> int \<Rightarrow> byte \<Rightarrow> u32 \<Rightarrow> message \<Rightarrow> message
    \<Rightarrow> node \<times> node \<Rightarrow> runtime_error + (bool \<times> message) list \<times> node \<times> node" where
  "ask pos_c pos_r buf rt now delay ty sq junk req = (\<lambda>(c, r).
     and_then (tc_send pos_c 0 req c) (\<lambda>(b, c1).
     and_then (raw_deliver pos_r 0 buf (sent_on 1 c c1) r) (\<lambda>r1.
     and_then (rsu_step pos_r rt now junk r1) (\<lambda>r2.
       let arrive = raw_deliver pos_c 1 buf (sent_on 0 r1 r2);
           wait = (\<lambda>s. tc_wait (Suc (length (queue (consumers s ! 0)))) ty sq junk s)
       in if delay < receive_timeout
          then and_then (arrive c1) (\<lambda>c2. and_then (wait c2) (\<lambda>(rs, c3). Inr (rs, (c3, r2))))
          else and_then (wait c1) (\<lambda>(rs, c2). and_then (arrive c2) (\<lambda>c3. Inr (rs, (c3, r2))))))))"

section \<open>Frames of the protocol on the medium\<close>

lemma raw_deliver_letter:
  assumes "letter_ok p l" and "length buf = frame_size"
  shows "raw_deliver pos n buf [letter_frame q l] s =
    nic_handle pos n (poke 0 (letter_frame q l) buf) (length (letter_frame q l)) s"
proof -
  let ?w = "letter_frame q l"
  have mac: "length (l_mac l) = 6" "length (paddr (l_to l)) = 6" using assms(1) by (simp_all add: letter_ok_def)
  have lw: "length ?w \<le> frame_size" "?w \<noteq> []"
    using letter_frame_length [OF assms(1), of q] by auto
  have "take (length ?w) (poke 0 ?w buf) = ?w" using lw assms(2) by (simp add: poke_def)
  from wire_frame_fields(2) [OF letter_frame_def this mac]
  have "ntohs (frame_type (poke 0 ?w buf)) = 0x8888" using htons_PROTO by (simp add: PROTO_def ntohs_def)
  with lw show ?thesis
    by (cases "nic_handle pos n (poke 0 ?w buf) (length ?w) s") (simp_all add: raw_deliver_def Let_def)
qed

section \<open>One request and its answer\<close>

text \<open>
  A time client and an RSU in one quadrant: nothing waits in their queues, and their NICs' buffers last
  for \<open>k\<close> received frames and one to send.
\<close>

definition client_ready :: "nat \<Rightarrow> byte \<Rightarrow> byte \<Rightarrow> node \<Rightarrow> bool" where
  "client_ready k pos q c \<longleftrightarrow> node_ok c \<and> distinct (p_nics c) \<and> 1 \<in> set (p_nics c) \<and> 1 < length (nics c) \<and>
     n_observers (nics c ! 1) = [(PROTO, ())] \<and> lasts k (pool (nics c ! 1)) \<and>
     0 < length (consumers c) \<and> mailbox 0 c = [] \<and> count_list (routing c PORT_TIME_CLIENT) 0 = 1 \<and>
     0 < length (comms c) \<and> my_quadrant pos c = q"

definition rsu_ready :: "nat \<Rightarrow> byte \<Rightarrow> byte \<Rightarrow> node \<Rightarrow> bool" where
  "rsu_ready k pos q r \<longleftrightarrow> node_ok r \<and> p_nics r = [0] \<and> 0 < length (nics r) \<and>
     n_observers (nics r ! 0) = [(PROTO, ())] \<and> lasts k (pool (nics r ! 0)) \<and>
     0 < length (consumers r) \<and> mailbox 0 r = [] \<and>
     count_list (routing r PORT_RSU @ routing r PORT_GATEWAY) 0 = 1 \<and>
     0 < length (comms r) \<and> my_quadrant pos r = q"

definition request_letter :: "node \<Rightarrow> ptp_frame \<Rightarrow> letter" where
  "request_letter c fr = \<lparr>l_mac = n_address (nics c ! 1), l_from = c_address (comms c ! 0),
     l_to = \<lparr>paddr = BROADCAST, port = 0\<rparr>, l_payload = enc_ptp fr\<rparr>"

definition answer_letter :: "node \<Rightarrow> mac \<Rightarrow> ptp_frame \<Rightarrow> letter" where
  "answer_letter r dst ans = \<lparr>l_mac = n_address (nics r ! 0), l_from = c_address (comms r ! 0),
     l_to = \<lparr>paddr = dst, port = 0\<rparr>, l_payload = enc_ptp ans\<rparr>"

lemma ptp_letter_ports:
  "port (l_to l) = 0 \<Longrightarrow> l_payload l = enc_ptp fr \<Longrightarrow> letter_ports l =
     (if message_type fr = 1 \<or> message_type fr = 3 then [PORT_TIME_CLIENT] else [PORT_RSU, PORT_GATEWAY])"
  using ptp_codec.dec_enc [of fr] by (simp add: letter_ports_def sizeof_ptp_def Let_def)

lemma ptp_letter_ok:
  assumes "node_ok s" and "n < length (nics s)" and "l_mac l = n_address (nics s ! n)"
    and "length (paddr (l_to l)) = 6" and "port (l_to l) = 0" and "l_payload l = enc_ptp fr"
  shows "letter_ok 0 l"
  using node_ok_nic [OF assms(1,2)] assms(3-6) length_enc_ptp [of fr]
  by (auto simp: letter_ok_def nic_ok_def MAX_SIZE_def simp flip: length_0_conv)

lemma request_sent:
  assumes "client_ready k pos q c" and "carries req fr"
  obtains c1 where "tc_send pos 0 req c = Inr (True, c1)"
    and "sent_on 1 c c1 = [letter_frame q (request_letter c fr)]"
    and "\<forall>j. client_ready j pos q c1" and "map n_address (nics c1) = map n_address (nics c)"
proof -
  let ?a = "c_address (comms c ! 0)"
  let ?dst = "\<lparr>paddr = BROADCAST, port = 0\<rparr>"
  note rd = assms(1) [unfolded client_ready_def]
  have ok: "node_ok c" using rd by simp
  have pn: "\<forall>n\<in>set (p_nics c). n < length (nics c)" using ok by (simp add: node_ok_def wired_def)
  have sz: "m_size req = 13" "m_size req \<le> length (m_data req)" "take 13 (m_data req) = enc_ptp fr"
    using assms(2) carries_simps(1) [OF assms(2)] by (simp_all add: carries_def message_ok_def msg_bytes_def)
  have "m_size req \<le> PROTOCOL_MTU" by (simp add: sz PROTOCOL_MTU_def MTU_def header_size_def)
  from send_nics_spec [OF ok pn _ sz(2) this, of ?dst pos ?a]
  obtain t where t: "send_nics pos ?a ?dst (m_data req) 13 (p_nics c) c = Inr t" "node_ok t" "same_layout c t"
      "same_pools c t" "same_but_nics c t"
      "on_wire t = on_wire c @ frames_out c (p_nics c) ?a ?dst q (enc_ptp fr)"
    using rd sz by auto
  have free: "free_slots (pool (nics c ! 1)) \<noteq> {}" using rd lasts_free by blast
  have own: "first_owned (pool (nics t ! 1))" by (rule send_nics_owns [OF t(1) _ pn free]) (use rd in simp)
  have w: "sent_on 1 c t = [letter_frame q (request_letter c fr)]"
    using frames_on_nic [OF _ _ free, of "p_nics c" ?a ?dst q "enc_ptp fr"] t(6) rd
    by (simp add: sent_on_def letter_frame_def request_letter_def)
  have "my_quadrant pos t = q"
    using t(5) rd my_quadrant_cong [of t c pos] by (simp add: same_but_nics_def)
  moreover have "routing t = routing c" "mailbox 0 t = mailbox 0 c"
    using t(3,5) by (simp_all add: routing_def same_layout_def fun_eq_iff mailbox_def contents_def same_but_nics_def)
  moreover have "n_observers (nics t ! 1) = n_observers (nics c ! 1)"
    using t(3,5) rd map_nth_eq [of n_observers "nics t" "nics c" 1] by (simp add: same_but_nics_def same_layout_def)
  ultimately have "client_ready j pos q t" for j
    using t own rd by (simp add: client_ready_def same_layout_def lasts_def)
  moreover have "tc_send pos 0 req c = Inr (True, t)" using t(1) sz by (simp add: tc_send_def proto_send_def)
  ultimately show ?thesis using that w t(5) by (simp add: same_but_nics_def)
qed

lemma says_carries:
  assumes "says m l" and "message_ok m" and "l_payload l = enc_ptp fr"
  shows "carries m fr"
  using assms by (simp add: says_def carries_def)

lemma request_answered:
  assumes rd: "rsu_ready (Suc k) pos q r" and l: "letter_ok 0 l"
    and pay: "l_payload l = enc_ptp fr" and ans: "answer_to rt now fr = Some ans"
    and buf: "length buf = frame_size"
  obtains r1 r2 where "raw_deliver pos 0 buf [letter_frame q l] r = Inr r1"
    and "rsu_step pos rt now junk r1 = Inr r2"
    and "sent_on 0 r1 r2 = [letter_frame q (answer_letter r (l_mac l) ans)]"
    and "\<forall>j. rsu_ready j pos q r2" and "map n_address (nics r2) = map n_address (nics r)"
proof -
  note rd = rd [unfolded rsu_ready_def]
  have ok: "node_ok r" and n: "0 < length (nics r)" and obs: "n_observers (nics r ! 0) = [(PROTO, ())]"
    and last: "lasts (Suc k) (pool (nics r ! 0))" and kc: "0 < length (consumers r)"
    and qd: "my_quadrant pos r = q" using rd by simp_all
  note free = lasts_free [OF last]
  have mac: "length (l_mac l) = 6" using l by (simp add: letter_ok_def)
  have "letter_ports l = [PORT_RSU, PORT_GATEWAY]"
    using ptp_letter_ports [OF _ pay] l ans by (auto simp: letter_ok_def answer_to_def split: if_splits)
  with letter_handled [OF ok n obs free l buf kc, of pos]
  obtain r1 m where r1: "nic_handle pos 0 (poke 0 (letter_frame q l) buf) (length (letter_frame q l)) r = Inr r1"
      "node_ok r1" "n_observers (nics r1 ! 0) = [(PROTO, ())]" "routing r1 = routing r"
      "card (free_slots (pool (nics r ! 0))) \<le> Suc (card (free_slots (pool (nics r1 ! 0))))"
      "mailbox 0 r1 = mailbox 0 r @ replicate (count_list (routing r PORT_RSU @ routing r PORT_GATEWAY) 0) m"
      "says m l" "same_layout r r1" "map n_address (nics r1) = map n_address (nics r)" "message_ok m"
    by (simp add: qd) metis
  have box: "mailbox 0 r1 = [m]" using r1(6) rd by simp
  have m: "carries m fr" "m_src m = l_mac l" using says_carries [OF r1(7,10) pay] r1(7) by (simp_all add: says_def)
  have kc1: "0 < length (consumers r1)" and pn1: "p_nics r1 = [0]" and n1: "0 < length (nics r1)"
    using r1(8) rd by (simp_all add: same_layout_def)
  obtain p where p: "queue (consumers r1 ! 0) = [p]" "heap r1 p = Some m"
    using mailbox_front [OF r1(2) kc1 box] by auto
  have "lasts k (pool (nics r1 ! 0))"
    using letter_taken [OF ok n obs last l buf kc, of pos q] r1(1) by auto
  note free1 = lasts_free [OF this]
  have "length (m_src m) = 6" using m(2) mac by simp
  from rsu_turn [OF r1(2) pn1 free1 kc1 p m(1) this, of pos rt now junk]
  obtain r2 where r2: "rsu_step pos rt now junk r1 = Inr r2"
      "on_wire r2 = on_wire r1 @ answer_frames pos 0 (l_mac l) (Some ans) r1"
      "node_ok r2" "same_layout r1 r2" "same_pools r1 r2" "map n_address (nics r2) = map n_address (nics r1)"
      "map n_observers (nics r2) = map n_observers (nics r1)" "queue (consumers r2 ! 0) = []"
    using ans m(2) by auto
  have pq: "p_quadrant r1 = p_quadrant r" "p_quadrant r2 = p_quadrant r"
    using r1(8) r2(4) by (simp_all add: same_layout_def)
  have qs: "my_quadrant pos r1 = q" "my_quadrant pos r2 = q"
    using my_quadrant_cong [OF pq(1)] my_quadrant_cong [OF pq(2)] qd by simp_all
  have "n_address (nics r1 ! 0) = n_address (nics r ! 0)" "c_address (comms r1 ! 0) = c_address (comms r ! 0)"
    using map_nth_eq [OF r1(9) n1] r1(8) by (simp_all add: same_layout_def)
  then have "sent_on 0 r1 r2 = [letter_frame q (answer_letter r (l_mac l) ans)]"
    using r2(2) by (simp add: sent_on_def answer_frames_def letter_frame_def answer_letter_def qs)
  moreover have "rsu_ready j pos q r2" for j
  proof -
    have "routing r2 = routing r" using r2(4) r1(4) by (simp add: routing_def same_layout_def fun_eq_iff)
    moreover have "mailbox 0 r2 = []" using r2(8) by (simp add: mailbox_def contents_def)
    moreover have "0 < length (nics r2)" using r2(4) n1 by (simp add: same_layout_def)
    from map_nth_eq [OF r2(7) this] have "n_observers (nics r2 ! 0) = [(PROTO, ())]" using r1(3) by simp
    moreover have "on_wire r2 \<noteq> on_wire r1" using r2(2) by (simp add: answer_frames_def)
    then have "lasts j (pool (nics r2 ! 0))" using rsu_step_owns [OF r2(1) pn1 n1 free1] by (simp add: lasts_def)
    ultimately show ?thesis
      using r2(3,4) r1(8) rd qs by (simp add: rsu_ready_def same_layout_def)
  qed
  moreover have "raw_deliver pos 0 buf [letter_frame q l] r = Inr r1"
    using raw_deliver_letter [OF l buf] r1(1) by simp
  ultimately show ?thesis using that r2(1,6) r1(9) by simp
qed

lemma answer_received:
  assumes rd: "\<forall>j. client_ready j pos q c" and l: "letter_ok 0 l" and pay: "l_payload l = enc_ptp ans"
    and ty: "message_type ans = 1 \<or> message_type ans = 3" and buf: "length buf = frame_size"
  obtains c1 c2 m where "raw_deliver pos 1 buf [letter_frame q l] c = Inr c1"
    and "tc_receive junk c1 = Inr (True, m, c2)" and "carries m ans" and "\<forall>j. client_ready j pos q c2"
    and "map n_address (nics c2) = map n_address (nics c)" and "m_src m = l_mac l" and "origin m = q AND 0x3"
proof -
  note rd = spec [OF rd, unfolded client_ready_def]
  have ok: "node_ok c" and n: "1 < length (nics c)" and obs: "n_observers (nics c ! 1) = [(PROTO, ())]"
    and last: "lasts j (pool (nics c ! 1))" and kc: "0 < length (consumers c)"
    and qd: "my_quadrant pos c = q" for j using rd by simp_all
  note free = lasts_free [OF last]
  have "letter_ports l = [PORT_TIME_CLIENT]" using ptp_letter_ports [OF _ pay] l ty by (simp add: letter_ok_def)
  with letter_handled [OF ok n obs free l buf kc, of pos]
  obtain c1 m where c1: "nic_handle pos 1 (poke 0 (letter_frame q l) buf) (length (letter_frame q l)) c = Inr c1"
      "node_ok c1" "n_observers (nics c1 ! 1) = [(PROTO, ())]" "routing c1 = routing c"
      "card (free_slots (pool (nics c ! 1))) \<le> Suc (card (free_slots (pool (nics c1 ! 1))))"
      "mailbox 0 c1 = mailbox 0 c @ replicate (count_list (routing c PORT_TIME_CLIENT) 0) m"
      "says m l" "same_layout c c1" "map n_address (nics c1) = map n_address (nics c)" "message_ok m"
      "origin m = q AND 0x3"
    by (simp add: qd) metis
  have own: "lasts j (pool (nics c1 ! 1))" for j
    using letter_taken [OF ok n obs last l buf kc, of pos q] c1(1) by auto
  have box: "mailbox 0 c1 = [m]" using c1(6) rd by simp
  have kc1: "0 < length (consumers c1)" using c1(8) kc by (simp add: same_layout_def)
  obtain b m' c2 where r: "endpoint_receive 0 junk c1 = Inr (b, m', c2)" "node_ok c2"
    by (rule receive_ok [OF c1(2) kc1])
  note rm = receive_mail [OF c1(2) kc1 r(1)]
  have lc: "length (consumers c2) = length (consumers c1)"
    using arg_cong [OF rm(1), of "\<lambda>b. length (boxes b)"] by (simp add: mail_of_def mail_take_def)
  have "boxes (mail_of c1) ! 0 = [m]" using box kc1 by (simp add: box_mailbox)
  with rm(1,2) kc1 have rec: "b" "m' = m" "boxes (mail_of c2) ! 0 = []"
    by (auto simp: mail_take_def mail_of_def split: if_splits)
  have e: "routing c2 = routing c1" "p_quadrant c2 = p_quadrant c1"
    using arg_cong [OF rm(1), of routes] arg_cong [OF rm(1), of quadrant_of]
    by (simp_all add: mail_of_def mail_take_def)
  have nx: "nics c2 = nics c1" by (rule receive_nics [OF r(1)])
  have st: "p_nics c2 = p_nics c1" "comms c2 = comms c1" using receive_keeps [OF r(1)] by simp_all
  have "my_quadrant pos c2 = q"
    using my_quadrant_cong [of c2 c pos] e(2) c1(8) qd by (simp add: same_layout_def)
  moreover have "mailbox 0 c2 = []" using rec(3) lc kc1 box_mailbox [of 0 c2] by simp
  ultimately have "client_ready j pos q c2" for j
    using r(2) nx st e(1) lc c1 rd own by (simp add: client_ready_def same_layout_def)
  moreover have "carries m ans" by (rule says_carries [OF c1(7,10) pay])
  moreover have "raw_deliver pos 1 buf [letter_frame q l] c = Inr c1"
    using raw_deliver_letter [OF l buf] c1(1) by simp
  ultimately show ?thesis
    using that r(1) rec(1,2) nx c1(7,9,11) by (simp add: tc_receive_def says_def)
qed

text \<open>The whole way of one request.\<close>

lemma ask_answered:
  assumes "client_ready k pc q c" and "rsu_ready (Suc i) pr q r" and "carries req fr"
    and "answer_to rt now fr = Some ans" and "length buf = frame_size"
    and "delay < receive_timeout" and "seq ans = sq" and "message_type ans = ty"
  obtains m c' r' where "ask pc pr buf rt now delay ty sq junk req (c, r) = Inr ([(True, m)], (c', r'))"
    and "carries m ans" and "\<forall>j. client_ready j pc q c'" and "\<forall>j. rsu_ready j pr q r'"
    and "m_src m = n_address (nics r ! 0)" and "origin m = q AND 0x3"
proof -
  let ?l = "request_letter c fr"
  let ?l2 = "answer_letter r (l_mac ?l) ans"
  obtain c1 where c1: "tc_send pc 0 req c = Inr (True, c1)" "sent_on 1 c c1 = [letter_frame q ?l]"
      "\<forall>j. client_ready j pc q c1" "map n_address (nics c1) = map n_address (nics c)"
    by (rule request_sent [OF assms(1,3)])
  have cn: "node_ok c" "1 < length (nics c)" using assms(1) by (simp_all add: client_ready_def)
  have l: "letter_ok 0 ?l" "l_payload ?l = enc_ptp fr"
    by (rule ptp_letter_ok [OF cn, where fr = fr]) (simp_all add: request_letter_def)
  obtain r1 r2 where r2: "raw_deliver pr 0 buf [letter_frame q ?l] r = Inr r1"
      "rsu_step pr rt now junk r1 = Inr r2" "sent_on 0 r1 r2 = [letter_frame q ?l2]" "\<forall>j. rsu_ready j pr q r2"
    by (rule request_answered [OF assms(2) l assms(4,5)])
  have rn: "node_ok r" "0 < length (nics r)" using assms(2) by (simp_all add: rsu_ready_def)
  have "length (l_mac ?l) = 6" using l(1) by (simp add: letter_ok_def)
  then have l2: "letter_ok 0 ?l2" "l_payload ?l2 = enc_ptp ans"
    by (intro ptp_letter_ok [OF rn, where fr = ans]) (simp_all add: answer_letter_def)
  have ty: "message_type ans = 1 \<or> message_type ans = 3"
    using assms(4) by (auto simp: answer_to_def split: if_splits)
  obtain c2 c3 m where m: "raw_deliver pc 1 buf [letter_frame q ?l2] c1 = Inr c2"
      "tc_receive junk c2 = Inr (True, m, c3)" "carries m ans" "\<forall>j. client_ready j pc q c3"
      "m_src m = l_mac ?l2" "origin m = q AND 0x3"
    by (rule answer_received [OF c1(3) l2 ty assms(5)])
  have "\<not> unrelated ty sq (True, m)"
    using carries_simps [OF m(3)] assms(7,8) by (simp add: unrelated_def sizeof_ptp_def)
  then have "tc_wait (Suc n) ty sq junk c2 = Inr ([(True, m)], c3)" for n using m(2) by simp
  then have "ask pc pr buf rt now delay ty sq junk req (c, r) = Inr ([(True, m)], (c3, r2))"
    using c1(1,2) r2(1-3) m(1) assms(6) by (simp add: ask_def Let_def del: tc_wait.simps)
  then show ?thesis by (rule that [OF _ m(3,4) r2(4)]) (use m(5,6) in \<open>simp_all add: answer_letter_def\<close>)
qed

text \<open>The way of a request whose answer is late.\<close>

lemma receive_nothing:
  assumes "node_ok s" and "0 < length (consumers s)" and "mailbox 0 s = []"
  shows "tc_receive out s = Inr (False, set_size 0 out, s)"
proof -
  have "co_ok (consumers s ! 0)" using assms(1,2) by (simp add: node_ok_def heap_ok_def)
  moreover have "queue (consumers s ! 0) = []" using assms(3) by (simp add: mailbox_def contents_def)
  ultimately show ?thesis
    using list_update_id [of "consumers s" 0]
    by (simp add: tc_receive_def endpoint_receive_def co_updated_for_ok Let_def)
qed

lemma ask_late:
  assumes "client_ready k pc q c" and "rsu_ready (Suc i) pr q r" and "carries req fr"
    and "answer_to rt now fr = Some ans" and "length buf = frame_size" and "receive_timeout \<le> delay"
  obtains m c' r' where "ask pc pr buf rt now delay ty sq junk req (c, r) = Inr ([(False, m)], (c', r'))"
proof -
  let ?l = "request_letter c fr"
  let ?l2 = "answer_letter r (l_mac ?l) ans"
  obtain c1 where c1: "tc_send pc 0 req c = Inr (True, c1)" "sent_on 1 c c1 = [letter_frame q ?l]"
      "\<forall>j. client_ready j pc q c1" "map n_address (nics c1) = map n_address (nics c)"
    by (rule request_sent [OF assms(1,3)])
  have cn: "node_ok c" "1 < length (nics c)" using assms(1) by (simp_all add: client_ready_def)
  have l: "letter_ok 0 ?l" "l_payload ?l = enc_ptp fr"
    by (rule ptp_letter_ok [OF cn, where fr = fr]) (simp_all add: request_letter_def)
  obtain r1 r2 where r2: "raw_deliver pr 0 buf [letter_frame q ?l] r = Inr r1"
      "rsu_step pr rt now junk r1 = Inr r2" "sent_on 0 r1 r2 = [letter_frame q ?l2]" "\<forall>j. rsu_ready j pr q r2"
    by (rule request_answered [OF assms(2) l assms(4,5)])
  have rn: "node_ok r" "0 < length (nics r)" using assms(2) by (simp_all add: rsu_ready_def)
  have "length (l_mac ?l) = 6" using l(1) by (simp add: letter_ok_def)
  then have l2: "letter_ok 0 ?l2" "l_payload ?l2 = enc_ptp ans"
    by (intro ptp_letter_ok [OF rn, where fr = ans]) (simp_all add: answer_letter_def)
  have ty: "message_type ans = 1 \<or> message_type ans = 3"
    using assms(4) by (auto simp: answer_to_def split: if_splits)
  obtain c2 where c2: "raw_deliver pc 1 buf [letter_frame q ?l2] c1 = Inr c2"
    by (rule answer_received [OF c1(3) l2 ty assms(5)])
  have none: "tc_receive junk c1 = Inr (False, set_size 0 junk, c1)"
    using spec [OF c1(3), of 0] by (intro receive_nothing) (simp_all add: client_ready_def)
  have "tc_wait (Suc n) ty sq junk c1 = Inr ([(False, set_size 0 junk)], c1)" for n
    by (simp add: none unrelated_def)
  then have "ask pc pr buf rt now delay ty sq junk req (c, r) = Inr ([(False, set_size 0 junk)], (c2, r2))"
    using c1(1,2) r2(1-3) c2 assms(6) by (simp add: ask_def Let_def del: tc_wait.simps)
  then show ?thesis by (rule that)
qed

section \<open>A synchronisation\<close>

text \<open>
  The clocks that are read on the way, the RSU's for each request and the client's, and how long after
  the client's calls of \<open>receive\<close> the two answers arrive.
\<close>

record readings =
  rsu_receives1 :: timespec
  rsu_answers1 :: timespec
  client_t2 :: timespec
  client_t3 :: timespec
  rsu_receives2 :: timespec
  rsu_answers2 :: timespec
  client_now :: timespec
  delay1 :: int
  delay2 :: int

definition sync_over_network :: "byte \<Rightarrow> byte \<Rightarrow> frame \<Rightarrow> mac \<Rightarrow> readings \<Rightarrow> message \<Rightarrow> time_client \<Rightarrow> stats
    \<Rightarrow> node \<times> node \<Rightarrow> runtime_error + sync_result \<times> node \<times> node" where
  "sync_over_network pos_c pos_r buf mac w junk tc st nodes =
     (let sq = tc_seq (next_seq tc);
          request = (\<lambda>t. set_src mac (ptp_message junk \<lparr>message_type = t, timestamp = 0, seq = sq\<rparr>));
          sync = (\<lambda>rs1 rs3. sync_time mac \<lparr>sync_results = rs1, clock_t2 = client_t2 w, clock_t3 = client_t3 w,
            delay_results = rs3, clock_now = client_now w, sync_junk = junk\<rparr> tc st) in
      and_then (ask pos_c pos_r buf (rsu_receives1 w) (rsu_answers1 w) (delay1 w) 1 sq junk (request 0) nodes)
        (\<lambda>(rs1, nodes1). case await_reply 1 sq rs1 of
           Got _ _ \<Rightarrow>
             and_then (ask pos_c pos_r buf (rsu_receives2 w) (rsu_answers2 w) (delay2 w) 3 sq junk (request 2) nodes1)
               (\<lambda>(rs3, nodes2). and_then (sync rs1 rs3) (\<lambda>r. Inr (r, nodes2)))
         | _ \<Rightarrow> and_then (sync rs1 []) (\<lambda>r. Inr (r, nodes1))))"

lemma network_sync:
  assumes "client_ready k pc q c" and "rsu_ready (Suc i) pr q r" and "length buf = frame_size"
    and "ns_of (client_t2 w) = ns_of (rsu_answers1 w) + d1 + theta"
    and "ns_of (rsu_receives2 w) = ns_of (client_t3 w) - theta + d2"
    and "\<forall>t\<in>{rsu_answers1 w, client_t2 w, client_t3 w, rsu_receives2 w, client_now w}. time_ok (ns_of t)"
    and "delay1 w < receive_timeout" and "delay2 w < receive_timeout"
  obtains res c' r' ts off where "sync_over_network pc pr buf mac w junk tc st (c, r) = Inr (res, (c', r'))"
    and "sr_returned res" and "sr_clock res = Some ts"
    and "\<bar>ns_of ts - (ns_of (client_now w) - theta)\<bar> \<le> (\<bar>d1 - d2\<bar> + 1) div 2"
    and "sr_stats res = st\<lparr>last_offset_ns := off, ptp_sync_ok := ptp_sync_ok st + 1\<rparr>" and "\<bar>off\<bar> < 2 ^ 62"
    and "sr_client res = next_seq tc" and "\<forall>j. client_ready j pc q c'" and "\<forall>j. rsu_ready j pr q r'"
proof -
  let ?fr = "\<lambda>t. \<lparr>message_type = t, timestamp = 0, seq = tc_seq (next_seq tc)\<rparr>"
  let ?rq = "\<lambda>t. set_src mac (ptp_message junk (?fr t))"
  let ?a1 = "\<lparr>message_type = 1, timestamp = ns_u64 (rsu_answers1 w), seq = tc_seq (next_seq tc)\<rparr>"
  let ?a3 = "\<lparr>message_type = 3, timestamp = ns_u64 (rsu_receives2 w), seq = tc_seq (next_seq tc)\<rparr>"
  have rq: "carries (?rq t) (?fr t)" for t by (simp add: carries_ptp_message)
  have a: "answer_to rt1 (rsu_answers1 w) (?fr 0) = Some ?a1" "answer_to (rsu_receives2 w) now2 (?fr 2) = Some ?a3"
    for rt1 now2 by (simp_all add: answer_to_def)
  obtain m1 c1 r1 where ask1: "ask pc pr buf (rsu_receives1 w) (rsu_answers1 w) (delay1 w) 1 (tc_seq (next_seq tc)) junk (?rq 0) (c, r) =
        Inr ([(True, m1)], (c1, r1))" "carries m1 ?a1" "\<forall>j. client_ready j pc q c1" "\<forall>j. rsu_ready j pr q r1"
    by (rule ask_answered [OF assms(1,2) rq a(1) assms(3,7), of "tc_seq (next_seq tc)" 1]) simp_all
  obtain m3 c2 r2 where ask3: "ask pc pr buf (rsu_receives2 w) (rsu_answers2 w) (delay2 w) 3 (tc_seq (next_seq tc)) junk (?rq 2) (c1, r1) =
        Inr ([(True, m3)], (c2, r2))" "carries m3 ?a3" "\<forall>j. client_ready j pc q c2" "\<forall>j. rsu_ready j pr q r2"
    by (rule ask_answered [OF spec [OF ask1(3)] spec [OF ask1(4)] rq a(2) assms(3,8), of "tc_seq (next_seq tc)" 3])
      simp_all
  let ?env = "\<lparr>sync_results = [(True, m1)], clock_t2 = client_t2 w, clock_t3 = client_t3 w,
      delay_results = [(True, m3)], clock_now = client_now w, sync_junk = junk\<rparr>"
  have got: "answered_by [(True, m)] ty sq (ptp_message junk p)" if "carries m p" for m ty sq p
    using that carries_ptp_message [of junk p]
    by (auto simp: answered_by_def carries_def intro!: exI [of _ "[]"] exI [of _ m])
  have g: "answered_by (sync_results ?env) 1 (tc_seq (next_seq tc)) (ptp_message junk ?a1)"
    "answered_by (delay_results ?env) 3 (tc_seq (next_seq tc)) (ptp_message junk ?a3)"
    using got [OF ask1(2)] got [OF ask3(2)] by simp_all
  have reply: "rsu_reply rt (rsu_answers1 w) junk (?rq 0) = Some (ptp_message junk ?a1, mac)"
    "rsu_reply (rsu_receives2 w) now junk (?rq 2) = Some (ptp_message junk ?a3, mac)" for rt now
    by (simp_all add: rsu_reply_carries [OF rq]) (simp_all add: set_src_def)
  obtain off res ts where "sync_time mac ?env tc st = Inr res" "sr_returned res" "sr_clock res = Some ts"
      "\<bar>ns_of ts - (ns_of (client_now w) - theta)\<bar> \<le> (\<bar>d1 - d2\<bar> + 1) div 2" "sr_client res = next_seq tc"
      "sr_stats res = st\<lparr>last_offset_ns := off, ptp_sync_ok := ptp_sync_ok st + 1\<rparr>" "\<bar>off\<bar> < 2 ^ 62"
    using clock_set [OF rq reply(1) g(1) rq reply(2) g(2), of d1 theta d2 mac st] assms(4-6) by auto
  moreover have "await_reply 1 (tc_seq (next_seq tc)) [(True, m1)] = Got ?a1 m1"
    using await_answer [of 1 "tc_seq (next_seq tc)" "[]" m1 ?a1 "[]"] ask1(2) by simp
  ultimately show ?thesis
    using ask1(1) ask3(1,3,4)
    by (intro that [of res c2 r2 ts off]) (simp_all add: sync_over_network_def Let_def del: await_reply.simps)
qed

text \<open>An answer that comes too late ends the synchronisation: the timeout is counted, the clock left alone.\<close>

lemma network_timeout:
  assumes "client_ready k pc q c" and "rsu_ready (Suc i) pr q r" and "length buf = frame_size"
    and "\<not> (delay1 w < receive_timeout \<and> delay2 w < receive_timeout)"
  obtains res c' r' where "sync_over_network pc pr buf mac w junk tc st (c, r) = Inr (res, (c', r'))"
    and "sr_returned res" and "sr_clock res = None" and "sr_client res = next_seq tc"
    and "sr_stats res = st\<lparr>ptp_sync_timeout := ptp_sync_timeout st + 1\<rparr>"
proof (cases "delay1 w < receive_timeout")
  let ?sq = "tc_seq (next_seq tc)"
  let ?fr = "\<lambda>t. \<lparr>message_type = t, timestamp = 0, seq = ?sq\<rparr>"
  let ?rq = "\<lambda>t. set_src mac (ptp_message junk (?fr t))"
  let ?a1 = "\<lparr>message_type = 1, timestamp = ns_u64 (rsu_answers1 w), seq = ?sq\<rparr>"
  let ?a3 = "\<lparr>message_type = 3, timestamp = ns_u64 (rsu_receives2 w), seq = ?sq\<rparr>"
  have rq: "carries (?rq t) (?fr t)" for t by (simp add: carries_ptp_message)
  have a: "answer_to rt1 (rsu_answers1 w) (?fr 0) = Some ?a1" "answer_to (rsu_receives2 w) now2 (?fr 2) = Some ?a3"
    for rt1 now2 by (simp_all add: answer_to_def)
  {
    case True
    obtain m1 c1 r1 where ask1: "ask pc pr buf (rsu_receives1 w) (rsu_answers1 w) (delay1 w) 1 ?sq junk (?rq 0) (c, r) =
          Inr ([(True, m1)], (c1, r1))" "carries m1 ?a1" "\<forall>j. client_ready j pc q c1" "\<forall>j. rsu_ready j pr q r1"
      by (rule ask_answered [OF assms(1,2) rq a(1) assms(3) True, of ?sq 1]) simp_all
    have "receive_timeout \<le> delay2 w" using assms(4) True by simp
    from ask_late [OF spec [OF ask1(3)] spec [OF ask1(4)] rq a(2) assms(3) this]
    obtain m3 c2 r2 where ask3: "ask pc pr buf (rsu_receives2 w) (rsu_answers2 w) (delay2 w) 3 ?sq junk (?rq 2) (c1, r1) =
          Inr ([(False, m3)], (c2, r2))" by metis
    have "await_reply 1 ?sq [(True, m1)] = Got ?a1 m1"
      using await_answer [of 1 ?sq "[]" m1 ?a1 "[]"] ask1(2) by simp
    moreover have "await_reply 3 ?sq [(False, m3)] = Timed_Out" by simp
    ultimately have "sync_over_network pc pr buf mac w junk tc st (c, r) =
        Inr (\<lparr>sr_sent = [?rq 0, ?rq 2], sr_clock = None, sr_returned = True, sr_client = next_seq tc,
          sr_stats = st\<lparr>ptp_sync_timeout := ptp_sync_timeout st + 1\<rparr>\<rparr>, (c2, r2))"
      using ask1(1) ask3 by (simp add: sync_over_network_def sync_time_def Let_def del: await_reply.simps)
    then show ?thesis by (rule that) simp_all
  next
    case False
    then have "receive_timeout \<le> delay1 w" by simp
    from ask_late [OF assms(1,2) rq a(1) assms(3) this]
    obtain m1 c1 r1 where "ask pc pr buf (rsu_receives1 w) (rsu_answers1 w) (delay1 w) 1 ?sq junk (?rq 0) (c, r) =
          Inr ([(False, m1)], (c1, r1))" by metis
    moreover have "await_reply 1 ?sq [(False, m1)] = Timed_Out" by simp
    ultimately have "sync_over_network pc pr buf mac w junk tc st (c, r) =
        Inr (\<lparr>sr_sent = [?rq 0], sr_clock = None, sr_returned = True, sr_client = next_seq tc,
          sr_stats = st\<lparr>ptp_sync_timeout := ptp_sync_timeout st + 1\<rparr>\<rparr>, (c1, r1))"
      by (simp add: sync_over_network_def sync_time_def Let_def del: await_reply.simps)
    then show ?thesis by (rule that) simp_all
  }
qed

text \<open>
  C8 (finding): a time client and an RSU of one quadrant, connected by the network, run a synchronisation
  through their complete stacks: both requests reach the RSU, both answers the client. If each answer
  arrives within the 100 ms of \<open>receive\<close>, the client applies the whole offset - the comments
  beside it (\<open>PLL simples, aplica apenas fracao do erro\<close>, \<open>nao e' aplicado integralmente
  pois e' instavel\<close>) say the opposite - and the time it sets is the RSU's up to half the
  difference of the two delays; the client needs a free buffer for that and the RSU two, and afterwards
  both are ready for any number of further messages. If one is late, the timeout is counted and the
  clock is not touched.
\<close>

theorem sync_over_network_sets_clock:
  assumes "client_ready 0 pc q c" and "rsu_ready 1 pr q r" and "length buf = frame_size"
    and "ns_of (client_t2 w) = ns_of (rsu_answers1 w) + d1 + theta"
    and "ns_of (rsu_receives2 w) = ns_of (client_t3 w) - theta + d2"
    and "\<forall>t\<in>{rsu_answers1 w, client_t2 w, client_t3 w, rsu_receives2 w, client_now w}. time_ok (ns_of t)"
  shows "\<exists>res c' r'. sync_over_network pc pr buf mac w junk tc st (c, r) = Inr (res, (c', r')) \<and>
    sr_returned res \<and>
    (if delay1 w < receive_timeout \<and> delay2 w < receive_timeout
     then \<exists>ts. sr_clock res = Some ts \<and>
       \<bar>ns_of ts - (ns_of (client_now w) - theta)\<bar> \<le> (\<bar>d1 - d2\<bar> + 1) div 2 \<and>
       ptp_sync_ok (sr_stats res) = ptp_sync_ok st + 1 \<and> (\<forall>k. client_ready k pc q c' \<and> rsu_ready k pr q r')
     else sr_clock res = None \<and> sr_stats res = st\<lparr>ptp_sync_timeout := ptp_sync_timeout st + 1\<rparr>)"
proof (cases "delay1 w < receive_timeout \<and> delay2 w < receive_timeout")
  have r: "rsu_ready (Suc 0) pr q r" using assms(2) by simp
  {
    case True
    then have t: "delay1 w < receive_timeout" "delay2 w < receive_timeout" by simp_all
    obtain res c' r' ts off where "sync_over_network pc pr buf mac w junk tc st (c, r) = Inr (res, (c', r'))"
      "sr_returned res" "sr_clock res = Some ts"
      "\<bar>ns_of ts - (ns_of (client_now w) - theta)\<bar> \<le> (\<bar>d1 - d2\<bar> + 1) div 2"
      "sr_stats res = st\<lparr>last_offset_ns := off, ptp_sync_ok := ptp_sync_ok st + 1\<rparr>"
      "\<forall>j. client_ready j pc q c'" "\<forall>j. rsu_ready j pr q r'"
      by (rule network_sync [OF assms(1) r assms(3-6) t, of mac junk tc st])
    with t show ?thesis by (intro exI [of _ res] exI [of _ c'] exI [of _ r']) simp
  next
    case False
    obtain res c' r' where "sync_over_network pc pr buf mac w junk tc st (c, r) = Inr (res, (c', r'))"
      "sr_returned res" "sr_clock res = None" "sr_stats res = st\<lparr>ptp_sync_timeout := ptp_sync_timeout st + 1\<rparr>"
      by (rule network_timeout [OF assms(1) r assms(3) False, of mac junk tc st])
    with False show ?thesis by (intro exI [of _ res] exI [of _ c'] exI [of _ r']) auto
  }
qed

text \<open>A vehicle in quadrant 2 and the RSU there; the vehicle's clock is 7 s ahead, messages take 1 ms.\<close>

lemma vehicle_client_fields:
  "p_nics (time_client_boot a b) = [0, 1]" "p_quadrant (time_client_boot a b) = 255"
  "nics (time_client_boot a b) = [\<lparr>n_address = a, pool = zero_pool, n_observers = [(PROTO, ())]\<rparr>,
     \<lparr>n_address = b, pool = zero_pool, n_observers = [(PROTO, ())]\<rparr>]"
  "comms (time_client_boot a b) = [\<lparr>c_address = \<lparr>paddr = a, port = PORT_TIME_CLIENT\<rparr>,
     c_subscribers = [(PORT_TIME_CLIENT, 0)]\<rparr>]"
  "consumers (time_client_boot a b) = [co_new PORT_TIME_CLIENT]"
  "p_observers (time_client_boot a b) = [(PORT_TIME_CLIENT, 0)]"
  by (simp_all add: time_client_boot_def endpoint_create_def comm_subscribe_def comm_create_def
      proto_attach_def proto_new_def proto_attach_nic_def process_def new_nic_def attach_def zero_pool_def)

lemma client_boot_ready:
  assumes "length a = 6" and "length b = 6" and "k < 128"
  shows "client_ready k pos pos (time_client_boot a b)"
proof -
  have "node_ok (time_client_boot a b)" using two_nic_boot_ok [OF assms(1,2)] by (simp add: time_client_boot_def)
  then show ?thesis
    using assms(3)
    by (simp add: client_ready_def) (simp add: vehicle_client_fields free_slots_zero_pool lasts_def mailbox_def contents_def routing_def co_new_def
      my_quadrant_def get_quadrant_def)
qed

lemma rsu_boot_ready:
  assumes "length a = 6" and "k < 128"
  shows "rsu_ready k pos (q AND 0x3) (rsu_boot a q)"
proof -
  have "q AND 0x3 \<noteq> 255" using and_mask_less' [of 2 q] by (auto simp: mask_eq_exp_minus_1)
  moreover have "node_ok (rsu_boot a q)" unfolding rsu_boot_def by (intro set_quadrant_ok boot_ok assms(1))
  ultimately show ?thesis
    using assms(2)
    by (simp add: rsu_ready_def rsu_boot_def set_quadrant_def boot_fields free_slots_zero_pool lasts_def mailbox_def
        contents_def routing_def co_new_def my_quadrant_def get_quadrant_def PORT_RSU_def PORT_GATEWAY_def)
qed

theorem sync_over_network_sets_clock_witness:
  "\<exists>res nodes ts. sync_over_network 2 0 (replicate frame_size 0) some_vehicle
      \<lparr>rsu_receives1 = (1000, 0), rsu_answers1 = (1000, 0), client_t2 = (1007, 1000000),
       client_t3 = (1007, 2000000), rsu_receives2 = (1000, 3000000), rsu_answers2 = (1000, 3000000),
       client_now = (1007, 5000000), delay1 = 2000000, delay2 = 2000000\<rparr> blank_message (tc_new some_vehicle) stats_zero
      (time_client_boot some_vehicle some_vehicle, rsu_boot some_mac 6) = Inr (res, nodes) \<and>
    sr_clock res = Some ts \<and> ns_of ts = ns_of (1000, 5000000)"
proof -
  let ?w = "\<lparr>rsu_receives1 = (1000, 0), rsu_answers1 = (1000, 0), client_t2 = (1007, 1000000),
       client_t3 = (1007, 2000000), rsu_receives2 = (1000, 3000000), rsu_answers2 = (1000, 3000000),
       client_now = (1007, 5000000), delay1 = 2000000, delay2 = 2000000\<rparr>"
  have r: "rsu_ready 1 0 2 (rsu_boot some_mac 6)"
    using rsu_boot_ready [of some_mac 1 0 6] by (simp add: some_mac_def)
  have c: "client_ready 0 2 2 (time_client_boot some_vehicle some_vehicle)"
    by (rule client_boot_ready) (simp_all add: some_vehicle_def)
  have "\<exists>res c' r'. sync_over_network 2 0 (replicate frame_size 0) some_vehicle ?w blank_message
      (tc_new some_vehicle) stats_zero (time_client_boot some_vehicle some_vehicle, rsu_boot some_mac 6) =
        Inr (res, (c', r')) \<and> sr_returned res \<and>
      (if delay1 ?w < receive_timeout \<and> delay2 ?w < receive_timeout
       then \<exists>ts. sr_clock res = Some ts \<and>
         \<bar>ns_of ts - (ns_of (client_now ?w) - 7000000000)\<bar> \<le> (\<bar>1000000 - 1000000\<bar> + 1) div 2 \<and>
         ptp_sync_ok (sr_stats res) = ptp_sync_ok stats_zero + 1 \<and> (\<forall>k. client_ready k 2 2 c' \<and> rsu_ready k 0 2 r')
       else sr_clock res = None \<and> sr_stats res = stats_zero\<lparr>ptp_sync_timeout := ptp_sync_timeout stats_zero + 1\<rparr>)"
    by (rule sync_over_network_sets_clock) (use r c in \<open>simp_all add: ns_of_def time_ok_def\<close>)
  then show ?thesis by (auto simp: ns_of_def receive_timeout_def)
qed

end
