(* ===== verification/Ptp_Rounds.thy ===== *)
theory Ptp_Rounds
  imports Ptp_Exchange
begin

text \<open>
  \<open>TimeClient::run\<close> over the network, any number of turns (\<open>time_client.hpp\<close>): each turn is a
  synchronisation through the stacks of client and RSU; the clock it sets is the clock the next one
  reads.
\<close>

section \<open>The loop over the network\<close>

definition net_turn :: "byte \<Rightarrow> byte \<Rightarrow> frame \<Rightarrow> mac \<Rightarrow> message \<Rightarrow> readings \<Rightarrow> tc_loop \<Rightarrow> node \<times> node
    \<Rightarrow> runtime_error + tc_loop option \<times> timespec option \<times> node \<times> node" where
  "net_turn pos_c pos_r buf mac junk w l nodes =
     and_then (count_quadrant pos_c (l_stats l)) (\<lambda>st.
     and_then (sync_over_network pos_c pos_r buf mac w junk (l_client l) st nodes) (\<lambda>(r, nodes').
     and_then (tc_adapt l r) (\<lambda>l'. Inr (l', sr_clock r, nodes'))))"

text \<open>
  A turn in the RSU's time, in nanoseconds: when it gets and answers the requests, when the client calls
  \<open>receive\<close> after each, sends the second one and sets its clock, the two delays that are measured,
  when the second answer arrives, whether \<open>clock_settime\<close> succeeds, and how far the clocks drift
  apart until the next turn (with the time between reading and setting the clock). \<open>theta\<close> is
  how far the client's clock is ahead.
\<close>

record world_round =
  wr_asked :: int
  wr_answered :: int
  wr_d1 :: int
  wr_t3 :: int
  wr_d2 :: int
  wr_answered2 :: int
  wr_set :: int
  wr_receive1 :: int
  wr_receive2 :: int
  wr_arrives2 :: int
  wr_settable :: bool
  wr_drift :: int

definition readings_of :: "int \<Rightarrow> world_round \<Rightarrow> readings" where
  "readings_of theta w =
     \<lparr>rsu_receives1 = to_timespec (wr_asked w), rsu_answers1 = to_timespec (wr_answered w),
      client_t2 = to_timespec (wr_answered w + wr_d1 w + theta), client_t3 = to_timespec (wr_t3 w + theta),
      rsu_receives2 = to_timespec (wr_t3 w + wr_d2 w), rsu_answers2 = to_timespec (wr_answered2 w),
      client_now = to_timespec (wr_set w + theta), delay1 = wr_answered w + wr_d1 w - wr_receive1 w,
      delay2 = wr_arrives2 w - wr_receive2 w\<rparr>"

text \<open>
  Turns one after another. The result is how far the client's clock is ahead in the end;
  \<open>None\<close> while a \<open>syncTime\<close> still waits.
\<close>

fun net_run :: "byte \<Rightarrow> byte \<Rightarrow> frame \<Rightarrow> mac \<Rightarrow> message \<Rightarrow> world_round list \<Rightarrow> int \<Rightarrow> tc_loop \<Rightarrow> node \<times> node
    \<Rightarrow> runtime_error + (int \<times> tc_loop \<times> node \<times> node) option" where
  "net_run pos_c pos_r buf mac junk [] theta l nodes = Inr (Some (theta, l, nodes))"
| "net_run pos_c pos_r buf mac junk (w # ws) theta l nodes =
     and_then (net_turn pos_c pos_r buf mac junk (readings_of theta w) l nodes) (\<lambda>(l', clock, nodes').
       case l' of None \<Rightarrow> Inr None
       | Some l' \<Rightarrow>
           let theta' = (case clock of None \<Rightarrow> theta
             | Some ts \<Rightarrow> if wr_settable w then ns_of ts - wr_set w else theta)
           in net_run pos_c pos_r buf mac junk ws (theta' + wr_drift w) l' nodes')"

section \<open>One turn\<close>

text \<open>All times of a turn are in range, on both clocks, as long as these differ by at most \<open>m\<close>.\<close>

definition round_ok :: "int \<Rightarrow> world_round \<Rightarrow> bool" where
  "round_ok m w \<longleftrightarrow> (\<forall>t\<in>{wr_answered w, wr_answered w + wr_d1 w, wr_t3 w, wr_t3 w + wr_d2 w, wr_set w}.
     m \<le> t \<and> t + m < 2 ^ 61)"

text \<open>Both answers arrive within the 100 ms of the client's \<open>receive\<close>, and the clock can be set.\<close>

definition on_time :: "world_round \<Rightarrow> bool" where
  "on_time w \<longleftrightarrow> wr_answered w + wr_d1 w < wr_receive1 w + receive_timeout \<and>
     wr_arrives2 w < wr_receive2 w + receive_timeout \<and> wr_settable w"

lemma count_quadrant_succeeds:
  assumes "unat q < 4" and "length (quadrant_count st) = 4"
  obtains st' where "count_quadrant q st = Inr st'" and "length (quadrant_count st') = 4"
    and "ptp_sync_ok st' = ptp_sync_ok st" and "ptp_sync_timeout st' = ptp_sync_timeout st"
    and "last_offset_ns st' = last_offset_ns st"
proof -
  have "\<exists>st'. count_quadrant q st = Inr st'" using assms by (simp add: count_quadrant_def Let_def)
  then obtain st' where "count_quadrant q st = Inr st'" by blast
  with that [OF this] count_quadrant_Inr [OF this] assms(2) show ?thesis by simp
qed

definition client_loop_ok :: "tc_loop \<Rightarrow> bool" where
  "client_loop_ok l \<longleftrightarrow> length (quadrant_count (l_stats l)) = 4 \<and> \<bar>l_last_offset l\<bar> < 2 ^ 62"

lemma net_turn_synchronises:
  assumes "client_ready k pc q c" and "rsu_ready (Suc i) pr q r" and "length buf = frame_size" and "unat pc < 4"
    and "client_loop_ok l" and "round_ok m w" and "\<bar>theta\<bar> \<le> m" and "on_time w"
  obtains l' ts c' r' where "net_turn pc pr buf mac junk (readings_of theta w) l (c, r) = Inr (Some l', Some ts, c', r')"
    and "\<bar>ns_of ts - wr_set w\<bar> \<le> (\<bar>wr_d1 w - wr_d2 w\<bar> + 1) div 2"
    and "ptp_sync_ok (l_stats l') = ptp_sync_ok (l_stats l) + 1"
    and "ptp_sync_timeout (l_stats l') = ptp_sync_timeout (l_stats l)" and "l_client l' = next_seq (l_client l)"
    and "client_loop_ok l'" and "\<forall>j. client_ready j pc q c'" and "\<forall>j. rsu_ready j pr q r'"
proof -
  let ?w = "readings_of theta w"
  have qc: "length (quadrant_count (l_stats l)) = 4" using assms(5) by (simp add: client_loop_ok_def)
  obtain st where st: "count_quadrant pc (l_stats l) = Inr st" "length (quadrant_count st) = 4"
      "ptp_sync_ok st = ptp_sync_ok (l_stats l)" "ptp_sync_timeout st = ptp_sync_timeout (l_stats l)"
    by (rule count_quadrant_succeeds [OF assms(4) qc])
  have rd: "ns_of (client_t2 ?w) = ns_of (rsu_answers1 ?w) + wr_d1 w + theta"
    "ns_of (rsu_receives2 ?w) = ns_of (client_t3 ?w) - theta + wr_d2 w"
    by (simp_all add: readings_of_def ns_of_to_timespec)
  have now: "ns_of (client_now ?w) - theta = wr_set w" by (simp add: readings_of_def ns_of_to_timespec)
  have times: "\<forall>t\<in>{rsu_answers1 ?w, client_t2 ?w, client_t3 ?w, rsu_receives2 ?w, client_now ?w}. time_ok (ns_of t)"
    using assms(6,7) by (auto simp: readings_of_def ns_of_to_timespec time_ok_def round_ok_def abs_le_iff)
  have del: "delay1 ?w < receive_timeout" "delay2 ?w < receive_timeout"
    using assms(8) by (simp_all add: readings_of_def on_time_def)
  obtain res c' r' ts off where n: "sync_over_network pc pr buf mac ?w junk (l_client l) st (c, r) = Inr (res, (c', r'))"
      "sr_returned res" "sr_clock res = Some ts"
      "\<bar>ns_of ts - (ns_of (client_now ?w) - theta)\<bar> \<le> (\<bar>wr_d1 w - wr_d2 w\<bar> + 1) div 2"
      "sr_stats res = st\<lparr>last_offset_ns := off, ptp_sync_ok := ptp_sync_ok st + 1\<rparr>" "\<bar>off\<bar> < 2 ^ 62"
      "sr_client res = next_seq (l_client l)" "\<forall>j. client_ready j pc q c'" "\<forall>j. rsu_ready j pr q r'"
    by (rule network_sync [OF assms(1-3) rd times del, of mac junk "l_client l" st])
  have "\<bar>off - l_last_offset l\<bar> < 2 ^ 63" using n(6) assms(5) by (simp add: client_loop_ok_def abs_less_iff)
  then have "tc_adapt l res = Inr (Some \<lparr>l_last_offset = off, l_interval = next_interval \<bar>off - l_last_offset l\<bar> (l_interval l),
      l_client = next_seq (l_client l), l_stats = sr_stats res\<rparr>)"
    using n(2,5,7) by (simp add: tc_adapt_def chk_ok)
  with st(1) n(1,3) have "net_turn pc pr buf mac junk ?w l (c, r) = Inr (Some \<lparr>l_last_offset = off,
      l_interval = next_interval \<bar>off - l_last_offset l\<bar> (l_interval l),
      l_client = next_seq (l_client l), l_stats = sr_stats res\<rparr>, Some ts, c', r')"
    by (simp add: net_turn_def)
  then show ?thesis
    by (rule that) (use n(4,5,6,8,9) st(2-4) now in \<open>simp_all add: client_loop_ok_def\<close>)
qed

section \<open>Any number of turns\<close>

lemma net_run_synchronised:
  assumes "client_ready k pc q c" and "rsu_ready (Suc i) pr q r" and "length buf = frame_size" and "unat pc < 4"
    and "client_loop_ok l" and "\<forall>w\<in>set ws. round_ok m w \<and> on_time w \<and> \<bar>wr_d1 w - wr_d2 w\<bar> \<le> D \<and> \<bar>wr_drift w\<bar> \<le> R"
    and "\<bar>theta\<bar> \<le> m" and "(D + 1) div 2 + R \<le> m"
  shows "\<exists>theta' l' c' r'. net_run pc pr buf mac junk ws theta l (c, r) = Inr (Some (theta', l', c', r')) \<and>
    (ws \<noteq> [] \<longrightarrow> \<bar>theta'\<bar> \<le> (D + 1) div 2 + R) \<and>
    ptp_sync_ok (l_stats l') = ptp_sync_ok (l_stats l) + int (length ws) \<and>
    ptp_sync_timeout (l_stats l') = ptp_sync_timeout (l_stats l) \<and> l_client l' = (next_seq ^^ length ws) (l_client l) \<and>
    (ws \<noteq> [] \<longrightarrow> (\<forall>j. client_ready j pc q c' \<and> rsu_ready j pr q r'))"
  using assms(1,2,5-7)
proof (induction ws arbitrary: theta l c r k i)
  case Nil
  then show ?case by simp
next
  case (Cons w ws)
  have w: "round_ok m w" "on_time w" "\<bar>wr_d1 w - wr_d2 w\<bar> \<le> D" "\<bar>wr_drift w\<bar> \<le> R" using Cons.prems(4) by simp_all
  obtain l1 ts c1 r1 where t: "net_turn pc pr buf mac junk (readings_of theta w) l (c, r) = Inr (Some l1, Some ts, c1, r1)"
      "\<bar>ns_of ts - wr_set w\<bar> \<le> (\<bar>wr_d1 w - wr_d2 w\<bar> + 1) div 2"
      "ptp_sync_ok (l_stats l1) = ptp_sync_ok (l_stats l) + 1"
      "ptp_sync_timeout (l_stats l1) = ptp_sync_timeout (l_stats l)" "l_client l1 = next_seq (l_client l)"
      "client_loop_ok l1" "\<forall>j. client_ready j pc q c1" "\<forall>j. rsu_ready j pr q r1"
    by (rule net_turn_synchronises [OF Cons.prems(1,2) assms(3,4) Cons.prems(3) w(1) Cons.prems(5) w(2)])
  let ?th = "ns_of ts - wr_set w + wr_drift w"
  have "(\<bar>wr_d1 w - wr_d2 w\<bar> + 1) div 2 \<le> (D + 1) div 2" using w(3) by (intro zdiv_mono1) simp_all
  then have th: "\<bar>?th\<bar> \<le> (D + 1) div 2 + R" using t(2) w(4) abs_triangle_ineq [of "ns_of ts - wr_set w" "wr_drift w"] by simp
  then have le: "\<bar>?th\<bar> \<le> m" using assms(8) by simp
  have "\<forall>w\<in>set ws. round_ok m w \<and> on_time w \<and> \<bar>wr_d1 w - wr_d2 w\<bar> \<le> D \<and> \<bar>wr_drift w\<bar> \<le> R" using Cons.prems(4) by simp
  from Cons.IH [OF spec [OF t(7)] spec [OF t(8)] t(6) this le]
  obtain theta' l' c' r' where u: "net_run pc pr buf mac junk ws ?th l1 (c1, r1) = Inr (Some (theta', l', c', r'))"
      "ws \<noteq> [] \<longrightarrow> \<bar>theta'\<bar> \<le> (D + 1) div 2 + R"
      "ptp_sync_ok (l_stats l') = ptp_sync_ok (l_stats l1) + int (length ws)"
      "ptp_sync_timeout (l_stats l') = ptp_sync_timeout (l_stats l1)" "l_client l' = (next_seq ^^ length ws) (l_client l1)"
      "ws \<noteq> [] \<longrightarrow> (\<forall>j. client_ready j pc q c' \<and> rsu_ready j pr q r')"
    by (elim exE conjE) (rule that)
  have e: "ws = [] \<Longrightarrow> theta' = ?th \<and> c' = c1 \<and> r' = r1" using u(1) by auto
  have "net_run pc pr buf mac junk (w # ws) theta l (c, r) = Inr (Some (theta', l', c', r'))"
    using t(1) u(1) w(2) by (simp add: Let_def on_time_def)
  then show ?case
    using u(2-6) t(3-5,7,8) th e by (intro exI [of _ theta'] exI [of _ l'] exI [of _ c'] exI [of _ r'])
      (auto simp: funpow_swap1)
qed

text \<open>
  C7: any number of turns of \<open>TimeClient::run\<close>, through the complete stacks of client and RSU, in
  each of which both answers arrive within the 100 ms of \<open>receive\<close> and \<open>clock_settime\<close>
  succeeds (one late answer: C8): every turn completes, none times out or faults, the sequence number
  advances once a turn, and after the first turn the vehicle's clock is never further from the RSU's
  than half the difference of the delays and the drift of a turn, however far it was ahead or behind
  at the start: the whole offset is applied in each turn, contrary to the comment beside it. Neither
  side ever runs out of buffers.
\<close>

theorem clock_stays_synchronised:
  assumes "client_ready 0 pc q c" and "rsu_ready 1 pr q r" and "length buf = frame_size" and "unat pc < 4"
    and "\<forall>w\<in>set ws. round_ok m w \<and> on_time w \<and> \<bar>wr_d1 w - wr_d2 w\<bar> \<le> D \<and> \<bar>wr_drift w\<bar> \<le> R"
    and "\<bar>theta\<bar> \<le> m" and "(D + 1) div 2 + R \<le> m"
  shows "\<exists>theta' l c' r'. net_run pc pr buf mac junk ws theta (tc_loop_start mac) (c, r) = Inr (Some (theta', l, c', r')) \<and>
    (ws \<noteq> [] \<longrightarrow> \<bar>theta'\<bar> \<le> (D + 1) div 2 + R \<and> (\<forall>k. client_ready k pc q c' \<and> rsu_ready k pr q r')) \<and>
    ptp_sync_ok (l_stats l) = int (length ws) \<and> ptp_sync_timeout (l_stats l) = 0 \<and>
    l_client l = (next_seq ^^ length ws) (tc_new mac)"
proof -
  have r: "rsu_ready (Suc 0) pr q r" using assms(2) by simp
  have "client_loop_ok (tc_loop_start mac)" by (simp add: client_loop_ok_def tc_loop_start_def stats_zero_def)
  from net_run_synchronised [OF assms(1) r assms(3,4) this assms(5-7), of mac junk]
  obtain theta' l c' r' where u: "net_run pc pr buf mac junk ws theta (tc_loop_start mac) (c, r) = Inr (Some (theta', l, c', r'))"
      "ws \<noteq> [] \<longrightarrow> \<bar>theta'\<bar> \<le> (D + 1) div 2 + R"
      "ptp_sync_ok (l_stats l) = ptp_sync_ok (l_stats (tc_loop_start mac)) + int (length ws)"
      "ptp_sync_timeout (l_stats l) = ptp_sync_timeout (l_stats (tc_loop_start mac))"
      "l_client l = (next_seq ^^ length ws) (l_client (tc_loop_start mac))"
      "ws \<noteq> [] \<longrightarrow> (\<forall>j. client_ready j pc q c' \<and> rsu_ready j pr q r')"
    by (elim exE conjE) (rule that)
  then show ?thesis
    by (intro exI [of _ theta'] exI [of _ l] exI [of _ c'] exI [of _ r']) (simp add: tc_loop_start_def stats_zero_def)
qed

text \<open>A vehicle in quadrant 2 that is 7 s ahead; three turns with delays of 3 ms and 1 ms, drifting by 5 us.\<close>

definition some_round :: "int \<Rightarrow> world_round" where
  "some_round t = \<lparr>wr_asked = t, wr_answered = t, wr_d1 = 3000000, wr_t3 = t + 4000000, wr_d2 = 1000000,
     wr_answered2 = t + 5000000, wr_set = t + 8000000, wr_receive1 = t - 1000000, wr_receive2 = t + 4000000,
     wr_arrives2 = t + 7000000, wr_settable = True, wr_drift = 5000\<rparr>"

theorem clock_stays_synchronised_witness:
  "\<exists>theta' l nodes. net_run 2 0 (replicate frame_size 0) some_vehicle blank_message
      [some_round 1000000000000, some_round 1001000000000, some_round 1002000000000] 7000000000
      (tc_loop_start some_vehicle) (time_client_boot some_vehicle some_vehicle, rsu_boot some_mac 6) =
        Inr (Some (theta', l, nodes)) \<and> \<bar>theta'\<bar> \<le> 1005000 \<and> ptp_sync_ok (l_stats l) = 3"
proof -
  let ?ws = "[some_round 1000000000000, some_round 1001000000000, some_round 1002000000000]"
  have r: "rsu_ready 1 0 2 (rsu_boot some_mac 6)"
    using rsu_boot_ready [of some_mac 1 0 6] by (simp add: some_mac_def)
  have c: "client_ready 0 2 2 (time_client_boot some_vehicle some_vehicle)"
    by (rule client_boot_ready) (simp_all add: some_vehicle_def)
  have ws: "\<forall>w\<in>set ?ws. round_ok 7000000000 w \<and> on_time w \<and> \<bar>wr_d1 w - wr_d2 w\<bar> \<le> 2000000 \<and> \<bar>wr_drift w\<bar> \<le> 5000"
    by (simp add: some_round_def round_ok_def on_time_def receive_timeout_def)
  show ?thesis
    using clock_stays_synchronised [OF c r _ _ ws, of "replicate frame_size 0" 7000000000 some_vehicle blank_message]
    by auto
qed

end
