(* ===== verification/Process_Exit.thy ===== *)
theory Process_Exit
  imports Vehicle Letters Rsu
begin

text \<open>
  How the gateway's process ends: its destructor with those of the members, which run in reverse order
  of declaration. A NIC whose object is gone is in the list \<open>dead\<close>; the destructor of
  \<open>Protocol\<close> detaches from every NIC it still knows. (\<open>Child_Exit\<close> has the other processes,
  with the threads that still run meanwhile.)
\<close>

section \<open>Destructors\<close>

text \<open>\<open>~ConcurrentObserver\<close> deletes the messages that were not taken.\<close>

definition observer_destroy :: "nat \<Rightarrow> node \<Rightarrow> runtime_error + node" where
  "observer_destroy k s =
     and_then (delete_all (co_drain (queue (consumers s ! k))) s) (\<lambda>t.
       Inr (t\<lparr>consumers := (consumers t)[k := (consumers t ! k)\<lparr>sem := 0, queue := []\<rparr>]\<rparr>))"

definition proto_exit :: "nat list \<Rightarrow> node \<Rightarrow> runtime_error + node" where
  "proto_exit dead s =
     (if list_ex (\<lambda>n. n \<in> set dead) (p_nics s) then Inl Use_After_Free else Inr (proto_destroy s))"

text \<open>
  A SmartData's communicator and its entry as consumer have the same number. \<open>stop\<close> joins the
  thread and unsubscribes; destruction takes the communicator out of the protocol and then the
  observer's queue.
\<close>

definition sds_stop :: "nat list \<Rightarrow> node \<Rightarrow> node" where
  "sds_stop cs s = fold (\<lambda>c. comm_unsubscribe c c) cs s"

fun sds_destroy :: "nat list \<Rightarrow> node \<Rightarrow> runtime_error + node" where
  "sds_destroy [] s = Inr s"
| "sds_destroy (c # cs) s = and_then (observer_destroy c (comm_destroy c s)) (sds_destroy cs)"

definition endpoint_exit :: "nat list \<Rightarrow> node \<Rightarrow> runtime_error + node" where
  "endpoint_exit dead s = and_then (endpoint_destroy 0 0 s) (\<lambda>t. proto_exit dead (comm_destroy 0 t))"

definition gateway_stop_smart_datas :: "nat \<Rightarrow> node \<Rightarrow> node" where
  "gateway_stop_smart_datas n s = sds_stop [1..<Suc n] s"

text \<open>\<open>shm_nic\<close> is declared after \<open>protocol\<close>, so it goes before it.\<close>

definition gateway_exit :: "nat \<Rightarrow> node \<Rightarrow> runtime_error + node" where
  "gateway_exit n s = and_then (sds_destroy [1..<Suc n] (gateway_stop_smart_datas n s)) (endpoint_exit [1])"

section \<open>What the operations of a running process leave as it was\<close>

definition same_wiring :: "node \<Rightarrow> node \<Rightarrow> bool" where
  "same_wiring s t \<longleftrightarrow> comms t = comms s \<and> p_observers t = p_observers s \<and> p_nics t = p_nics s \<and>
     length (consumers t) = length (consumers s) \<and> length (nics t) = length (nics s)"

lemma same_layout_wiring: "same_layout s t \<Longrightarrow> same_wiring s t"
  by (simp add: same_layout_def same_wiring_def)

lemma proto_send_wiring:
  assumes "node_ok s" and "length (paddr dst) = 6" and "message_ok m"
    and "proto_send pos src dst (m_data m) (m_size m) s = Inr (r, t)"
  shows "same_wiring s t"
proof -
  have "\<forall>n\<in>set (p_nics s). n < length (nics s)" using assms(1) by (simp add: node_ok_def wired_def)
  moreover have "m_size m \<le> length (m_data m)" "m_size m \<le> PROTOCOL_MTU"
    using assms(3) by (simp_all add: message_ok_def MAX_SIZE_def PROTOCOL_MTU_def MTU_def header_size_def)
  ultimately obtain u where "send_nics pos src dst (m_data m) (m_size m) (p_nics s) s = Inr u" "same_layout s u"
    using send_nics_spec [OF assms(1) _ assms(2), of "p_nics s" "m_size m" "m_data m" pos src] by auto
  with assms(4) show ?thesis by (auto simp: proto_send_def intro: same_layout_wiring)
qed

lemma receive_wiring:
  assumes "node_ok s" and "k < length (consumers s)" and "endpoint_receive k out s = Inr (b, m, t)"
  shows "same_wiring s t"
  using receive_keeps [OF assms(3)] arg_cong [OF receive_mail(1) [OF assms], of "\<lambda>b. length (boxes b)"]
  by (simp add: same_wiring_def mail_of_def mail_take_def)

lemma exec_wiring:
  assumes "node_ok s" and "op_ok oper s" and "steady oper" and "stack_exec oper s = Inr t"
  shows "same_wiring s t"
proof (cases oper)
  case (Handle pos n raw len)
  with assms show ?thesis
    by (auto elim!: nic_handle_ok [of s n len raw pos] intro: same_layout_wiring)
next
  case (Receive k out)
  with assms show ?thesis by (auto simp: and_then_Inr_iff intro: receive_wiring)
next
  case (Send pos c m)
  with assms proto_send_wiring [OF assms(1), of "\<lparr>paddr = BROADCAST, port = port (c_address (comms s ! c))\<rparr>" m pos]
  show ?thesis by (auto simp: comm_send_def Let_def and_then_Inr_iff)
next
  case (Send_To pos c m dst)
  with assms proto_send_wiring [OF assms(1), of "\<lparr>paddr = dst, port = 0\<rparr>" m pos] show ?thesis
    by (auto simp: comm_send_to_def Let_def and_then_Inr_iff)
next
  case (Share pos c m p)
  with assms proto_send_wiring [OF assms(1), of "\<lparr>paddr = paddr (c_address (comms s ! c)), port = p\<rparr>" m pos]
    comm_address_ok [OF assms(1), of c]
  show ?thesis by (auto simp: comm_share_def Let_def and_then_Inr_iff)
qed (use assms(3,4) in \<open>auto simp: set_quadrant_def same_wiring_def\<close>)

lemma run_wiring:
  "node_ok s \<Longrightarrow> run_ok ops s \<Longrightarrow> list_all steady ops \<Longrightarrow> stack_run ops s = Inr t \<Longrightarrow> node_ok t \<and> same_wiring s t"
proof (induction ops arbitrary: s)
  case Nil
  then show ?case by (simp add: same_wiring_def)
next
  case (Cons oper ops)
  obtain u where u: "stack_exec oper s = Inr u" "node_ok u"
    using stack_exec_ok [OF Cons.prems(1), of oper] Cons.prems(2) by auto
  have "same_wiring s u" by (rule exec_wiring [OF Cons.prems(1) _ _ u(1)]) (use Cons.prems in auto)
  moreover have "node_ok t \<and> same_wiring u t" by (rule Cons.IH [OF u(2)]) (use Cons.prems u(1) in auto)
  ultimately show ?case by (simp add: same_wiring_def)
qed

section \<open>Nothing is left\<close>

definition gone_up_to :: "nat set \<Rightarrow> node \<Rightarrow> bool" where
  "gone_up_to K s \<longleftrightarrow> (\<forall>k\<in>K. queue (consumers s ! k) = []) \<and> (\<forall>(p, c)\<in>set (p_observers s). c \<notin> K)"

lemma observer_destroy_ok:
  assumes "node_ok s" and "k < length (consumers s)"
  obtains t where "observer_destroy k s = Inr t" and "node_ok t" and "same_wiring s t"
    and "queue (consumers t ! k) = []" and "\<And>j. j \<noteq> k \<Longrightarrow> consumers t ! j = consumers s ! j"
    and "nics t = nics s"
proof -
  have h: "heap_ok s" "wired s" using assms(1) by (simp_all add: node_ok_def)
  note cl = heap_ok_clear [OF h(1) assms(2)]
  let ?t = "s\<lparr>heap := heap s |` (- set (queue (consumers s ! k))),
      consumers := (consumers s)[k := (consumers s ! k)\<lparr>sem := 0, queue := []\<rparr>]\<rparr>"
  have "observer_destroy k s = Inr ?t"
    using delete_all_eq [OF cl(2,3)] by (simp add: observer_destroy_def co_drain_all)
  moreover have "node_ok ?t" using cl(1) h(2) by (simp add: node_ok_def wired_def)
  ultimately show ?thesis using that [of ?t] assms(2) by (simp add: same_wiring_def)
qed

lemma comm_destroy_observers: "(p, d) \<in> set (p_observers (comm_destroy c s)) \<Longrightarrow> d \<noteq> c \<and> (p, d) \<in> set (p_observers s)"
  by (auto simp: comm_destroy_def proto_detach_def detach_def ol_remove_def)

lemma comm_destroy_keeps:
  "comms (comm_destroy c s) = comms s" "consumers (comm_destroy c s) = consumers s" "heap (comm_destroy c s) = heap s"
  "nics (comm_destroy c s) = nics s" "p_nics (comm_destroy c s) = p_nics s"
  by (simp_all add: comm_destroy_def proto_detach_def)

lemma all_gone:
  assumes "node_ok s" and "gone_up_to {..<length (comms s)} s" and "length (consumers s) = length (comms s)"
  shows "heap s = Map.empty" and "p_observers s = []"
proof -
  have "queue ob = []" if "ob \<in> set (consumers s)" for ob
    using that assms(2,3) by (auto simp: gone_up_to_def in_set_conv_nth)
  then have "queued s = []" by (simp add: queued_def)
  moreover have "set (queued s) = dom (heap s)" using assms(1) by (simp add: node_ok_def heap_ok_def)
  ultimately show "heap s = Map.empty" by (simp add: dom_eq_empty_conv [symmetric])
  have "x \<notin> set (p_observers s)" for x
    using assms(1,2) by (cases x) (fastforce simp: gone_up_to_def node_ok_def wired_def)
  then show "p_observers s = []" by (metis last_in_set)
qed

lemma proto_destroy_keeps:
  "heap (proto_destroy s) = heap s" "p_observers (proto_destroy s) = p_observers s" "p_nics (proto_destroy s) = []"
proof -
  have "heap (fold (\<lambda>n s. s\<lparr>nics := (nics s)[n := (nics s ! n)\<lparr>n_observers :=
        detach () PROTO (n_observers (nics s ! n))\<rparr>]\<rparr>) ns s) = heap s \<and>
      p_observers (fold (\<lambda>n s. s\<lparr>nics := (nics s)[n := (nics s ! n)\<lparr>n_observers :=
        detach () PROTO (n_observers (nics s ! n))\<rparr>]\<rparr>) ns s) = p_observers s" for ns
    by (induction ns arbitrary: s) simp_all
  then show "heap (proto_destroy s) = heap s" "p_observers (proto_destroy s) = p_observers s"
    "p_nics (proto_destroy s) = []" by (simp_all add: proto_destroy_def)
qed

lemma endpoint_exit_ok:
  assumes "node_ok s" and "length (comms s) = 1" and "length (consumers s) = 1"
  shows "if list_ex (\<lambda>n. n \<in> set dead) (p_nics s) then endpoint_exit dead s = Inl Use_After_Free
    else \<exists>t. endpoint_exit dead s = Inr t \<and> heap t = Map.empty \<and> p_observers t = [] \<and> p_nics t = []"
proof -
  let ?u = "comm_unsubscribe 0 0 s"
  have u: "node_ok ?u" "0 < length (consumers ?u)" "length (comms ?u) = 1" "length (consumers ?u) = 1"
      "p_nics ?u = p_nics s"
    using unsubscribe_ok [OF assms(1)] assms(2,3) by (simp_all add: comm_unsubscribe_def)
  have e: "endpoint_destroy 0 0 s = observer_destroy 0 ?u"
    by (simp add: endpoint_destroy_def observer_destroy_def Let_def)
  obtain v where v: "observer_destroy 0 ?u = Inr v" "node_ok v" "same_wiring ?u v" "queue (consumers v ! 0) = []"
    by (rule observer_destroy_ok [OF u(1,2)]) blast
  let ?w = "comm_destroy 0 v"
  have w: "node_ok ?w" by (rule comm_destroy_ok [OF v(2)])
  have one: "length (comms ?w) = 1" "length (consumers ?w) = 1"
    using v(3) u(3,4) by (simp_all add: same_wiring_def comm_destroy_keeps)
  have "gone_up_to {..<length (comms ?w)} ?w"
    using v(4) one comm_destroy_observers [of _ _ 0 v] by (auto simp: gone_up_to_def comm_destroy_keeps)
  from all_gone [OF w this] one have g: "heap ?w = Map.empty" "p_observers ?w = []" by simp_all
  have "p_nics ?w = p_nics s" using v(3) u(5) by (simp add: same_wiring_def comm_destroy_keeps)
  then show ?thesis using e v(1) g by (simp add: endpoint_exit_def proto_exit_def proto_destroy_keeps)
qed

text \<open>
  C35 (finding): the gateway is not so lucky: its shared-memory NIC is declared after the protocol, which
  is never told that it goes, so the destructor of \<open>Protocol\<close> always calls \<open>detach\<close> on a NIC that is
  already destroyed.
\<close>

theorem gateway_exit_faults:
  assumes "length mac = 6" and "run_ok ops (gateway_boot mac)" and "list_all steady ops"
    and "stack_run ops (gateway_boot mac) = Inr s"
  shows "gateway_exit 0 s = Inl Use_After_Free"
proof -
  let ?b = "gateway_boot mac"
  have ok: "node_ok ?b" using two_nic_boot_ok [OF assms(1,1)] by (simp add: gateway_boot_def)
  have f: "length (comms ?b) = 1" "length (consumers ?b) = 1" "p_nics ?b = [0, 1]"
    by (simp_all add: gateway_boot_def endpoint_create_def comm_subscribe_def comm_create_def
        proto_attach_def proto_new_def proto_attach_nic_def process_def)
  have s: "node_ok s" "same_wiring ?b s" using run_wiring [OF ok assms(2-4)] by simp_all
  from endpoint_exit_ok [OF s(1), of "[1]"] show ?thesis
    using s(2) f by (simp add: gateway_exit_def gateway_stop_smart_datas_def sds_stop_def same_wiring_def)
qed

theorem gateway_exit_faults_witness:
  "\<exists>s. stack_run [Set_Quadrant 1] (gateway_boot some_mac) = Inr s \<and> gateway_exit 0 s = Inl Use_After_Free"
proof -
  have "length some_mac = 6" by (simp add: some_mac_def)
  from gateway_exit_faults [OF this, of "[Set_Quadrant 1]"] show ?thesis by simp
qed

end
