(* ===== verification/Main_Programs.thy ===== *)
theory Main_Programs
  imports Process_Exit
begin

text \<open>
  The two programs (\<open>app/vehicle_main.cpp\<close>, \<open>app/rsu_main.cpp\<close>): their arguments, the
  forking, signalling and waiting of the vehicle's main process, and the messages
  of the gateway's normal mode.
\<close>

section \<open>Arguments\<close>

text \<open>\<open>std::stoi\<close>, with the two exceptions it throws.\<close>

datatype stoi_error = Invalid_Argument | Out_Of_Range

definition digits_value :: "string \<Rightarrow> nat" where
  "digits_value ds = foldl (\<lambda>v c. 10 * v + (of_char c - 48)) 0 ds"

definition stoi :: "string \<Rightarrow> stoi_error + int" where
  "stoi txt =
     (let t = dropWhile is_space txt;
          neg = (t \<noteq> [] \<and> hd t = CHR ''-'');
          ds = takeWhile is_digit (if t \<noteq> [] \<and> hd t \<in> {CHR ''-'', CHR ''+''} then tl t else t);
          v = (if neg then - int (digits_value ds) else int (digits_value ds))
      in if ds = [] then Inl Invalid_Argument
         else if - (2 ^ 31) \<le> v \<and> v < 2 ^ 31 then Inr v else Inl Out_Of_Range)"

text \<open>\<open>argv\<close> includes the program's name; the scenario is the value of \<open>TEST_SCENARIO\<close>.\<close>

record vehicle_args =
  va_iface :: string
  va_timeout :: int
  va_scenario :: string

definition argument :: "nat \<Rightarrow> string list \<Rightarrow> string option" where
  "argument i argv = (if i < length argv then Some (argv ! i) else None)"

definition vehicle_arguments :: "string list \<Rightarrow> string option \<Rightarrow> vehicle_args" where
  "vehicle_arguments argv env =
     \<lparr>va_iface = (case argument 1 argv of Some a \<Rightarrow> if a \<noteq> [] then a else ''eth0'' | None \<Rightarrow> ''eth0''),
      va_timeout = (case argument 2 argv of
          Some a \<Rightarrow> if a \<noteq> [] then (case stoi a of Inr n \<Rightarrow> n | Inl e \<Rightarrow> 30) else 30 | None \<Rightarrow> 30),
      va_scenario = (case env of Some e \<Rightarrow> e | None \<Rightarrow> ''default'')\<rparr>"

text \<open>
  The RSU's program does not catch the exceptions (the first ends it before its alarm is set), and
  takes the quadrant modulo 256.
\<close>

record rsu_args =
  ra_timeout :: int
  ra_iface :: string
  ra_quadrant :: byte

definition rsu_arguments :: "string list \<Rightarrow> stoi_error + rsu_args" where
  "rsu_arguments argv =
     (case (case argument 2 argv of Some a \<Rightarrow> stoi a | None \<Rightarrow> Inr 60) of Inl e \<Rightarrow> Inl e
      | Inr timeout \<Rightarrow>
        (case (case argument 3 argv of Some a \<Rightarrow> stoi a | None \<Rightarrow> Inr 0) of Inl e \<Rightarrow> Inl e
         | Inr q \<Rightarrow> Inr \<lparr>ra_timeout = timeout,
             ra_iface = (case argument 1 argv of Some a \<Rightarrow> a | None \<Rightarrow> ''eth0''),
             ra_quadrant = word_of_int q\<rparr>))"

text \<open>\<open>alarm\<close> takes an unsigned number of seconds, and 0 sets no alarm.\<close>

definition alarm_after :: "int \<Rightarrow> nat option" where
  "alarm_after timeout = (let n = unat (word_of_int timeout :: u32) in if n = 0 then None else Some n)"

definition rsu_process :: "mac \<Rightarrow> rsu_args \<Rightarrow> node" where
  "rsu_process mac a = rsu_boot mac (ra_quadrant a)"

subsection \<open>Numbers written in decimal\<close>

lemma takeWhile_digits:
  "list_all is_digit ds \<Longrightarrow> rest = [] \<or> \<not> is_digit (hd rest) \<Longrightarrow> takeWhile is_digit (ds @ rest) = ds"
  by (induction ds) (cases rest, auto)

lemma digit_not_sign: "is_digit c \<Longrightarrow> c \<noteq> CHR ''-'' \<and> c \<noteq> CHR ''+''"
  by (auto simp: is_digit_def)

lemma stoi_decimal:
  assumes "n < 2 ^ 31" and "list_all is_space ws" and "rest = [] \<or> \<not> is_digit (hd rest)"
  shows "stoi (ws @ decimal n @ rest) = Inr (int n)"
    and "stoi (ws @ CHR ''-'' # decimal n @ rest) = Inr (- int n)"
proof -
  have d: "list_all is_digit (decimal n)" "decimal n \<noteq> []" using decimal_digits by simp_all
  then obtain c cs where c: "decimal n = c # cs" "is_digit c" by (cases "decimal n") auto
  have ws: "dropWhile is_space (ws @ c # xs) = c # xs" if "\<not> is_space c" for c xs
    using assms(2) that by (induction ws) auto
  have tk: "takeWhile is_digit (decimal n @ rest) = decimal n"
    by (rule takeWhile_digits [OF d(1) assms(3)])
  have v: "digits_value (decimal n) = n" using decimal_value by (simp add: digits_value_def)
  have "\<not> is_space c" using c(2) digit_not_space by blast
  then have "dropWhile is_space (ws @ decimal n @ rest) = decimal n @ rest" using ws c(1) by simp
  then show "stoi (ws @ decimal n @ rest) = Inr (int n)"
    using tk v c digit_not_sign [OF c(2)] assms(1) by (simp add: stoi_def Let_def)
  have "\<not> is_space CHR ''-''" by (simp add: is_space_def)
  then have "dropWhile is_space (ws @ CHR ''-'' # decimal n @ rest) = CHR ''-'' # decimal n @ rest"
    using ws by blast
  then show "stoi (ws @ CHR ''-'' # decimal n @ rest) = Inr (- int n)"
    using tk v d(2) assms(1) by (simp add: stoi_def Let_def)
qed

lemma stoi_no_digit:
  assumes "list_all is_space ws" and "rest = [] \<or> \<not> is_digit (hd rest) \<and> \<not> is_space (hd rest)"
    and "rest = [] \<or> hd rest \<notin> {CHR ''-'', CHR ''+''}"
  shows "stoi (ws @ rest) = Inl Invalid_Argument"
proof -
  have "dropWhile is_space (ws @ rest) = rest"
    using assms(1,2) by (induction ws) (cases rest, auto)
  moreover have "takeWhile is_digit rest = []" using assms(2) by (cases rest) auto
  ultimately show ?thesis using assms(3) by (auto simp: stoi_def Let_def)
qed

text \<open>
  The timeout a vehicle's program is given is the number its second argument starts with, white
  space before and anything behind it; an argument that does not start with one leaves 30 seconds.
  The alarm that ends the program is set to it, except that 0 sets none and a negative number
  means about 136 years.
\<close>

theorem vehicle_timeout:
  assumes "n < 2 ^ 31" and "list_all is_space ws" and "rest = [] \<or> \<not> is_digit (hd rest)"
    and "arg = ws @ decimal n @ rest"
  shows "va_timeout (vehicle_arguments [prog, iface, arg] env) = int n \<and>
    alarm_after (int n) = (if n = 0 then None else Some n) \<and>
    va_timeout (vehicle_arguments [prog, iface, ws @ CHR ''-'' # decimal n @ rest] env) = - int n \<and>
    alarm_after (- int n) = (if n = 0 then None else Some (2 ^ 32 - n)) \<and>
    va_timeout (vehicle_arguments [prog, iface, ws @ ''x'' @ arg] env) = 30"
proof -
  note st = stoi_decimal [OF assms(1-3)]
  have "arg \<noteq> []" using decimal_digits [of n] assms(4) by simp
  then have t: "va_timeout (vehicle_arguments [prog, iface, arg] env) = int n"
    "va_timeout (vehicle_arguments [prog, iface, ws @ CHR ''-'' # decimal n @ rest] env) = - int n"
    using st assms(4) by (simp_all add: vehicle_arguments_def argument_def numeral_2_eq_2)
  have "stoi (ws @ ''x'' @ arg) = Inl Invalid_Argument"
    by (rule stoi_no_digit [OF assms(2)]) (simp_all add: is_digit_def is_space_def)
  then have "va_timeout (vehicle_arguments [prog, iface, ws @ ''x'' @ arg] env) = 30"
    by (simp add: vehicle_arguments_def argument_def numeral_2_eq_2)
  moreover have "alarm_after (int n) = (if n = 0 then None else Some n)"
    using assms(1) by (simp add: alarm_after_def Let_def unat_of_nat)
  moreover have "alarm_after (- int n) = Some (2 ^ 32 - n)" if "0 < n"
  proof -
    have "uint (word_of_int (- int n) :: u32) = (- int n) mod 2 ^ 32" by (subst uint_word_of_int) simp
    also have "\<dots> = 2 ^ 32 - int n" using that assms(1) by (simp add: zmod_zminus1_eq_if)
    finally have "unat (word_of_int (- int n) :: u32) = 2 ^ 32 - n" using assms(1) by (simp add: unat_eq_nat_uint nat_diff_distrib)
    then show ?thesis using assms(1) by (simp add: alarm_after_def Let_def)
  qed
  ultimately show ?thesis using t by (cases "n = 0") (simp_all add: alarm_after_def)
qed

theorem vehicle_timeout_witness:
  "va_timeout (vehicle_arguments [''vehicle'', ''eth1'', ''45s''] None) = 45 \<and> alarm_after 45 = Some 45"
proof -
  have d: "decimal 45 = ''45''" by code_simp
  have "list_all is_space []" "(CHR ''s'' # []) = [] \<or> \<not> is_digit (hd (CHR ''s'' # []))" by (simp_all add: is_digit_def)
  from vehicle_timeout [of 45, OF _ this, of "''45s''" "''vehicle''" "''eth1''" None] d
  show ?thesis by simp
qed

text \<open>
  The RSU's program takes its quadrant modulo 4, so quadrant 4 is quadrant 0 and no argument
  makes it use its position; and unlike the vehicle's it does not catch what \<open>stoi\<close> throws: a timeout
  or quadrant that is no number ends it.
\<close>

theorem rsu_quadrant_argument:
  assumes "t < 2 ^ 31" and "n < 2 ^ 31"
  shows "\<exists>a. rsu_arguments [prog, iface, decimal t, decimal n] = Inr a \<and> ra_timeout a = int t \<and>
      ra_iface a = iface \<and> p_quadrant (rsu_process mac a) = of_nat (n mod 4) \<and>
      p_quadrant (rsu_process mac a) \<noteq> 255 \<and>
      rsu_arguments [prog, iface, ''x'' @ decimal t] = Inl Invalid_Argument \<and>
      rsu_arguments [prog, iface, decimal t, ''x'' @ decimal n] = Inl Invalid_Argument"
proof -
  have st: "stoi (decimal k) = Inr (int k)" if "k < 2 ^ 31" for k
    using stoi_decimal(1) [OF that, of "[]" "[]"] by simp
  have bad: "stoi (''x'' @ ds) = Inl Invalid_Argument" for ds
    using stoi_no_digit [of "[]" "''x'' @ ds"] by (simp add: is_digit_def is_space_def)
  let ?a = "\<lparr>ra_timeout = int t, ra_iface = iface, ra_quadrant = word_of_int (int n)\<rparr>"
  have "(word_of_int (int n) :: byte) AND 3 = of_nat (n mod 4)"
  proof -
    have "(of_nat n :: byte) AND 3 = take_bit 2 (of_nat n)"
      using take_bit_eq_mask [of 2 "of_nat n :: byte"] by (simp add: mask_eq_exp_minus_1)
    then show ?thesis by (simp add: take_bit_of_nat) (simp add: take_bit_eq_mod)
  qed
  moreover have "(of_nat (n mod 4) :: byte) \<noteq> 255"
  proof -
    have "unat (of_nat (n mod 4) :: byte) = n mod 4" by (simp add: unat_of_nat)
    then have "unat (of_nat (n mod 4) :: byte) < 4" by simp
    then show ?thesis by auto
  qed
  ultimately have "p_quadrant (rsu_process mac ?a) = of_nat (n mod 4)" "p_quadrant (rsu_process mac ?a) \<noteq> 255"
    by (simp_all add: rsu_process_def rsu_boot_def set_quadrant_def)
  moreover have "rsu_arguments [prog, iface, decimal t, decimal n] = Inr ?a"
    using st assms by (simp add: rsu_arguments_def argument_def numeral_2_eq_2 numeral_3_eq_3)
  moreover have "rsu_arguments [prog, iface, ''x'' @ decimal t] = Inl Invalid_Argument"
    "rsu_arguments [prog, iface, decimal t, ''x'' @ decimal n] = Inl Invalid_Argument"
    using bad st [OF assms(1)] by (simp_all add: rsu_arguments_def argument_def numeral_2_eq_2 numeral_3_eq_3)
  ultimately show ?thesis by (intro exI [of _ ?a]) simp
qed

theorem rsu_quadrant_argument_witness:
  "\<exists>a. rsu_arguments [''rsu'', ''eth0'', ''60'', ''7''] = Inr a \<and> p_quadrant (rsu_process some_mac a) = 3"
proof -
  have "decimal 60 = ''60''" "decimal 7 = ''7''" by code_simp+
  with rsu_quadrant_argument [of 60 7 "''rsu''" "''eth0''" some_mac] show ?thesis by auto
qed

section \<open>The vehicle's processes\<close>

text \<open>
  What a process is after the loop of \<open>spawn\<close>: the child of one component, the parent with its
  children's ids, or a parent that leaves because \<open>fork\<close> failed.
\<close>

datatype role = Child component | Parent "int list" | Fork_Failed "int list"

fun spawn_all :: "component list \<Rightarrow> (nat \<Rightarrow> int) \<Rightarrow> int list \<Rightarrow> role" where
  "spawn_all [] fork children = Parent children"
| "spawn_all (c # cs) fork children =
     (let pid = fork (length children) in
      if pid = 0 then Child c
      else if pid < 0 then Fork_Failed children
      else spawn_all cs fork (children @ [pid]))"

text \<open>
  The signals a process takes: those that \<open>setup_signals\<close> directs to \<open>on_stop\<close>, which sets
  \<open>g_stop\<close>, and the engines' two.
\<close>

datatype signal = SIGINT | SIGTERM | SIGALRM | SIGIO | SIGUSR1

definition vehicle_setup_signals :: "signal list" where
  "vehicle_setup_signals = [SIGINT, SIGTERM, SIGALRM]"

definition vehicle_on_stop :: "signal list \<Rightarrow> bool \<Rightarrow> bool" where
  "vehicle_on_stop sigs g_stop \<longleftrightarrow> g_stop \<or> (\<exists>sig\<in>set sigs. sig \<in> set vehicle_setup_signals)"

text \<open>
  What the process does, the end of the loop \<open>while(!g_stop)\<close> included; \<open>sigs\<close> are the signals
  it has taken so far, and as long as none of them stops it the parent spins.
\<close>

datatype main_event = Handle_Signals "signal list" | Alarm_In "nat option" | Kill_Term int | Wait_Pid int | Sync_Disks | Power_Off | Exit_With int

fun main_events :: "bool \<Rightarrow> role \<Rightarrow> main_event list" where
  "main_events g_stop (Child c) = [Exit_With 0]"
| "main_events g_stop (Fork_Failed children) = [Exit_With 1]"
| "main_events g_stop (Parent children) =
     (if \<not> g_stop then [] else map Kill_Term children @ map Wait_Pid children @ [Sync_Disks, Power_Off])"

definition vehicle_main :: "string list \<Rightarrow> string option \<Rightarrow> (nat \<Rightarrow> int) \<Rightarrow> signal list \<Rightarrow> role \<times> main_event list" where
  "vehicle_main argv env fork sigs =
     (let a = vehicle_arguments argv env; r = spawn_all (scenario (va_scenario a)) fork [] in
      (r, [Handle_Signals vehicle_setup_signals, Alarm_In (alarm_after (va_timeout a))] @
         main_events (vehicle_on_stop sigs False) r))"

lemma spawn_all_cases:
  "case spawn_all cs fork children of
     Child c \<Rightarrow> \<exists>k<length cs. c = cs ! k \<and> fork (length children + k) = 0 \<and> (\<forall>j<k. 0 < fork (length children + j))
   | Parent ch \<Rightarrow> ch = children @ map (\<lambda>k. fork (length children + k)) [0..<length cs] \<and>
       (\<forall>k<length cs. 0 < fork (length children + k))
   | Fork_Failed ch \<Rightarrow> \<exists>k<length cs. ch = children @ map (\<lambda>j. fork (length children + j)) [0..<k] \<and>
       fork (length children + k) < 0 \<and> (\<forall>j<k. 0 < fork (length children + j))"
proof (induction cs arbitrary: children)
  case Nil
  then show ?case by simp
next
  case (Cons c cs)
  let ?l = "length children"
  consider "fork ?l = 0" | "fork ?l < 0" | "0 < fork ?l" by linarith
  then show ?case
  proof cases
    case 3
    have up: "children @ map (\<lambda>k. fork (?l + k)) [0..<Suc m] =
        (children @ [fork ?l]) @ map (\<lambda>k. fork (Suc ?l + k)) [0..<m]" for m
      by (simp add: upt_conv_Cons map_Suc_upt [symmetric] del: upt_Suc)
    have all: "(\<forall>j<Suc m. 0 < fork (?l + j)) \<longleftrightarrow> (\<forall>j<m. 0 < fork (Suc ?l + j))" for m
      using 3 by (auto simp: less_Suc_eq_0_disj)
    have eq: "spawn_all (c # cs) fork children = spawn_all cs fork (children @ [fork ?l])"
      using 3 by (simp add: Let_def)
    from Cons.IH [of "children @ [fork ?l]"] show ?thesis
    proof (cases "spawn_all cs fork (children @ [fork ?l])")
      case (Child d)
      with Cons.IH [of "children @ [fork ?l]"] obtain k where
        "k < length cs" "d = cs ! k" "fork (Suc ?l + k) = 0" "\<forall>j<k. 0 < fork (Suc ?l + j)" by auto
      then show ?thesis using eq Child all [of k] by (auto intro!: exI [of _ "Suc k"])
    next
      case (Parent ch)
      with Cons.IH [of "children @ [fork ?l]"] show ?thesis
        using eq up [of "length cs"] all [of "length cs"] by (simp del: upt_Suc)
    next
      case (Fork_Failed ch)
      with Cons.IH [of "children @ [fork ?l]"] obtain k where
        "k < length cs" "ch = (children @ [fork ?l]) @ map (\<lambda>j. fork (Suc ?l + j)) [0..<k]"
        "fork (Suc ?l + k) < 0" "\<forall>j<k. 0 < fork (Suc ?l + j)" by auto
      then show ?thesis using eq Fork_Failed all [of k] up [of k] by (auto intro!: exI [of _ "Suc k"] simp del: upt_Suc)
    qed
  qed (auto simp: Let_def)
qed

text \<open>
  C37: the main process handles the three signals, sets the alarm of its argument, has one child for
  every component of its scenario, in order, and once one of the three signals has come, and not before,
  it signals each and waits for each before it switches the machine off.
  When a \<open>fork\<close> fails it leaves
  with status 1 and (finding) neither signals nor waits for the children it already has, which keep
  running: their alarm was the parent's.
\<close>

theorem vehicle_main_children:
  "case vehicle_main argv env fork sigs of (r, ev) \<Rightarrow>
     (let a = vehicle_arguments argv env; cs = scenario (va_scenario a);
          start = [Handle_Signals [SIGINT, SIGTERM, SIGALRM], Alarm_In (alarm_after (va_timeout a))] in
      case r of
        Parent ch \<Rightarrow> ch = map fork [0..<length cs] \<and> list_all (\<lambda>p. 0 < p) ch \<and>
          ev = start @ (if set sigs \<inter> {SIGINT, SIGTERM, SIGALRM} = {} then []
            else map Kill_Term ch @ map Wait_Pid ch @ [Sync_Disks, Power_Off])
      | Fork_Failed ch \<Rightarrow> (\<exists>k<length cs. ch = map fork [0..<k] \<and> fork k < 0) \<and> ev = start @ [Exit_With 1]
      | Child c \<Rightarrow> (\<exists>k<length cs. c = cs ! k \<and> fork k = 0) \<and> ev = start @ [Exit_With 0])"
proof -
  have "vehicle_on_stop sigs False \<longleftrightarrow> set sigs \<inter> {SIGINT, SIGTERM, SIGALRM} \<noteq> {}"
    by (auto simp: vehicle_on_stop_def vehicle_setup_signals_def)
  then show ?thesis
    using spawn_all_cases [of "scenario (va_scenario (vehicle_arguments argv env))" fork "[]"]
    by (auto simp: vehicle_main_def vehicle_setup_signals_def Let_def list_all_iff split: role.splits)
qed

text \<open>A child after construction and \<open>setup\<close>.\<close>

definition child_boot :: "mac \<Rightarrow> mac \<Rightarrow> component \<Rightarrow> node" where
  "child_boot mac rs_mac c = (if c = Time_Client then time_client_boot mac rs_mac else component_boot mac c)"

section \<open>The gateway's normal mode\<close>

text \<open>
  \<open>run_normal\<close>, which \<open>main\<close> has commented out: one turn of the thread that sends to the network,
  one of the thread that shares with the components, and what the loop that receives prints.
\<close>

definition gateway_send :: "byte \<Rightarrow> message \<Rightarrow> node \<Rightarrow> runtime_error + (bool \<times> node)" where
  "gateway_send pos m s = comm_send pos 0 m s"

definition gateway_share :: "byte \<Rightarrow> message \<Rightarrow> u16 \<Rightarrow> node \<Rightarrow> runtime_error + (bool \<times> node)" where
  "gateway_share pos m p s = comm_share pos 0 m p s"

definition gateway_receive :: "message \<Rightarrow> node \<Rightarrow> runtime_error + (bool \<times> message \<times> node)" where
  "gateway_receive out s = endpoint_receive 0 out s"

definition gateway_address :: "node \<Rightarrow> address" where
  "gateway_address s = c_address (comms s ! 0)"

definition text_bytes :: "string \<Rightarrow> byte list" where
  "text_bytes txt = map (\<lambda>c. of_nat (of_char c)) txt"

definition normal_message :: "string \<Rightarrow> nat \<Rightarrow> message \<Rightarrow> message" where
  "normal_message prefix num junk =
     (let txt = prefix @ decimal num; m = new_message junk in
      set_size (length txt) (m\<lparr>m_data := poke 0 (text_bytes txt) (m_data m)\<rparr>))"

definition net_sender_turn :: "byte \<Rightarrow> nat \<Rightarrow> message \<Rightarrow> node \<Rightarrow> runtime_error + (bool \<times> node)" where
  "net_sender_turn pos num junk s = gateway_send pos (normal_message ''rede-msg-'' num junk) s"

definition shm_sender_turn :: "byte \<Rightarrow> nat \<Rightarrow> message \<Rightarrow> node \<Rightarrow> runtime_error + (bool \<times> node)" where
  "shm_sender_turn pos num junk s =
     (let m = normal_message ''local-msg-'' num junk in
      and_then (gateway_share pos m PORT_SENSOR s) (\<lambda>(b1, s1).
      and_then (gateway_share pos m PORT_ACTUATOR s1) (\<lambda>(b2, s2). gateway_share pos m PORT_POWERTRAIN s2)))"

definition normal_receive :: "message \<Rightarrow> node \<Rightarrow> runtime_error + (byte option \<times> node)" where
  "normal_receive out s =
     and_then (gateway_receive out s) (\<lambda>(ok, m, t).
       Inr (if ok \<and> 0 < m_size m \<and> m_size m \<le> MAX_SIZE then Some (origin m) else None, t))"

lemma decimal_short: "n < 10 ^ k \<Longrightarrow> 0 < k \<Longrightarrow> length (decimal n) \<le> k"
proof (induction n arbitrary: k rule: decimal.induct)
  case (1 n)
  show ?case
  proof (cases "n < 10")
    case True
    then show ?thesis using 1(3) by (simp add: decimal.simps)
  next
    case False
    obtain j where k: "k = Suc j" using 1(3) by (cases k) auto
    moreover have "0 < j" using 1(2) False k by (cases j) auto
    ultimately have j: "k = Suc j" "0 < j" by simp_all
    have "n div 10 < 10 ^ j" using 1(2) j(1) by (simp add: less_mult_imp_div_less mult.commute)
    from 1(1) [OF False this j(2)] show ?thesis using False j(1) by (simp add: decimal.simps [of n])
  qed
qed

lemma normal_message_spec:
  assumes "num < 2 ^ 31" and "length prefix \<le> 10"
  shows "message_ok (normal_message prefix num junk)" and "0 < m_size (normal_message prefix num junk)"
    and "msg_bytes (normal_message prefix num junk) = text_bytes (prefix @ decimal num)"
proof -
  have "length (decimal num) \<le> 10" by (rule decimal_short) (use assms(1) in simp_all)
  moreover have "decimal num \<noteq> []" using decimal_digits by simp
  ultimately show "message_ok (normal_message prefix num junk)" "0 < m_size (normal_message prefix num junk)"
    "msg_bytes (normal_message prefix num junk) = text_bytes (prefix @ decimal num)"
    using assms(2)
    by (simp_all add: normal_message_def message_ok_def set_size_def new_message_def MAX_SIZE_def msg_bytes_def
        text_bytes_def poke_def Let_def)
qed

lemma share_spec:
  assumes "node_ok s" and "0 < length (comms s)" and "message_ok m" and "0 < m_size m"
  obtains t where "gateway_share pos m p s = Inr (True, t)" and "node_ok t" and "same_layout s t"
    and "\<And>src dst q x. frames_out t (p_nics t) src dst q x = frames_out s (p_nics s) src dst q x"
    and "my_quadrant pos t = my_quadrant pos s"
    and "on_wire t = on_wire s @ frames_out s (p_nics s) (gateway_address s)
      \<lparr>paddr = paddr (gateway_address s), port = p\<rparr> (my_quadrant pos s) (msg_bytes m)"
proof -
  let ?a = "c_address (comms s ! 0)"
  have pn: "\<forall>n\<in>set (p_nics s). n < length (nics s)" using assms(1) by (simp add: node_ok_def wired_def)
  have sz: "m_size m \<le> length (m_data m)" "m_size m \<le> PROTOCOL_MTU"
    using assms(3) by (simp_all add: message_ok_def MAX_SIZE_def PROTOCOL_MTU_def MTU_def header_size_def)
  have "length (paddr ?a) = 6" using comm_address_ok [OF assms(1,2)] .
  then obtain t where t: "send_nics pos ?a \<lparr>paddr = paddr ?a, port = p\<rparr> (m_data m) (m_size m) (p_nics s) s = Inr t"
      "node_ok t" "same_layout s t" "same_pools s t" "same_but_nics s t"
      "on_wire t = on_wire s @ frames_out s (p_nics s) ?a \<lparr>paddr = paddr ?a, port = p\<rparr> (my_quadrant pos s)
        (take (m_size m) (m_data m))"
    using send_nics_spec [OF assms(1) pn _ sz, of "\<lparr>paddr = paddr ?a, port = p\<rparr>" pos ?a] by auto
  have "n_address (nics t ! n) = n_address (nics s ! n)" if "n < length (nics s)" for n
    using t(3,5) that map_nth_eq [of n_address "nics t" "nics s" n] by (simp add: same_but_nics_def same_layout_def)
  then have "frames_out t (p_nics t) src dst q x = frames_out s (p_nics s) src dst q x" for src dst q x
    using t(3,4) pn unfolding frames_out_def
    by (intro arg_cong [where f = concat] map_cong) (auto simp: same_layout_def same_pools_def)
  moreover have "my_quadrant pos t = my_quadrant pos s"
    using t(5) by (intro my_quadrant_cong) (simp add: same_but_nics_def)
  moreover have "gateway_share pos m p s = Inr (True, t)"
    using t(1) assms(4) by (simp add: gateway_share_def comm_share_def proto_send_def Let_def)
  ultimately show ?thesis using that t(2,3,6) by (simp add: gateway_address_def msg_bytes_def)
qed

text \<open>
  In normal mode the gateway's messages are well formed whatever their number: each turn of the
  sharing thread puts the numbered text on every NIC with a free buffer (finding: on the network's
  too, although it is meant for the local components) three times, for the ports of the sensor, the
  actuator and the powertrain, addressed to its own MAC.
\<close>

theorem normal_mode_shares:
  assumes "node_ok s" and "0 < length (comms s)" and "num < 2 ^ 31"
  shows "\<exists>t. shm_sender_turn pos num junk s = Inr (True, t) \<and> node_ok t \<and>
    on_wire t = on_wire s @ concat (map (\<lambda>p. frames_out s (p_nics s) (gateway_address s)
      \<lparr>paddr = paddr (gateway_address s), port = p\<rparr> (my_quadrant pos s) (text_bytes (''local-msg-'' @ decimal num)))
      [PORT_SENSOR, PORT_ACTUATOR, PORT_POWERTRAIN])"
proof -
  let ?m = "normal_message ''local-msg-'' num junk"
  have m: "message_ok ?m" "0 < m_size ?m" "msg_bytes ?m = text_bytes (''local-msg-'' @ decimal num)"
    by (rule normal_message_spec [OF assms(3)]; simp)+
  obtain s1 where s1: "gateway_share pos ?m PORT_SENSOR s = Inr (True, s1)" "node_ok s1" "same_layout s s1"
      "\<And>src dst q x. frames_out s1 (p_nics s1) src dst q x = frames_out s (p_nics s) src dst q x"
      "my_quadrant pos s1 = my_quadrant pos s"
      "on_wire s1 = on_wire s @ frames_out s (p_nics s) (gateway_address s)
        \<lparr>paddr = paddr (gateway_address s), port = PORT_SENSOR\<rparr> (my_quadrant pos s) (msg_bytes ?m)"
    by (rule share_spec [OF assms(1,2) m(1,2), of pos PORT_SENSOR]) blast
  have c1: "0 < length (comms s1)" "gateway_address s1 = gateway_address s"
    using s1(3) assms(2) by (simp_all add: same_layout_def gateway_address_def)
  obtain s2 where s2: "gateway_share pos ?m PORT_ACTUATOR s1 = Inr (True, s2)" "node_ok s2" "same_layout s1 s2"
      "\<And>src dst q x. frames_out s2 (p_nics s2) src dst q x = frames_out s1 (p_nics s1) src dst q x"
      "my_quadrant pos s2 = my_quadrant pos s1"
      "on_wire s2 = on_wire s1 @ frames_out s1 (p_nics s1) (gateway_address s1)
        \<lparr>paddr = paddr (gateway_address s1), port = PORT_ACTUATOR\<rparr> (my_quadrant pos s1) (msg_bytes ?m)"
    by (rule share_spec [OF s1(2) c1(1) m(1,2), of pos PORT_ACTUATOR]) blast
  have c2: "0 < length (comms s2)" "gateway_address s2 = gateway_address s"
    using s2(3) c1 by (simp_all add: same_layout_def gateway_address_def)
  obtain s3 where s3: "gateway_share pos ?m PORT_POWERTRAIN s2 = Inr (True, s3)" "node_ok s3"
      "on_wire s3 = on_wire s2 @ frames_out s2 (p_nics s2) (gateway_address s2)
        \<lparr>paddr = paddr (gateway_address s2), port = PORT_POWERTRAIN\<rparr> (my_quadrant pos s2) (msg_bytes ?m)"
    by (rule share_spec [OF s2(2) c2(1) m(1,2), of pos PORT_POWERTRAIN]) blast
  show ?thesis
    using s1(1) s2(1) s3(1,2) s1(4-6) s2(4-6) s3(3) c1(2) c2(2) m(3)
    by (intro exI [of _ s3]) (simp add: shm_sender_turn_def Let_def)
qed

theorem normal_mode_shares_witness:
  "\<exists>t. shm_sender_turn 1 12 blank_message (gateway_boot some_mac) = Inr (True, t) \<and> node_ok t"
proof -
  have "length some_mac = 6" by (simp add: some_mac_def)
  from two_nic_boot_ok [OF this this] have "node_ok (gateway_boot some_mac)" by (simp add: gateway_boot_def)
  moreover have "0 < length (comms (gateway_boot some_mac))"
    by (simp add: gateway_boot_def endpoint_create_def comm_subscribe_def comm_create_def
        proto_attach_def proto_new_def proto_attach_nic_def process_def)
  ultimately show ?thesis using normal_mode_shares [of "gateway_boot some_mac" 12 1 blank_message] by auto
qed

end
