(* ===== verification/Vehicle_Run.thy ===== *)
theory Vehicle_Run
  imports Smart_Bus Main_Programs Ptp_Exchange
begin

text \<open>
  The vehicle as the main program builds it (\<open>vehicle_main.cpp\<close>, \<open>vehicle.hpp\<close>): the gateway's
  process and one for every component of the scenario, each with its stack and SmartData, on one
  shared memory.
\<close>

section \<open>The vehicle object\<close>

text \<open>
  The class \<open>Vehicle\<close>: the gateway, the key of the shared memory and the components added to it.
  A component's constructor is the argument \<open>build\<close>; the program adds none, it forks a process for
  each.
\<close>

record 'c vehicle_obj =
  v_gateway :: node
  v_key :: u32
  v_components :: "'c list"

definition gateway_key :: "node \<Rightarrow> u32" where
  "gateway_key g = make_key (n_address (nics g ! 0))"

definition vehicle_new :: "mac \<Rightarrow> 'c vehicle_obj" where
  "vehicle_new mac = (let g = gateway_boot mac in \<lparr>v_gateway = g, v_key = gateway_key g, v_components = []\<rparr>)"

definition mac_address :: "'c vehicle_obj \<Rightarrow> mac" where
  "mac_address v = paddr (gateway_address (v_gateway v))"

definition shm_key :: "'c vehicle_obj \<Rightarrow> u32" where
  "shm_key v = v_key v"

definition add_component :: "(address \<Rightarrow> u32 \<Rightarrow> mac \<Rightarrow> 'c) \<Rightarrow> u16 \<Rightarrow> 'c vehicle_obj \<Rightarrow> 'c \<times> 'c vehicle_obj" where
  "add_component build p v =
     (let c = build \<lparr>paddr = paddr (gateway_address (v_gateway v)), port = p\<rparr> (v_key v)
        (paddr (gateway_address (v_gateway v)))
      in (c, v\<lparr>v_components := v_components v @ [c]\<rparr>))"

lemma vehicle_new_simps [simp]:
  "v_gateway (vehicle_new mac) = gateway_boot mac" "mac_address (vehicle_new mac) = mac"
  "shm_key (vehicle_new mac) = make_key mac"
  by (simp_all add: vehicle_new_def mac_address_def shm_key_def gateway_key_def gateway_address_def gateway_boot_def
      proto_attach_nic_def endpoint_create_def comm_subscribe_def comm_create_def proto_attach_def proto_new_def
      process_def new_nic_def Let_def)

text \<open>Every component added gets the gateway's MAC and the key of its shared memory.\<close>

lemma add_components:
  "v_components (fold (\<lambda>p. snd \<circ> add_component build p) ps v) =
     v_components v @ map (\<lambda>p. build \<lparr>paddr = mac_address v, port = p\<rparr> (shm_key v) (mac_address v)) ps"
  by (induction ps arbitrary: v) (simp_all add: add_component_def mac_address_def shm_key_def Let_def)

section \<open>Building the vehicle\<close>

text \<open>A SmartData's own fields; \<open>ts\<close> is the clock its constructor reads.\<close>

fun sd_obj_new :: "timespec \<Rightarrow> smart_data_kind \<Rightarrow> sd_obj" where
  "sd_obj_new ts (Interested q period) = Consumer (isd_new (unit_code q) period ts)"
| "sd_obj_new ts (Responsive q) = Producer (rsd_new (unit_code q))"

text \<open>The engines enrol one after the other, the gateway's first.\<close>

fun enroll_all :: "nat \<Rightarrow> shm_channel \<Rightarrow> shm_channel" where
  "enroll_all 0 ch = ch"
| "enroll_all (Suc n) ch = snd (shm_enroll (member_pid n) (enroll_all n ch))"

text \<open>The main process's vehicle, and the children with its MAC.\<close>

definition vehicle_system :: "mac \<Rightarrow> mac \<Rightarrow> component list \<Rightarrow> timespec \<Rightarrow> sd_sys" where
  "vehicle_system mac rs_mac cs ts =
     (let v = vehicle_new mac :: component vehicle_obj in
      \<lparr>sd_bus = \<lparr>ring_of = enroll_all (Suc (length cs)) shm_zero,
                 members = (v_gateway v, 1) # map (\<lambda>c. (child_boot (mac_address v) rs_mac c, 0)) cs\<rparr>,
       sd_objs = [] # map (\<lambda>c. map (sd_obj_new ts) (add_smart_datas c)) cs\<rparr>)"

lemma vehicle_system_eq:
  "vehicle_system mac rs_mac cs ts =
     \<lparr>sd_bus = \<lparr>ring_of = enroll_all (Suc (length cs)) shm_zero,
                members = (gateway_boot mac, 1) # map (\<lambda>c. (child_boot mac rs_mac c, 0)) cs\<rparr>,
      sd_objs = [] # map (\<lambda>c. map (sd_obj_new ts) (add_smart_datas c)) cs\<rparr>"
  by (simp add: vehicle_system_def Let_def)

section \<open>The ring\<close>

lemma enroll_all_spec:
  assumes "n \<le> PROCS"
  shows "pids (enroll_all n shm_zero) = map member_pid [0..<n] @ replicate (PROCS - n) 0" (is ?P)
    and "ring_ok (enroll_all n shm_zero)" (is ?R)
    and "p < PROCS \<Longrightarrow> backlog p (enroll_all n shm_zero) = 0"
proof -
  have "?P \<and> ?R \<and> tail (enroll_all n shm_zero) = 0 \<and> heads (enroll_all n shm_zero) = replicate PROCS 0"
    using assms
  proof (induction n)
    case 0
    then show ?case by simp (simp add: shm_zero_def)
  next
    case (Suc n)
    let ?ch = "enroll_all n shm_zero"
    have ih: "pids ?ch = map member_pid [0..<n] @ replicate (PROCS - n) 0" "ring_ok ?ch" "tail ?ch = 0"
        "heads ?ch = replicate PROCS 0" using Suc by simp_all
    have "first_index (\<lambda>p. p = 0) (pids ?ch) = Some n"
      using Suc.prems by (simp add: first_index_Some ih(1) nth_append member_pid_def)
    then have e: "enroll_all (Suc n) shm_zero = ?ch\<lparr>pids := (pids ?ch)[n := member_pid n], heads := (heads ?ch)[n := 0]\<rparr>"
      by (simp add: shm_enroll_def ih(3))
    have "replicate (PROCS - n) 0 = 0 # replicate (PROCS - Suc n) (0 :: int)"
      using Suc.prems by (metis Suc_diff_Suc Suc_le_lessD replicate_Suc)
    then have "(pids ?ch)[n := member_pid n] = map member_pid [0..<Suc n] @ replicate (PROCS - Suc n) 0"
      by (simp add: ih(1) list_update_append)
    then show ?case unfolding e using ih Suc.prems by (simp add: ring_ok_def list_update_same_conv)
  qed
  then show ?P and ?R and "p < PROCS \<Longrightarrow> backlog p (enroll_all n shm_zero) = 0"
    by (simp_all add: backlog_def)
qed

section \<open>A process's SmartData\<close>

lemma sds_wiring:
  fixes mac :: mac
  assumes "comms s0 = []" and "consumers s0 = []" and "p_observers s0 = []"
  defines "s \<equiv> \<lambda>sds. fold (smart_data_start mac) sds s0"
  shows "length (comms (s sds)) = length sds \<and> length (consumers (s sds)) = length sds \<and>
    (\<forall>k<length sds. port (c_address (comms (s sds) ! k)) = kind_port (sds ! k) \<and> mailbox k (s sds) = []) \<and>
    (\<forall>p. routing (s sds) p = rev (filter (\<lambda>k. kind_port (sds ! k) = p) [0..<length sds])) \<and>
    (\<forall>(p, c)\<in>set (p_observers (s sds)). c < length sds) \<and>
    nics (s sds) = nics s0 \<and> p_nics (s sds) = p_nics s0 \<and> p_quadrant (s sds) = p_quadrant s0 \<and> heap (s sds) = heap s0"
proof (induction sds rule: rev_induct)
  case Nil
  then show ?case using assms(1-3) by (simp add: s_def routing_def)
next
  case (snoc sd sds)
  let ?s = "s sds"
  let ?n = "length sds"
  let ?t = "smart_data_start mac sd ?s"
  have t: "s (sds @ [sd]) = ?t" by (simp add: s_def)
  have n: "length (comms ?s) = ?n" "length (consumers ?s) = ?n" using snoc.IH by simp_all
  have f: "comms ?t = comms ?s @ [\<lparr>c_address = \<lparr>paddr = mac, port = kind_port sd\<rparr>,
        c_subscribers = [(kind_port sd, ?n)]\<rparr>]" "consumers ?t = consumers ?s @ [co_new (kind_port sd)]"
      "p_observers ?t = ol_insert ?n (kind_port sd) (p_observers ?s)" "nics ?t = nics ?s" "p_nics ?t = p_nics ?s"
      "p_quadrant ?t = p_quadrant ?s" "heap ?t = heap ?s"
    by (simp_all add: smart_data_start_def endpoint_create_def comm_subscribe_def comm_create_def
        proto_attach_def attach_def n nth_append list_update_append)
  have bound: "c < ?n" if "c \<in> set (receivers (p_observers ?s) p)" for c p
    using snoc.IH that by (auto simp: receivers_def)
  have new: "comms ?t ! ?n = \<lparr>c_address = \<lparr>paddr = mac, port = kind_port sd\<rparr>,
        c_subscribers = [(kind_port sd, ?n)]\<rparr>" by (simp add: f(1) nth_append n)
  have old: "map (\<lambda>c. receivers (c_subscribers (comms ?t ! c)) (port (c_address (comms ?t ! c)))) (receivers (p_observers ?s) p) =
      map (\<lambda>c. receivers (c_subscribers (comms ?s ! c)) (port (c_address (comms ?s ! c)))) (receivers (p_observers ?s) p)" for p
    using bound n by (intro map_cong) (auto simp: f(1) nth_append)
  then have "routing ?t p = (if p = kind_port sd then ?n # routing ?s p else routing ?s p)" for p
    by (simp add: routing_def f(3) receivers_ol_insert new old)
  moreover have "filter (\<lambda>k. kind_port ((sds @ [sd]) ! k) = p) [0..<?n] = filter (\<lambda>k. kind_port (sds ! k) = p) [0..<?n]" for p
    by (intro filter_cong) (auto simp: nth_append)
  ultimately have "\<forall>p. routing ?t p = rev (filter (\<lambda>k. kind_port ((sds @ [sd]) ! k) = p) [0..<length (sds @ [sd])])"
    using snoc.IH by auto
  moreover have "mailbox k ?t = []" if "k < Suc ?n" for k
    using snoc.IH that by (cases "k = ?n") (auto simp: mailbox_def contents_def f nth_append n co_new_def less_Suc_eq)
  ultimately show ?case
    unfolding t using snoc.IH by (auto simp: f nth_append n less_Suc_eq)
qed

text \<open>No component reads and writes one port, and none uses the broadcast port.\<close>

lemma ports_of_component:
  "distinct (map kind_port (add_smart_datas c))" "0 \<notin> set (map kind_port (add_smart_datas c))"
  "Interested q period \<in> set (add_smart_datas c) \<Longrightarrow> Responsive q \<notin> set (add_smart_datas c)"
proof -
  have "unit_port (unit_code Temperature) \<noteq> 0" "unit_port (unit_code Acceleration) \<noteq> 0"
    "unit_port (unit_code Pressure) \<noteq> 0" "unit_port (unit_code Velocity) \<noteq> 0"
    "unit_port (unit_code Current) \<noteq> 0" "unit_port (unit_code Voltage) \<noteq> 0" by code_simp+
  moreover have "unit_port (unit_code Temperature) \<noteq> unit_port (unit_code Acceleration)"
    "unit_port (unit_code Pressure) \<noteq> unit_port (unit_code Velocity)"
    "unit_port (unit_code Current) \<noteq> unit_port (unit_code Voltage)" by code_simp+
  ultimately show "distinct (map kind_port (add_smart_datas c))" "0 \<notin> set (map kind_port (add_smart_datas c))"
    by (cases c; simp)+
  show "Interested q period \<in> set (add_smart_datas c) \<Longrightarrow> Responsive q \<notin> set (add_smart_datas c)"
    by (cases c) auto
qed

lemma one_of_distinct:
  assumes "distinct (map f xs)" and "k < length xs"
  shows "count_list (rev (filter (\<lambda>j. f (xs ! j) = f (xs ! k)) [0..<length xs])) k = 1"
proof -
  have "(f (xs ! j) = f (xs ! k)) = (j = k)" if "j < length xs" for j
    using assms that nth_eq_iff_index_eq [OF assms(1), of j k] by simp
  then have "filter (\<lambda>j. f (xs ! j) = f (xs ! k)) [0..<length xs] = filter (\<lambda>j. j = k) [0..<length xs]"
    by (intro filter_cong) auto
  moreover have "count_list (filter (\<lambda>j. j = k) [0..<n]) k = (if k < n then 1 else 0)" for n
    by (induction n) auto
  ultimately show ?thesis using assms(2) by simp
qed

text \<open>The members of the vehicle.\<close>

lemma vehicle_member:
  assumes "i < length cs"
  shows "node_at (Suc i) (sd_bus (vehicle_system mac rs_mac cs ts)) = child_boot mac rs_mac (cs ! i)"
    and "nic_at (Suc i) (sd_bus (vehicle_system mac rs_mac cs ts)) = 0"
    and "sd_objs (vehicle_system mac rs_mac cs ts) ! Suc i = map (sd_obj_new ts) (add_smart_datas (cs ! i))"
  using assms by (simp_all add: vehicle_system_eq node_at_def nic_at_def)

lemma vehicle_lengths:
  "length (members (sd_bus (vehicle_system mac rs_mac cs ts))) = Suc (length cs)"
  "length (sd_objs (vehicle_system mac rs_mac cs ts)) = Suc (length cs)"
  by (simp_all add: vehicle_system_eq)

lemma child_boot_ok:
  assumes "length mac = 6" and "length rs_mac = 6"
  shows "node_ok (child_boot mac rs_mac c)" and "0 < length (nics (child_boot mac rs_mac c))"
proof -
  have "node_ok (time_client_boot mac rs_mac)" using two_nic_boot_ok [OF assms] by (simp add: time_client_boot_def)
  then show "node_ok (child_boot mac rs_mac c)" using component_boot_ok [OF assms(1)] by (simp add: child_boot_def)
  have "nics (component_boot mac c) = nics (proto_new 0 (process [mac]))"
    using sds_wiring [of "proto_new 0 (process [mac])" mac "add_smart_datas c"]
    by (simp add: component_boot_def proto_new_def proto_attach_nic_def process_def)
  then show "0 < length (nics (child_boot mac rs_mac c))"
    by (simp add: child_boot_def vehicle_client_fields proto_new_def proto_attach_nic_def process_def)
qed

lemma vehicle_bus_ok:
  assumes "length mac = 6" and "length rs_mac = 6" and "length cs < PROCS"
  shows "bus_ok (sd_bus (vehicle_system mac rs_mac cs ts))"
proof -
  have "node_ok (gateway_boot mac)" using two_nic_boot_ok [OF assms(1,1)] by (simp add: gateway_boot_def)
  moreover have "1 < length (nics (gateway_boot mac))"
    by (simp add: gateway_boot_def endpoint_create_def comm_subscribe_def comm_create_def proto_attach_def
        proto_new_def proto_attach_nic_def process_def)
  ultimately have "member_ok (gateway_boot mac, 1)" by (simp add: member_ok_def)
  moreover have "member_ok (child_boot mac rs_mac c, 0)" for c using child_boot_ok [OF assms(1,2)] by (simp add: member_ok_def)
  moreover have "Suc (length cs) \<le> PROCS" using assms(3) by simp
  ultimately show ?thesis
    using enroll_all_spec(1,2) [of "Suc (length cs)"]
    by (auto simp: bus_ok_def vehicle_system_eq simp del: upt_Suc enroll_all.simps)
qed

lemma component_ready:
  assumes "length mac = 6" and "length rs_mac = 6" and "length cs < PROCS" and "i < length cs"
    and "k < length (add_smart_datas (cs ! i))" and "j \<le> 128"
  shows "sd_ready (kind_port (add_smart_datas (cs ! i) ! k)) pos pos j (Suc i) k (vehicle_system mac rs_mac cs ts)"
proof -
  let ?sds = "add_smart_datas (cs ! i)"
  let ?s = "component_boot mac (cs ! i)"
  have c: "cs ! i \<noteq> Time_Client" using assms(5) by auto
  have w: "length (comms ?s) = length ?sds" "length (consumers ?s) = length ?sds"
      "port (c_address (comms ?s ! k)) = kind_port (?sds ! k)" "mailbox k ?s = []"
      "routing ?s p = rev (filter (\<lambda>k. kind_port (?sds ! k) = p) [0..<length ?sds])"
      "nics ?s = [\<lparr>n_address = mac, pool = zero_pool, n_observers = [(PROTO, ())]\<rparr>]" "p_nics ?s = [0]"
      "p_quadrant ?s = 255" for p
    using sds_wiring [of "proto_new 0 (process [mac])" mac ?sds] assms(5)
    by (simp_all add: component_boot_def proto_new_def proto_attach_nic_def process_def new_nic_def attach_def
        zero_pool_def)
  have "count_list (routing ?s (kind_port (?sds ! k))) k = 1"
    unfolding w(5) by (rule one_of_distinct [OF ports_of_component(1) assms(5)])
  moreover have "backlog (Suc i) (enroll_all (Suc (length cs)) shm_zero) = 0"
    using enroll_all_spec(3) [of "Suc (length cs)" "Suc i"] assms(3,4) by simp
  ultimately show ?thesis
    using assms(4-6) c w
    by (simp add: sd_ready_def Let_def vehicle_member vehicle_lengths child_boot_def can_hear_def free_slots_zero_pool
        my_quadrant_def get_quadrant_def del: enroll_all.simps) (simp add: vehicle_system_eq del: enroll_all.simps)
qed

section \<open>Properties\<close>

text \<open>
  C22: the vehicle of every scenario starts well formed and connected: every process is a well-formed
  stack on the ring, enrolled at its own entry, and every SmartData of every component is the only one
  of its process on its port, which is not the broadcast port, with an empty queue, nothing unread and
  all its buffers free.
\<close>

theorem vehicle_starts:
  assumes "length mac = 6" and "length rs_mac = 6"
  shows "let v = vehicle_system mac rs_mac (scenario name) ts in
    bus_ok (sd_bus v) \<and> (\<forall>i<length (scenario name). \<forall>k<length (add_smart_datas (scenario name ! i)).
      let kind = add_smart_datas (scenario name ! i) ! k in
      kind_port kind \<noteq> 0 \<and> obj_at (Suc i) k v = sd_obj_new ts kind \<and> sd_ready (kind_port kind) pos pos 128 (Suc i) k v)"
proof -
  have l: "length (scenario name) < PROCS" by (simp add: scenario_def PROCS_def)
  have "kind_port (add_smart_datas (scenario name ! i) ! k) \<noteq> 0" if "k < length (add_smart_datas (scenario name ! i))" for i k
    using ports_of_component(2) [of "scenario name ! i"] that by (metis length_map nth_map nth_mem)
  then show ?thesis
    using vehicle_bus_ok [OF assms(1,2) l] component_ready [OF assms(1,2) l]
    by (simp add: Let_def obj_at_def vehicle_member)
qed

theorem vehicle_starts_witness:
  "sd_ready (kind_port (Responsive Temperature)) 3 3 128 2 1 (vehicle_system some_mac some_mac (scenario ''default'') (0, 0))"
proof -
  have "length some_mac = 6" by (simp add: some_mac_def)
  note vs = vehicle_starts [OF this this, of "''default''" "(0, 0)" 3, unfolded Let_def, THEN conjunct2, rule_format]
  have sc: "scenario ''default'' ! 1 = Comp_B" "1 < length (scenario ''default'')" by (simp_all add: scenario_def)
  show ?thesis using vs [OF sc(2), of 1, unfolded sc(1)] by (simp add: numeral_2_eq_2)
qed

text \<open>
  C3: in every scenario a component that is interested in a quantity and a component that measures it
  exchange it through the shared memory and both stacks: the consumer's interest makes the producer
  run a thread of the consumer's period, and what that thread then sends is counted by the
  consumer, each response once and in order, with the sensed values; its own interest, which it reads
  too, it ignores. At most seven responses fit on the ring behind that interest.
\<close>

theorem vehicle_exchanges:
  assumes "length mac = 6" and "length rs_mac = 6" and "p < length (scenario name)" and "r < length (scenario name)"
    and "k < length (add_smart_datas (scenario name ! p))" and "l < length (add_smart_datas (scenario name ! r))"
    and "add_smart_datas (scenario name ! p) ! k = Interested q period"
    and "add_smart_datas (scenario name ! r) ! l = Responsive q"
    and "length rs < N" and "length tmp = frame_size" and "length us = Suc (length rs)"
  shows "\<exists>u c d. run_all (sd_exec fadd to_double)
      ([Sd_Start (Suc p) k pos ts0 junk, Sd_Read (Suc r) pos tmp, Sd_Turn (Suc r) l pos ts1 ts2 junk] @
       map (\<lambda>(ts, x). Sd_Respond (Suc r) l 0 pos ts junk x) rs @
       Sd_Read (Suc p) pos tmp # map (\<lambda>(ts, ts2, junk). Sd_Turn (Suc p) k pos ts ts2 junk) us)
      (vehicle_system mac rs_mac (scenario name) ts) = Inr u \<and>
    bus_ok (sd_bus u) \<and> obj_at (Suc r) l u = Producer d \<and> period \<in> set (periodic_threads d) \<and>
    obj_at (Suc p) k u = Consumer c \<and> mailbox k (node_at (Suc p) (sd_bus u)) = [] \<and>
    response_count c = int (length rs) \<and> sum_values c = fold (\<lambda>(ts, x) acc. fadd acc (to_double x)) rs 0 \<and>
    last_value c = (if rs = [] then 0 else to_double (snd (last rs)))"
proof -
  let ?cs = "scenario name"
  let ?v = "vehicle_system mac rs_mac ?cs ts"
  have l: "length ?cs < PROCS" by (simp add: scenario_def PROCS_def)
  have j: "Suc (length rs) \<le> 128" "2 \<le> (128 :: nat)" using assms(9) by (simp_all add: N_def)
  have pt: "kind_port (Interested q period) = unit_port (unit_code q)" "kind_port (Responsive q) = unit_port (unit_code q)"
    by simp_all
  note rp = component_ready [OF assms(1,2) l assms(3,5) j(1), of pos ts, unfolded assms(7) pt]
  note rr = component_ready [OF assms(1,2) l assms(4,6) j(2), of pos ts, unfolded assms(8) pt]
  have ne: "unit_port (unit_code q) \<noteq> 0"
    using ports_of_component(2) [of "?cs ! p"] assms(5,7) by (metis kind_port.simps(1) length_map nth_map nth_mem)
  have pr: "Suc p \<noteq> Suc r"
    using ports_of_component(3) [of q period "?cs ! p"] assms(5-8) by (metis Suc_inject nth_mem)
  have room: "all_have_room (Suc (length rs)) (sd_bus ?v)"
  proof -
    have "backlog q (enroll_all (Suc (length ?cs)) shm_zero) = 0" if "q < Suc (length ?cs)" for q
      by (rule enroll_all_spec(3)) (use l that in simp_all)
    moreover have "ring_of (sd_bus ?v) = enroll_all (Suc (length ?cs)) shm_zero" by (simp add: vehicle_system_eq)
    ultimately show ?thesis using assms(9) unfolding all_have_room_def vehicle_lengths by simp
  qed
  have ob: "obj_at (Suc p) k ?v = Consumer (isd_new (unit_code q) period ts)"
    "obj_at (Suc r) l ?v = Producer (rsd_new (unit_code q))"
    using assms(3-8) by (simp_all add: obj_at_def vehicle_member)
  have "active_periods (rsd_new (unit_code q)) = set (periodic_threads (rsd_new (unit_code q)))" by (simp add: rsd_new_def)
  from smart_data_exchange [OF vehicle_bus_ok [OF assms(1,2) l] room ne pr rp rr ob this assms(10,11),
      of fadd to_double ts0 junk ts1 ts2]
  show ?thesis by (simp add: thread_of_def rsd_new_def isd_new_def split: if_splits)
qed

text \<open>The velocity of \<open>basic_local\<close>, measured twice.\<close>

theorem vehicle_exchanges_witness:
  "\<exists>u c. run_all (sd_exec (+) word_of_int)
      ([Sd_Start 2 0 3 (5, 0) blank_message, Sd_Read 1 3 (replicate frame_size 0),
        Sd_Turn 1 0 3 (5, 0) (5, 0) blank_message,
        Sd_Respond 1 0 0 3 (6, 0) blank_message 42, Sd_Respond 1 0 0 3 (7, 0) blank_message 17,
        Sd_Read 2 3 (replicate frame_size 0)] @ replicate 3 (Sd_Turn 2 0 3 (8, 0) (8, 0) blank_message))
      (vehicle_system some_mac some_mac (scenario ''basic_local'') (0, 0)) = Inr u \<and>
    obj_at 2 0 u = Consumer c \<and> response_count c = 2 \<and> sum_values c = 59 \<and> last_value c = 17"
proof -
  have m: "length some_mac = 6" by (simp add: some_mac_def)
  have sc: "scenario ''basic_local'' = [Velocity_Producer, Velocity_Consumer]" by (simp add: scenario_def)
  show ?thesis
    using vehicle_exchanges [OF m m, of 1 "''basic_local''" 0 0 0 Velocity 1000000 "[((6, 0), 42), ((7, 0), 17)]"
        "replicate frame_size 0" "replicate 3 ((8, 0), (8, 0), blank_message)" "(+)" word_of_int 3 "(5, 0)" blank_message
        "(5, 0)" "(5, 0)" "(0, 0)"]
    by (auto simp: sc N_def numeral_3_eq_3 numeral_2_eq_2)
qed

end
