(* ===== verification/Child_Exit.thy ===== *)
theory Child_Exit
  imports Vehicle_Run
begin

text \<open>
  How the children and the RSU end: the destructors of \<open>Component\<close> (\<open>component.hpp\<close>),
  \<open>TimeClient\<close> and \<open>RSU\<close> and those of the members they run in reverse order of declaration,
  one after another, while the threads that have not been joined yet go on: the engines' threads deliver
  frames, the SmartData take their messages, the periodic threads send. A thread that uses an object
  whose destructor has run is a fault.
\<close>

section \<open>Destructors one by one\<close>

text \<open>
  \<open>Unsubscribe\<close>: \<open>stop\<close> of a SmartData, which first joins its thread, or \<open>~Endpoint\<close>;
  \<open>Observer_Gone\<close>: \<open>~ConcurrentObserver\<close>; \<open>Comm_Gone\<close>: a SmartData's periodic threads are
  joined and \<open>~Communicator\<close> runs; \<open>Nic_Detached\<close>: \<open>detach_nic\<close>; \<open>Engine_Joined\<close>: the
  NIC's engine has joined its thread; \<open>Buffers_Gone\<close>: the members of the NIC are destroyed;
  \<open>Engine_Bare\<close>: the destructor of the engine begins, \<open>_handle\<close> is from now on the engine's own,
  which prints.
\<close>

datatype exit_op = Unsubscribe nat nat | Observer_Gone nat | Comm_Gone nat | Nic_Detached nat
  | Protocol_Gone | Engine_Joined nat | Buffers_Gone nat | Engine_Bare nat

text \<open>
  A SmartData's communicator and its entry as consumer have the same number. \<open>~NIC\<close> calls
  \<open>stop\<close>, which joins, for an engine that has it; \<open>ShmEngine\<close> joins in its own destructor, after
  the members of the NIC.
\<close>

definition shm_nic_exit :: "nat \<Rightarrow> exit_op list" where
  "shm_nic_exit n = [Buffers_Gone n, Engine_Bare n, Engine_Joined n]"

definition raw_nic_exit :: "nat \<Rightarrow> exit_op list" where
  "raw_nic_exit n = [Engine_Joined n, Buffers_Gone n, Engine_Bare n]"

definition component_exit :: "nat \<Rightarrow> exit_op list" where
  "component_exit n = map (\<lambda>c. Unsubscribe c c) [0..<n] @ concat (map (\<lambda>c. [Comm_Gone c, Observer_Gone c]) [0..<n]) @
     Protocol_Gone # shm_nic_exit 0"

definition endpoint_gone :: "exit_op list" where
  "endpoint_gone = [Unsubscribe 0 0, Observer_Gone 0, Comm_Gone 0]"

definition time_client_exit :: "exit_op list" where
  "time_client_exit = Nic_Detached 1 # endpoint_gone @ raw_nic_exit 1 @ component_exit 0"

definition rsu_exit :: "exit_op list" where
  "rsu_exit = endpoint_gone @ Protocol_Gone # raw_nic_exit 0"

record gone =
  g_stopped :: "nat list"      \<comment> \<open>consumers whose thread is joined and that are unsubscribed\<close>
  g_observers :: "nat list"
  g_comms :: "nat list"
  g_detached :: "nat list"
  g_protocol :: bool
  g_joined :: "nat list"       \<comment> \<open>NICs whose engine's thread has ended\<close>
  g_buffers :: "nat list"
  g_bare :: "nat list"

definition nothing_gone :: gone where
  "nothing_gone = \<lparr>g_stopped = [], g_observers = [], g_comms = [], g_detached = [], g_protocol = False,
     g_joined = [], g_buffers = [], g_bare = []\<rparr>"

fun gone_after :: "exit_op \<Rightarrow> gone \<Rightarrow> gone" where
  "gone_after (Unsubscribe c k) g = g\<lparr>g_stopped := k # g_stopped g\<rparr>"
| "gone_after (Observer_Gone k) g = g\<lparr>g_observers := k # g_observers g\<rparr>"
| "gone_after (Comm_Gone c) g = g\<lparr>g_comms := c # g_comms g\<rparr>"
| "gone_after (Nic_Detached n) g = g\<lparr>g_detached := n # g_detached g\<rparr>"
| "gone_after Protocol_Gone g = g\<lparr>g_protocol := True\<rparr>"
| "gone_after (Engine_Joined n) g = g\<lparr>g_joined := n # g_joined g\<rparr>"
| "gone_after (Buffers_Gone n) g = g\<lparr>g_buffers := n # g_buffers g\<rparr>"
| "gone_after (Engine_Bare n) g = g\<lparr>g_bare := n # g_bare g\<rparr>"

fun exit_line :: "exit_op \<Rightarrow> gone \<Rightarrow> node \<Rightarrow> runtime_error + node" where
  "exit_line (Unsubscribe c k) g s =
     (if c \<in> set (g_comms g) \<or> k \<in> set (g_observers g) then Inl Use_After_Free else Inr (comm_unsubscribe c k s))"
| "exit_line (Observer_Gone k) g s = observer_destroy k s"
| "exit_line (Comm_Gone c) g s = (if g_protocol g then Inl Use_After_Free else Inr (comm_destroy c s))"
| "exit_line (Nic_Detached n) g s =
     (if g_protocol g \<or> n \<in> set (g_buffers g) then Inl Use_After_Free else Inr (proto_detach_nic n s))"
| "exit_line Protocol_Gone g s = proto_exit (g_buffers g) s"
| "exit_line (Engine_Joined n) g s = Inr s"
| "exit_line (Buffers_Gone n) g s = Inr s"
| "exit_line (Engine_Bare n) g s = Inr s"

section \<open>The threads that still run\<close>

fun still_runs :: "stack_op \<Rightarrow> gone \<Rightarrow> bool" where
  "still_runs (Handle pos n raw len) g \<longleftrightarrow> n \<notin> set (g_joined g)"
| "still_runs (Receive k out) g \<longleftrightarrow> k \<notin> set (g_stopped g)"
| "still_runs (Send pos c m) g \<longleftrightarrow> c \<notin> set (g_comms g)"
| "still_runs _ g \<longleftrightarrow> False"

text \<open>
  A frame goes through the NIC's buffers to the protocol, its communicators and their subscribers; a
  message through the communicator, the protocol and its NICs. It is enough here that a destroyed object
  is still attached where the frame could get to it.
\<close>

fun touches_gone :: "stack_op \<Rightarrow> gone \<Rightarrow> node \<Rightarrow> bool" where
  "touches_gone (Handle pos n raw len) g s \<longleftrightarrow> n \<in> set (g_buffers g) \<or>
     g_protocol g \<and> n_observers (nics s ! n) \<noteq> [] \<or>
     list_ex (\<lambda>(p, c). c \<in> set (g_comms g)) (p_observers s) \<or>
     list_ex (\<lambda>cm. list_ex (\<lambda>(p, k). k \<in> set (g_observers g)) (c_subscribers cm)) (comms s)"
| "touches_gone (Receive k out) g s \<longleftrightarrow> k \<in> set (g_observers g)"
| "touches_gone (Send pos c m) g s \<longleftrightarrow> c \<in> set (g_comms g) \<or> g_protocol g \<or>
     list_ex (\<lambda>n. n \<in> set (g_buffers g)) (p_nics s)"
| "touches_gone _ g s \<longleftrightarrow> False"

fun only_prints :: "stack_op \<Rightarrow> gone \<Rightarrow> bool" where
  "only_prints (Handle pos n raw len) g \<longleftrightarrow> n \<in> set (g_bare g)"
| "only_prints _ g \<longleftrightarrow> False"

record exiting =
  x_node :: node
  x_gone :: gone
  x_rest :: "exit_op list"

datatype exit_act = Destroy | Meanwhile stack_op

text \<open>\<open>None\<close>: the step cannot be made, its thread has ended or the destructors have.\<close>

fun exit_exec :: "exiting \<Rightarrow> exit_act \<Rightarrow> (runtime_error + exiting) option" where
  "exit_exec x Destroy =
     (case x_rest x of [] \<Rightarrow> None
      | d # ds \<Rightarrow> Some (and_then (exit_line d (x_gone x) (x_node x)) (\<lambda>t.
          Inr \<lparr>x_node = t, x_gone = gone_after d (x_gone x), x_rest = ds\<rparr>)))"
| "exit_exec x (Meanwhile oper) =
     (if still_runs oper (x_gone x) \<and> op_ok oper (x_node x)
      then Some (if only_prints oper (x_gone x) then Inr x
                 else if touches_gone oper (x_gone x) (x_node x) then Inl Use_After_Free
                 else and_then (stack_exec oper (x_node x)) (\<lambda>t. Inr (x\<lparr>x_node := t\<rparr>)))
      else None)"

fun exit_run :: "exit_act list \<Rightarrow> exiting \<Rightarrow> (runtime_error + exiting) option" where
  "exit_run [] x = Some (Inr x)"
| "exit_run (a # as) x =
     (case exit_exec x a of None \<Rightarrow> None | Some (Inl e) \<Rightarrow> Some (Inl e) | Some (Inr y) \<Rightarrow> exit_run as y)"

definition exit_start :: "exit_op list \<Rightarrow> node \<Rightarrow> exiting" where
  "exit_start ds s = \<lparr>x_node = s, x_gone = nothing_gone, x_rest = ds\<rparr>"

definition child_exit :: "component \<Rightarrow> exit_op list" where
  "child_exit c = (if c = Time_Client then time_client_exit else component_exit (length (add_smart_datas c)))"

text \<open>
  The life of a child: construction, \<open>setup\<close>, the loop that sleeps until \<open>g_stop\<close> while the
  threads perform \<open>ops\<close>, and the destruction, interleaved as \<open>acts\<close> says.
\<close>

definition child_run :: "mac \<Rightarrow> mac \<Rightarrow> component \<Rightarrow> stack_op list \<Rightarrow> exit_act list
    \<Rightarrow> (runtime_error + exiting) option" where
  "child_run mac rs_mac c ops acts =
     (case stack_run ops (child_boot mac rs_mac c) of
        Inl e \<Rightarrow> Some (Inl e) | Inr s \<Rightarrow> exit_run acts (exit_start (child_exit c) s))"

section \<open>What running threads leave as it was\<close>

lemma fold_proto_update_observers:
  assumes "node_ok s" and "n < length (nics s)" and "i < BUFFER_COUNT"
    and "fold (\<lambda>u r. and_then r (proto_update n i)) us (Inr s) = Inr t"
  shows "map n_observers (nics t) = map n_observers (nics s)"
  using assms
proof (induction us arbitrary: s)
  case Nil
  then show ?case by simp
next
  case (Cons u us)
  obtain v where v: "proto_update n i s = Inr v" "node_ok v" "same_layout s v" "nics v = nics (proto_free n i s)"
    by (rule proto_update_ok [OF Cons.prems(1-3)])
  have "map n_observers (nics v) = map n_observers (nics s)"
    using v(4) Cons.prems(2)
    by (auto simp: proto_free_def map_update list_update_same_conv split: option.splits)
  moreover have "n < length (nics v)" using v(3) Cons.prems(2) by (simp add: same_layout_def)
  ultimately show ?case using Cons.IH [OF v(2) _ Cons.prems(3)] Cons.prems(4) v(1) by simp
qed

lemma handle_observers:
  assumes "node_ok s" and "n < length (nics s)" and "len \<le> length raw" and "len \<le> frame_size"
    and "nic_handle pos n raw len s = Inr t"
  shows "map n_observers (nics t) = map n_observers (nics s)"
proof (cases "\<not> verifica_quadrante pos raw s \<or> first_index is_free (pool (nics s ! n)) = None")
  case True
  with assms(5) show ?thesis by (auto simp: nic_handle_def split: if_splits)
next
  case False
  then obtain i where i: "first_index is_free (pool (nics s ! n)) = Some i" and q: "verifica_quadrante pos raw s"
    by auto
  have nc: "nic_ok (nics s ! n)" by (rule node_ok_nic [OF assms(1,2)])
  have il: "i < length (pool (nics s ! n))" using i by (simp add: first_index_Some)
  with nc have fr: "length (b_frame (pool (nics s ! n) ! i)) = frame_size" and i2: "i < BUFFER_COUNT"
    by (simp_all add: nic_ok_def pool_ok_def)
  obtain b where b: "put_frame raw len (pool (nics s ! n) ! i) = Inr b"
    using assms(5) i q by (cases "put_frame raw len (pool (nics s ! n) ! i)") (auto simp: nic_handle_def Let_def)
  let ?s1 = "s\<lparr>nics := (nics s)[n := (nics s ! n)\<lparr>pool := (pool (nics s ! n))[i := b]\<rparr>]\<rparr>"
  have "length (b_frame b) = frame_size"
    using put_frame_ok [OF fr assms(3,4)] b fr assms(3,4) by auto
  then have "nic_ok ((nics s ! n)\<lparr>pool := (pool (nics s ! n))[i := b]\<rparr>)"
    using nc by (simp add: nic_ok_def pool_ok_update)
  from node_ok_nic_update [OF assms(1) this, of n] have ok: "node_ok ?s1" by simp
  have "fold (\<lambda>u r. and_then r (proto_update n i))
      (receivers (n_observers (nics s ! n)) (ntohs (frame_type (b_frame b)))) (Inr ?s1) = Inr t"
    using assms(5) i q b by (simp add: nic_handle_def Let_def notify_eq)
  from fold_proto_update_observers [OF ok _ i2 this] assms(2)
  show ?thesis by (simp add: map_update list_update_same_conv)
qed

lemma running_observers:
  assumes "node_ok s" and "op_ok oper s" and "still_runs oper g" and "stack_exec oper s = Inr t"
  shows "map n_observers (nics t) = map n_observers (nics s)"
proof (cases oper)
  case (Handle pos n raw len)
  with assms handle_observers [OF assms(1), of n len raw pos t] show ?thesis by simp
next
  case (Receive k out)
  with assms(4) receive_nics [of k out s] show ?thesis by (auto simp: and_then_Inr_iff)
next
  case (Send pos c m)
  let ?dst = "\<lparr>paddr = BROADCAST, port = port (c_address (comms s ! c))\<rparr>"
  have pn: "\<forall>n\<in>set (p_nics s). n < length (nics s)" using assms(1) by (simp add: node_ok_def wired_def)
  have "message_ok m" using assms(2) Send by simp
  then have sz: "m_size m \<le> length (m_data m)" "m_size m \<le> PROTOCOL_MTU"
    by (simp_all add: message_ok_def MAX_SIZE_def PROTOCOL_MTU_def MTU_def header_size_def)
  obtain u where "send_nics pos (c_address (comms s ! c)) ?dst (m_data m) (m_size m) (p_nics s) s = Inr u"
      "same_but_nics s u"
    using send_nics_spec [OF assms(1) pn _ sz, of ?dst pos "c_address (comms s ! c)"] by auto
  then show ?thesis
    using assms(4) Send by (simp add: comm_send_def proto_send_def Let_def same_but_nics_def)
qed (use assms(3) in simp_all)

lemma running_steady: "still_runs oper g \<Longrightarrow> steady oper"
  by (cases oper) simp_all

text \<open>A consumer that no communicator knows gets nothing.\<close>

lemma unrouted_empty:
  assumes "node_ok s" and "op_ok oper s" and "steady oper" and "stack_exec oper s = Inr t"
    and "k < length (consumers s)" and "\<forall>p. k \<notin> set (routing s p)" and "queue (consumers s ! k) = []"
  shows "queue (consumers t ! k) = []"
proof -
  have box: "boxes (mail_of s) ! k = []" using assms(5,7) by (simp add: box_mailbox mailbox_def contents_def)
  have l: "k < length (boxes (mail_of s))" using assms(5) by (simp add: mail_of_def)
  have none: "posts k (Frames junk fs) (mail_of s) = []" for junk fs
    using assms(6) by (auto simp: mail_of_def count_list_0_iff split: sum.splits)
  have "boxes (mail_exec (mail_label oper s) (mail_of s)) ! k = []"
  proof (cases "mail_label oper s")
    case (Frames junk fs)
    then show ?thesis using mail_frames_box [OF l, of junk fs] none [of junk fs] box by (simp del: posts.simps)
  next
    case (Take j)
    then show ?thesis using box l by (cases "j = k") (simp_all add: mail_take_def)
  qed (use box in simp_all)
  then have "boxes (mail_of t) ! k = []" using exec_mail [OF assms(1-4)] by simp
  moreover have "k < length (consumers t)"
    using exec_wiring [OF assms(1-4)] assms(5) by (simp add: same_wiring_def)
  ultimately show ?thesis by (simp add: box_mailbox mailbox_def contents_def)
qed

section \<open>The state during destruction\<close>

text \<open>
  A communicator's only subscriber is its own consumer, until that is stopped; a destroyed observer is
  stopped and its queue stays empty; destroyed communicators are out of the protocol and a NIC the
  protocol does not know has no observer.
\<close>

definition leaving :: "gone \<Rightarrow> node \<Rightarrow> bool" where
  "leaving g s \<longleftrightarrow> node_ok s \<and> length (consumers s) = length (comms s) \<and>
     (\<forall>c<length (comms s). (\<forall>(p, k)\<in>set (c_subscribers (comms s ! c)). k = c) \<and>
       (c \<in> set (g_stopped g) \<longrightarrow> c_subscribers (comms s ! c) = [])) \<and>
     (\<forall>k\<in>set (g_observers g). k < length (consumers s) \<and> k \<in> set (g_stopped g) \<and> queue (consumers s ! k) = []) \<and>
     (\<forall>(p, c)\<in>set (p_observers s). c \<notin> set (g_comms g)) \<and>
     (\<forall>n<length (nics s). n \<notin> set (p_nics s) \<longrightarrow> n_observers (nics s ! n) = []) \<and>
     (\<forall>n\<in>set (g_buffers g) \<union> set (g_detached g). n \<notin> set (p_nics s)) \<and>
     (g_protocol g \<longrightarrow> p_nics s = [] \<and> (\<forall>c<length (comms s). c \<in> set (g_comms g)))"

lemma leaving_subscribed:
  assumes "leaving g s" and "cm \<in> set (comms s)" and "(p, k) \<in> set (c_subscribers cm)"
  shows "k \<notin> set (g_observers g)"
proof -
  obtain c where c: "c < length (comms s)" "cm = comms s ! c" using assms(2) by (auto simp: in_set_conv_nth)
  then have "k = c" "c \<notin> set (g_stopped g)" using assms(1,3) by (auto simp: leaving_def)
  then show ?thesis using assms(1) by (auto simp: leaving_def)
qed

lemma leaving_unrouted:
  assumes "leaving g s" and "k \<in> set (g_observers g)"
  shows "k \<notin> set (routing s p)"
proof
  assume "k \<in> set (routing s p)"
  then obtain c q where c: "(p, c) \<in> set (p_observers s)" "(q, k) \<in> set (c_subscribers (comms s ! c))"
    by (auto simp: routing_def receivers_def)
  then have "c < length (comms s)" using assms(1) by (auto simp: leaving_def node_ok_def wired_def)
  then show False using leaving_subscribed [OF assms(1) _ c(2)] assms(2) by simp
qed

text \<open>What a thread that still runs does keeps it so, and touches nothing that is gone but a NIC's buffers.\<close>

lemma meanwhile_safe:
  assumes "leaving g s" and "still_runs oper g" and "op_ok oper s"
  shows "touches_gone oper g s \<longleftrightarrow> (\<exists>pos n raw len. oper = Handle pos n raw len \<and> n \<in> set (g_buffers g))"
proof (cases oper)
  case (Handle pos n raw len)
  note lv = assms(1) [unfolded leaving_def]
  have "n < length (nics s)" using assms(3) Handle by simp
  then have "g_protocol g \<Longrightarrow> n_observers (nics s ! n) = []" using lv by simp
  moreover have "\<not> list_ex (\<lambda>(p, c). c \<in> set (g_comms g)) (p_observers s)"
    using lv by (auto simp: list_ex_iff)
  moreover have "\<not> list_ex (\<lambda>cm. list_ex (\<lambda>(p, k). k \<in> set (g_observers g)) (c_subscribers cm)) (comms s)"
    using leaving_subscribed [OF assms(1)] by (auto simp: list_ex_iff)
  ultimately show ?thesis using Handle by auto
next
  case (Receive k out)
  with assms show ?thesis by (auto simp: leaving_def)
next
  case (Send pos c m)
  with assms show ?thesis by (auto simp: leaving_def list_ex_iff)
qed (use assms(2) in simp_all)

lemma meanwhile_leaving:
  assumes "leaving g s" and "still_runs oper g" and "op_ok oper s"
  obtains t where "stack_exec oper s = Inr t" and "leaving g t" and "same_wiring s t"
proof -
  note lv = assms(1) [unfolded leaving_def]
  have ok: "node_ok s" using lv by simp
  obtain t where t: "stack_exec oper s = Inr t" "node_ok t" using stack_exec_ok [OF ok assms(3)] by blast
  note st = running_steady [OF assms(2)]
  have w: "same_wiring s t" by (rule exec_wiring [OF ok assms(3) st t(1)])
  have obs: "map n_observers (nics t) = map n_observers (nics s)"
    by (rule running_observers [OF ok assms(3,2) t(1)])
  have q: "queue (consumers t ! k) = []" if "k \<in> set (g_observers g)" for k
  proof (rule unrouted_empty [OF ok assms(3) st t(1)])
    show "k < length (consumers s)" "queue (consumers s ! k) = []" using that lv by auto
    show "\<forall>p. k \<notin> set (routing s p)" using leaving_unrouted [OF assms(1) that] by simp
  qed
  have "n_observers (nics t ! n) = []" if "n < length (nics t)" "n \<notin> set (p_nics t)" for n
    using that w map_nth_eq [OF obs, of n] lv by (simp add: same_wiring_def)
  then have "leaving g t" using w t(2) q lv by (auto simp: leaving_def same_wiring_def)
  with t(1) w show ?thesis using that by blast
qed

section \<open>One destructor\<close>

text \<open>
  In which order destructors may come: with \<open>m\<close> communicators; \<open>loose\<close> are the NICs whose buffers
  may go before their engine's thread.
\<close>

fun may_go :: "nat set \<Rightarrow> nat \<Rightarrow> exit_op \<Rightarrow> gone \<Rightarrow> bool" where
  "may_go loose m (Unsubscribe c k) g \<longleftrightarrow> k = c \<and> c < m \<and> c \<notin> set (g_comms g) \<and> c \<notin> set (g_observers g)"
| "may_go loose m (Observer_Gone k) g \<longleftrightarrow> k < m \<and> k \<in> set (g_stopped g)"
| "may_go loose m (Comm_Gone c) g \<longleftrightarrow> \<not> g_protocol g"
| "may_go loose m (Nic_Detached n) g \<longleftrightarrow> \<not> g_protocol g \<and> n \<notin> set (g_buffers g)"
| "may_go loose m Protocol_Gone g \<longleftrightarrow> (\<forall>c<m. c \<in> set (g_comms g))"
| "may_go loose m (Engine_Joined n) g \<longleftrightarrow> True"
| "may_go loose m (Engine_Bare n) g \<longleftrightarrow> True"
| "may_go loose m (Buffers_Gone n) g \<longleftrightarrow> (g_protocol g \<or> n \<in> set (g_detached g)) \<and> (n \<in> loose \<or> n \<in> set (g_joined g))"

lemma proto_destroy_nics:
  "length (nics (proto_destroy s)) = length (nics s)"
  "n < length (nics s) \<Longrightarrow> n_observers (nics (proto_destroy s) ! n) =
     (if n \<in> set (p_nics s) then [] else n_observers (nics s ! n))"
  "node_ok s \<Longrightarrow> node_ok (proto_destroy s)"
  "comms (proto_destroy s) = comms s" "consumers (proto_destroy s) = consumers s"
proof -
  let ?f = "\<lambda>n s. s\<lparr>nics := (nics s)[n := (nics s ! n)\<lparr>n_observers := detach () PROTO (n_observers (nics s ! n))\<rparr>]\<rparr>"
  have f: "length (nics (fold ?f ns t)) = length (nics t) \<and> comms (fold ?f ns t) = comms t \<and>
      consumers (fold ?f ns t) = consumers t \<and>
      (n < length (nics t) \<longrightarrow> n_observers (nics (fold ?f ns t) ! n) = (if n \<in> set ns then [] else n_observers (nics t ! n)))"
    for ns and t :: node
    by (induction ns arbitrary: t) (simp_all add: nth_list_update detach_def ol_remove_def)
  have ok: "node_ok (fold ?f ns t)" if "node_ok t" "\<forall>n\<in>set ns. n < length (nics t)" for ns and t :: node
    using that by (induction ns arbitrary: t) (simp_all add: nic_observers_ok)
  show "length (nics (proto_destroy s)) = length (nics s)" "comms (proto_destroy s) = comms s"
    "consumers (proto_destroy s) = consumers s"
    using f [of "p_nics s" s] by (simp_all add: proto_destroy_def)
  show "n < length (nics s) \<Longrightarrow> n_observers (nics (proto_destroy s) ! n) =
     (if n \<in> set (p_nics s) then [] else n_observers (nics s ! n))"
    using f [of "p_nics s" s] by (simp add: proto_destroy_def)
  assume "node_ok s"
  moreover from this have "\<forall>n\<in>set (p_nics s). n < length (nics s)" by (simp add: node_ok_def wired_def)
  ultimately have "node_ok (fold ?f (p_nics s) s)" by (rule ok)
  then show "node_ok (proto_destroy s)"
    by (simp add: proto_destroy_def node_ok_def heap_ok_def wired_def queued_def)
qed

lemma detach_leaving:
  assumes "leaving g s"
  shows "leaving (g\<lparr>g_detached := n # g_detached g\<rparr>) (proto_detach_nic n s)"
proof -
  let ?t = "proto_detach_nic n s"
  note lv = assms [unfolded leaving_def]
  have ok: "node_ok s" using lv by simp
  have f: "comms ?t = comms s" "consumers ?t = consumers s" "p_observers ?t = p_observers s"
    "length (nics ?t) = length (nics s)" "set (p_nics ?t) = set (p_nics s) - {n}"
    by (auto simp: proto_detach_nic_def)
  have "node_ok ?t"
  proof (cases "n < length (nics s)")
    case True
    then show ?thesis by (rule detach_nic_ok [OF ok])
  next
    case False
    then have "(nics s)[n := nc] = nics s" for nc by (intro list_update_beyond) simp
    then show ?thesis using ok by (auto simp: proto_detach_nic_def node_ok_def heap_ok_def wired_def queued_def)
  qed
  moreover have "n_observers (nics ?t ! j) = []" if "j < length (nics s)" "j = n \<or> j \<notin> set (p_nics s)" for j
    using that lv by (cases "j = n") (simp_all add: proto_detach_nic_def detach_def ol_remove_def)
  moreover have "p_nics s = [] \<Longrightarrow> p_nics ?t = []" by (simp add: proto_detach_nic_def)
  ultimately show ?thesis using lv by (auto simp: leaving_def f)
qed

lemma unsubscribe_leaving:
  assumes "leaving g s" and "c < length (comms s)" and "c \<notin> set (g_observers g)"
  shows "leaving (g\<lparr>g_stopped := c # g_stopped g\<rparr>) (comm_unsubscribe c c s)"
proof -
  let ?t = "comm_unsubscribe c c s"
  note lv = assms(1) [unfolded leaving_def]
  have ok: "node_ok ?t" using unsubscribe_ok [OF _ assms(2)] lv by simp
  have f: "consumers ?t = consumers s" "p_observers ?t = p_observers s" "nics ?t = nics s" "p_nics ?t = p_nics s"
    "length (comms ?t) = length (comms s)" by (simp_all add: comm_unsubscribe_def)
  have "c_subscribers (comms ?t ! c) = []"
    using lv assms(2) by (fastforce simp: comm_unsubscribe_def detach_def ol_remove_def filter_empty_conv)
  moreover have "comms ?t ! d = comms s ! d" if "d \<noteq> c" for d
    using that by (simp add: comm_unsubscribe_def)
  ultimately have "(\<forall>(p, k)\<in>set (c_subscribers (comms ?t ! d)). k = d) \<and>
      (d \<in> set (c # g_stopped g) \<longrightarrow> c_subscribers (comms ?t ! d) = [])" if "d < length (comms s)" for d
    using that lv by (cases "d = c") simp_all
  then show ?thesis using lv ok by (auto simp: leaving_def f)
qed

lemma line_leaving:
  assumes "leaving g s" and "may_go loose (length (comms s)) d g"
  obtains t where "exit_line d g s = Inr t" and "leaving (gone_after d g) t" and "length (comms t) = length (comms s)"
    and "length (nics t) = length (nics s)"
proof -
  note lv = assms(1) [unfolded leaving_def]
  have ok: "node_ok s" using lv by simp
  show ?thesis
  proof (cases d)
    case (Unsubscribe c k)
    then have c: "k = c" "c < length (comms s)" "c \<notin> set (g_comms g)" "c \<notin> set (g_observers g)" using assms(2) by simp_all
    let ?t = "comm_unsubscribe c c s"
    have "leaving (gone_after d g) ?t" using unsubscribe_leaving [OF assms(1) c(2,4)] c(1) Unsubscribe by simp
    then show ?thesis using that [of ?t] c Unsubscribe by (simp add: comm_unsubscribe_def)
  next
    case (Observer_Gone k)
    then have k: "k < length (consumers s)" "k \<in> set (g_stopped g)" using assms(2) lv by simp_all
    obtain t where t: "observer_destroy k s = Inr t" "node_ok t" "same_wiring s t" "queue (consumers t ! k) = []"
        "\<And>j. j \<noteq> k \<Longrightarrow> consumers t ! j = consumers s ! j" "nics t = nics s"
      by (rule observer_destroy_ok [OF ok k(1)]) blast
    have "queue (consumers t ! j) = []" if "j \<in> set (g_observers g)" for j
      using that t(4) t(5) [of j] lv by (cases "j = k") simp_all
    then have "leaving (gone_after d g) t"
      using lv k t(2,3,4,6) Observer_Gone by (auto simp: leaving_def same_wiring_def)
    then show ?thesis using that t(1,3,6) Observer_Gone by (simp add: same_wiring_def)
  next
    case (Comm_Gone c)
    let ?t = "comm_destroy c s"
    have "\<forall>(p, e)\<in>set (p_observers ?t). e \<noteq> c \<and> e \<notin> set (g_comms g)"
      using comm_destroy_observers [of _ _ c s] lv by fastforce
    then have "leaving (gone_after d g) ?t"
      using lv comm_destroy_ok [OF ok] Comm_Gone assms(2) by (auto simp: leaving_def comm_destroy_keeps)
    then show ?thesis using that [of ?t] Comm_Gone assms(2) by (simp add: comm_destroy_keeps)
  next
    case (Nic_Detached n)
    let ?t = "proto_detach_nic n s"
    have "leaving (gone_after d g) ?t" using detach_leaving [OF assms(1), where n = n] Nic_Detached by simp
    then show ?thesis using that [of ?t] Nic_Detached assms(2) by (simp add: proto_detach_nic_def)
  next
    case Protocol_Gone
    let ?t = "proto_destroy s"
    have "leaving (gone_after d g) ?t"
      using lv Protocol_Gone assms(2) proto_destroy_nics [where s = s]
      by (auto simp: leaving_def proto_destroy_keeps)
    moreover have "\<not> list_ex (\<lambda>n. n \<in> set (g_buffers g)) (p_nics s)" using lv by (auto simp: list_ex_iff)
    ultimately show ?thesis using that [of ?t] Protocol_Gone proto_destroy_nics(1,4) [of s] by (simp add: proto_exit_def)
  next
    case (Engine_Joined n)
    then have "leaving (gone_after d g) s" using lv by (auto simp: leaving_def)
    then show ?thesis using that [of s] Engine_Joined by simp
  next
    case (Buffers_Gone n)
    then have "n \<notin> set (p_nics s)" using lv assms(2) by auto
    then have "leaving (gone_after d g) s" using lv Buffers_Gone by (auto simp: leaving_def)
    then show ?thesis using that [of s] Buffers_Gone by simp
  next
    case (Engine_Bare n)
    then have "leaving (gone_after d g) s" using lv by (auto simp: leaving_def)
    then show ?thesis using that [of s] Engine_Bare by simp
  qed
qed

section \<open>All of them\<close>

fun orderly :: "nat set \<Rightarrow> nat \<Rightarrow> exit_op list \<Rightarrow> gone \<Rightarrow> bool" where
  "orderly loose m [] g \<longleftrightarrow> (\<forall>k<m. k \<in> set (g_observers g)) \<and> g_protocol g"
| "orderly loose m (d # ds) g \<longleftrightarrow> may_go loose m d g \<and> orderly loose m ds (gone_after d g)"

definition exit_ok :: "nat set \<Rightarrow> exiting \<Rightarrow> bool" where
  "exit_ok loose x \<longleftrightarrow> leaving (x_gone x) (x_node x) \<and>
     orderly loose (length (comms (x_node x))) (x_rest x) (x_gone x) \<and>
     (\<forall>n\<in>set (g_buffers (x_gone x)). n \<in> loose \<or> n \<in> set (g_joined (x_gone x)))"

lemma destroy_goes_on:
  assumes "exit_ok loose x" and "x_rest x = d # ds"
  obtains t where "exit_exec x Destroy = Some (Inr \<lparr>x_node = t, x_gone = gone_after d (x_gone x), x_rest = ds\<rparr>)"
    and "exit_ok loose \<lparr>x_node = t, x_gone = gone_after d (x_gone x), x_rest = ds\<rparr>"
    and "length (nics t) = length (nics (x_node x))"
proof -
  have o: "may_go loose (length (comms (x_node x))) d (x_gone x)"
    "orderly loose (length (comms (x_node x))) ds (gone_after d (x_gone x))"
    using assms by (simp_all add: exit_ok_def)
  have "leaving (x_gone x) (x_node x)" using assms(1) by (simp add: exit_ok_def)
  from line_leaving [OF this o(1)] obtain t where t: "exit_line d (x_gone x) (x_node x) = Inr t"
      "leaving (gone_after d (x_gone x)) t" "length (comms t) = length (comms (x_node x))"
      "length (nics t) = length (nics (x_node x))" .
  have "\<forall>n\<in>set (g_buffers (gone_after d (x_gone x))). n \<in> loose \<or> n \<in> set (g_joined (gone_after d (x_gone x)))"
    using assms(1) o(1) by (cases d) (auto simp: exit_ok_def)
  with t o(2) assms(2) show ?thesis by (intro that [of t]) (simp_all add: exit_ok_def)
qed

lemma exit_exec_result:
  assumes "exit_ok loose x" and "exit_exec x a = Some r"
  shows "case r of Inr y \<Rightarrow> exit_ok loose y
    | Inl e \<Rightarrow> e = Use_After_Free \<and> (\<exists>pos n raw len. a = Meanwhile (Handle pos n raw len) \<and> n \<in> loose \<and>
        n \<in> set (g_buffers (x_gone x)) \<and> n \<notin> set (g_bare (x_gone x)))"
proof (cases a)
  case Destroy
  then obtain d ds where "x_rest x = d # ds" using assms(2) by (cases "x_rest x") simp_all
  from destroy_goes_on [OF assms(1) this] show ?thesis using assms(2) Destroy by force
next
  case (Meanwhile oper)
  then have c: "still_runs oper (x_gone x)" "op_ok oper (x_node x)" using assms(2) by (auto split: if_splits)
  have lv: "leaving (x_gone x) (x_node x)" using assms(1) by (simp add: exit_ok_def)
  note touch = meanwhile_safe [OF lv c]
  consider "only_prints oper (x_gone x)"
    | "\<not> only_prints oper (x_gone x)" "touches_gone oper (x_gone x) (x_node x)"
    | "\<not> only_prints oper (x_gone x)" "\<not> touches_gone oper (x_gone x) (x_node x)" by blast
  then show ?thesis
  proof cases
    case 1
    then have "r = Inr x" using assms(2) Meanwhile c by simp
    then show ?thesis using assms(1) by simp
  next
    case 2
    then obtain pos n raw len where h: "oper = Handle pos n raw len" "n \<in> set (g_buffers (x_gone x))"
      using touch by blast
    then have "n \<notin> set (g_bare (x_gone x))" "n \<in> loose" using 2(1) c(1) assms(1) by (auto simp: exit_ok_def)
    then show ?thesis using assms(2) Meanwhile c 2 h by auto
  next
    case 3
    obtain t where t: "stack_exec oper (x_node x) = Inr t" "leaving (x_gone x) t" "same_wiring (x_node x) t"
      by (rule meanwhile_leaving [OF lv c])
    then have "r = Inr (x\<lparr>x_node := t\<rparr>)" using assms(2) Meanwhile c 3 by simp
    then show ?thesis using t(2,3) assms(1) by (simp add: exit_ok_def same_wiring_def)
  qed
qed

lemma exit_run_result:
  assumes "exit_ok loose x" and "exit_run acts x = Some r"
  shows "case r of Inr y \<Rightarrow> exit_ok loose y
    | Inl e \<Rightarrow> e = Use_After_Free \<and> (\<exists>pre pos n raw len post y. acts = pre @ Meanwhile (Handle pos n raw len) # post \<and>
        exit_run pre x = Some (Inr y) \<and> n \<in> loose \<and> n \<in> set (g_buffers (x_gone y)) \<and> n \<notin> set (g_bare (x_gone y)))"
  using assms
proof (induction acts arbitrary: x)
  case Nil
  then show ?case by auto
next
  case (Cons a acts)
  obtain q where q: "exit_exec x a = Some q" using Cons.prems(2) by (cases "exit_exec x a") simp_all
  note one = exit_exec_result [OF Cons.prems(1) q]
  show ?case
  proof (cases q)
    case (Inl e)
    then have "r = Inl e" using Cons.prems(2) q by simp
    obtain pos n raw len where "a = Meanwhile (Handle pos n raw len)" "e = Use_After_Free" "n \<in> loose"
        "n \<in> set (g_buffers (x_gone x))" "n \<notin> set (g_bare (x_gone x))"
      using one Inl by auto
    then have "\<exists>pre pos n raw len post y. a # acts = pre @ Meanwhile (Handle pos n raw len) # post \<and>
        exit_run pre x = Some (Inr y) \<and> n \<in> loose \<and> n \<in> set (g_buffers (x_gone y)) \<and> n \<notin> set (g_bare (x_gone y))"
      by (metis append_Nil exit_run.simps(1))
    then show ?thesis using \<open>r = Inl e\<close> \<open>e = Use_After_Free\<close> by simp
  next
    case (Inr y)
    then have ok: "exit_ok loose y" and r: "exit_run acts y = Some r" using one Cons.prems(2) q by simp_all
    show ?thesis
    proof (cases r)
      case (Inl e)
      with Cons.IH [OF ok r] obtain pre pos n raw len post z where
        "acts = pre @ Meanwhile (Handle pos n raw len) # post" "exit_run pre y = Some (Inr z)" "n \<in> loose"
        "n \<in> set (g_buffers (x_gone z))" "n \<notin> set (g_bare (x_gone z))" "e = Use_After_Free" by auto
      moreover from this have "exit_run (a # pre) x = Some (Inr z)" using q Inr by simp
      ultimately have "\<exists>pre pos n raw len post y. a # acts = pre @ Meanwhile (Handle pos n raw len) # post \<and>
          exit_run pre x = Some (Inr y) \<and> n \<in> loose \<and> n \<in> set (g_buffers (x_gone y)) \<and> n \<notin> set (g_bare (x_gone y))"
        by (metis append_Cons)
      then show ?thesis using Inl \<open>e = Use_After_Free\<close> by simp
    next
      case r2: (Inr z)
      with Cons.IH [OF ok r] show ?thesis by simp
    qed
  qed
qed

lemma exit_end:
  assumes "exit_ok loose x" and "x_rest x = []"
  shows "heap (x_node x) = Map.empty" and "p_observers (x_node x) = []" and "p_nics (x_node x) = []"
proof -
  let ?s = "x_node x"
  have lv: "leaving (x_gone x) ?s" using assms(1) by (simp add: exit_ok_def)
  have e: "\<forall>k<length (comms ?s). k \<in> set (g_observers (x_gone x))" "g_protocol (x_gone x)"
    using assms by (simp_all add: exit_ok_def)
  note lv' = lv [unfolded leaving_def]
  have "c < length (comms ?s)" if "(p, c) \<in> set (p_observers ?s)" for p c
    using that lv' by (auto simp: node_ok_def wired_def)
  then have "gone_up_to {..<length (comms ?s)} ?s"
    using lv' e by (fastforce simp: gone_up_to_def)
  from all_gone [OF _ this] lv' show "heap ?s = Map.empty" "p_observers ?s = []" by simp_all
  show "p_nics ?s = []" using lv' e(2) by simp
qed

section \<open>The order in the program\<close>

lemma orderly_unsubscribes:
  "\<forall>c\<in>set cs. c < m \<and> c \<notin> set (g_comms g) \<and> c \<notin> set (g_observers g) \<Longrightarrow>
     orderly loose m (map (\<lambda>c. Unsubscribe c c) cs @ ds) g \<longleftrightarrow>
     orderly loose m ds (g\<lparr>g_stopped := rev cs @ g_stopped g\<rparr>)"
  by (induction cs arbitrary: g) simp_all

lemma orderly_smart_datas:
  "\<forall>c\<in>set cs. c < m \<and> c \<in> set (g_stopped g) \<Longrightarrow> \<not> g_protocol g \<Longrightarrow>
     orderly loose m (concat (map (\<lambda>c. [Comm_Gone c, Observer_Gone c]) cs) @ ds) g \<longleftrightarrow>
     orderly loose m ds (g\<lparr>g_comms := rev cs @ g_comms g, g_observers := rev cs @ g_observers g\<rparr>)"
  by (induction cs arbitrary: g) simp_all

lemma component_orderly: "orderly {0} m (component_exit m) nothing_gone"
  by (simp add: component_exit_def orderly_unsubscribes orderly_smart_datas shm_nic_exit_def nothing_gone_def)

lemma time_client_orderly: "orderly {0} 1 time_client_exit nothing_gone"
  by (simp add: time_client_exit_def component_exit_def endpoint_gone_def raw_nic_exit_def shm_nic_exit_def
      nothing_gone_def)

lemma rsu_orderly: "orderly {} 1 rsu_exit nothing_gone"
  by (simp add: rsu_exit_def endpoint_gone_def raw_nic_exit_def nothing_gone_def)

text \<open>The processes as they are built: each consumer on its own communicator, all NICs attached.\<close>

definition own_consumers :: "node \<Rightarrow> bool" where
  "own_consumers s \<longleftrightarrow> length (consumers s) = length (comms s) \<and>
     (\<forall>c<length (comms s). \<forall>(p, k)\<in>set (c_subscribers (comms s ! c)). k = c) \<and>
     (\<forall>n<length (nics s). n \<in> set (p_nics s))"

lemma smart_data_start_own: "own_consumers s \<Longrightarrow> own_consumers (smart_data_start mac sd s)"
  by (auto simp: own_consumers_def smart_data_start_def endpoint_create_def comm_subscribe_def comm_create_def
      proto_attach_def attach_def nth_append list_update_append less_Suc_eq)

lemma component_boot_own: "own_consumers (component_boot mac c)"
proof -
  have "own_consumers s \<Longrightarrow> own_consumers (fold (smart_data_start mac) sds s)" for sds s
    by (induction sds arbitrary: s) (simp_all add: smart_data_start_own)
  moreover have "own_consumers (proto_new 0 (process [mac]))"
    by (simp add: own_consumers_def proto_new_def proto_attach_nic_def process_def)
  ultimately show ?thesis by (simp add: component_boot_def)
qed

lemma child_boot_own: "own_consumers (child_boot mac rs_mac c)"
  using component_boot_own [of mac c]
  by (auto simp: child_boot_def own_consumers_def vehicle_client_fields less_Suc_eq)

lemma child_boot_comms:
  "c \<noteq> Time_Client \<Longrightarrow> length (comms (child_boot mac rs_mac c)) = length (add_smart_datas c)"
  "length (comms (child_boot mac rs_mac Time_Client)) = 1"
  using sds_wiring [of "proto_new 0 (process [mac])" mac "add_smart_datas c"]
  by (simp_all add: child_boot_def component_boot_def vehicle_client_fields proto_new_def proto_attach_nic_def
      process_def)

lemma exit_start_ok:
  assumes "node_ok b" and "own_consumers b" and "run_ok ops b" and "list_all steady ops" and "stack_run ops b = Inr s"
    and "orderly loose (length (comms b)) ds nothing_gone"
  shows "exit_ok loose (exit_start ds s)"
proof -
  have s: "node_ok s" "same_wiring b s" using run_wiring [OF assms(1,3,4,5)] by simp_all
  with assms(2) have "leaving nothing_gone s"
    by (auto simp: leaving_def nothing_gone_def own_consumers_def same_wiring_def)
  with s(2) assms(6) show ?thesis by (simp add: exit_ok_def exit_start_def same_wiring_def nothing_gone_def)
qed

lemma child_exit_ok:
  assumes "length mac = 6" and "length rs_mac = 6" and "run_ok ops (child_boot mac rs_mac c)"
    and "list_all steady ops"
  obtains s where "stack_run ops (child_boot mac rs_mac c) = Inr s" and "exit_ok {0} (exit_start (child_exit c) s)"
proof -
  note ok = child_boot_ok(1) [OF assms(1,2), of c]
  obtain s where s: "stack_run ops (child_boot mac rs_mac c) = Inr s" using stack_run_ok [OF ok assms(3)] by auto
  have "orderly {0} (length (comms (child_boot mac rs_mac c))) (child_exit c) nothing_gone"
    using child_boot_comms(1) [of c mac rs_mac] child_boot_comms(2) [of mac rs_mac] time_client_orderly component_orderly
    by (cases "c = Time_Client") (simp_all add: child_exit_def)
  from exit_start_ok [OF ok child_boot_own assms(3,4) s this] s show ?thesis using that by blast
qed

section \<open>How children end\<close>

text \<open>
  C12: a child ends cleanly, whatever it did and whatever its threads still do between its destructors -
  frames arrive, SmartData take messages, periodic threads send -, with one exception: the destructors
  are never stopped by a fault; once all have run every message it received is deleted, nothing observes
  its protocol and the protocol no NIC; and no thread uses an object that is gone, unless the thread of
  the shared-memory engine begins to handle a frame between the destruction of its NIC's buffers and the
  beginning of \<open>~ShmEngine\<close>, which is then a use after free (\<open>child_exit_can_fault\<close>, and step by
  step \<open>shm_close_unsafe\<close>). Frames are handled as wholes here: that a destructor under a walk of
  \<open>notify\<close> that has begun is another fault is \<open>detach_under_walk_faults\<close>.
\<close>

theorem child_exits_clean:
  assumes "length mac = 6" and "length rs_mac = 6" and "run_ok ops (child_boot mac rs_mac c)"
    and "list_all steady ops" and "child_run mac rs_mac c ops acts = Some r"
  shows "case r of
      Inr x \<Rightarrow> if x_rest x = [] then heap (x_node x) = Map.empty \<and> p_observers (x_node x) = [] \<and> p_nics (x_node x) = []
        else \<exists>y. exit_exec x Destroy = Some (Inr y)
    | Inl e \<Rightarrow> e = Use_After_Free \<and> (\<exists>pre pos raw len post y. acts = pre @ Meanwhile (Handle pos 0 raw len) # post \<and>
        child_run mac rs_mac c ops pre = Some (Inr y) \<and>
        0 \<in> set (g_buffers (x_gone y)) \<and> 0 \<notin> set (g_bare (x_gone y)))"
proof -
  obtain s where s: "stack_run ops (child_boot mac rs_mac c) = Inr s" "exit_ok {0} (exit_start (child_exit c) s)"
    by (rule child_exit_ok [OF assms(1-4)])
  have run: "child_run mac rs_mac c ops as = exit_run as (exit_start (child_exit c) s)" for as
    by (simp add: child_run_def s(1))
  note result = exit_run_result [OF s(2) assms(5) [unfolded run]]
  show ?thesis
  proof (cases r)
    case (Inl e)
    with result obtain pre pos raw len post y where "e = Use_After_Free"
        "acts = pre @ Meanwhile (Handle pos 0 raw len) # post" "child_run mac rs_mac c ops pre = Some (Inr y)"
        "0 \<in> set (g_buffers (x_gone y))" "0 \<notin> set (g_bare (x_gone y))"
      unfolding run by auto
    then show ?thesis using Inl by simp blast
  next
    case (Inr x)
    then have ok: "exit_ok {0} x" using result by simp
    show ?thesis
    proof (cases "x_rest x")
      case Nil
      then show ?thesis using exit_end [OF ok] Inr by simp
    next
      case (Cons d ds)
      then show ?thesis using destroy_goes_on [OF ok Cons] Inr by auto
    qed
  qed
qed

lemma destroys:
  "exit_ok loose x \<Longrightarrow> x_rest x = ds @ rest \<Longrightarrow>
     \<exists>y. exit_run (map (\<lambda>d. Destroy) ds @ acts) x = exit_run acts y \<and> exit_ok loose y \<and> x_rest y = rest \<and>
       x_gone y = fold gone_after ds (x_gone x) \<and> length (nics (x_node y)) = length (nics (x_node x))"
proof (induction ds arbitrary: x)
  case Nil
  then show ?case by auto
next
  case (Cons d ds)
  then have "x_rest x = d # (ds @ rest)" by simp
  from destroy_goes_on [OF Cons.prems(1) this] obtain t where
    t: "exit_exec x Destroy = Some (Inr \<lparr>x_node = t, x_gone = gone_after d (x_gone x), x_rest = ds @ rest\<rparr>)"
      "exit_ok loose \<lparr>x_node = t, x_gone = gone_after d (x_gone x), x_rest = ds @ rest\<rparr>"
      "length (nics t) = length (nics (x_node x))" .
  from Cons.IH [OF t(2)] t(1,3) show ?case by simp
qed

theorem child_exits_clean_witness:
  "\<exists>x. child_run some_mac some_mac Comp_A [Set_Quadrant 1] (map (\<lambda>d. Destroy) (child_exit Comp_A)) = Some (Inr x) \<and>
     heap (x_node x) = Map.empty"
proof -
  have l: "length some_mac = 6" by (simp add: some_mac_def)
  obtain s where s: "stack_run [Set_Quadrant 1] (child_boot some_mac some_mac Comp_A) = Inr s"
      "exit_ok {0} (exit_start (child_exit Comp_A) s)"
    by (rule child_exit_ok [OF l l, of "[Set_Quadrant 1]" Comp_A]) simp_all
  have run: "child_run some_mac some_mac Comp_A [Set_Quadrant 1] as = exit_run as (exit_start (child_exit Comp_A) s)"
    for as unfolding child_run_def s(1) by simp
  from destroys [OF s(2), of "child_exit Comp_A" "[]" "[]"]
  obtain x where x: "child_run some_mac some_mac Comp_A [Set_Quadrant 1] (map (\<lambda>d. Destroy) (child_exit Comp_A)) =
      Some (Inr x)" "x_rest x = []"
    unfolding run by (auto simp: exit_start_def)
  from child_exits_clean [OF l l _ _ x(1)] x show ?thesis by simp
qed

text \<open>The exception is real: every child has a run in which its last frame is handled in destroyed buffers.\<close>

lemma exit_steps_nic:
  "\<forall>d\<in>set ds. \<forall>n. d \<noteq> Engine_Joined n \<and> d \<noteq> Engine_Bare n \<Longrightarrow>
     g_joined (fold gone_after ds g) = g_joined g \<and> g_bare (fold gone_after ds g) = g_bare g"
proof (induction ds arbitrary: g)
  case (Cons d ds)
  then show ?case by (cases d) simp_all
qed simp

theorem child_exit_can_fault:
  assumes "length mac = 6" and "length rs_mac = 6"
  shows "\<exists>acts. child_run mac rs_mac c [] acts = Some (Inl Use_After_Free)"
proof -
  have "\<exists>ds. child_exit c = ds @ shm_nic_exit 0 \<and> 0 \<notin> set (g_joined (fold gone_after ds nothing_gone)) \<and>
      0 \<notin> set (g_bare (fold gone_after ds nothing_gone))"
  proof (cases "c = Time_Client")
    case True
    then show ?thesis
      by (intro exI [of _ "Nic_Detached 1 # endpoint_gone @ raw_nic_exit 1 @ [Protocol_Gone]"])
        (simp add: child_exit_def time_client_exit_def component_exit_def shm_nic_exit_def endpoint_gone_def
          raw_nic_exit_def nothing_gone_def)
  next
    case False
    let ?n = "length (add_smart_datas c)"
    let ?ds = "map (\<lambda>c. Unsubscribe c c) [0..<?n] @ concat (map (\<lambda>c. [Comm_Gone c, Observer_Gone c]) [0..<?n]) @ [Protocol_Gone]"
    have "g_joined (fold gone_after ?ds nothing_gone) = g_joined nothing_gone \<and>
        g_bare (fold gone_after ?ds nothing_gone) = g_bare nothing_gone" by (rule exit_steps_nic) auto
    then show ?thesis
      using False by (intro exI [of _ ?ds]) (simp add: child_exit_def component_exit_def shm_nic_exit_def nothing_gone_def)
  qed
  then obtain ds where ds: "child_exit c = (ds @ [Buffers_Gone 0]) @ [Engine_Bare 0, Engine_Joined 0]"
    "0 \<notin> set (g_joined (fold gone_after ds nothing_gone))" "0 \<notin> set (g_bare (fold gone_after ds nothing_gone))"
    by (auto simp: shm_nic_exit_def)
  let ?last = "[Meanwhile (Handle 0 0 [] 0)]"
  let ?b = "child_boot mac rs_mac c"
  obtain s where "stack_run [] ?b = Inr s" "exit_ok {0} (exit_start (child_exit c) s)"
    by (rule child_exit_ok [OF assms, of "[]" c]) simp_all
  then have ok: "exit_ok {0} (exit_start (child_exit c) ?b)" by simp
  from destroys [OF ok, of "ds @ [Buffers_Gone 0]" "[Engine_Bare 0, Engine_Joined 0]" ?last] ds(1)
  obtain y where y: "exit_run (map (\<lambda>d. Destroy) (ds @ [Buffers_Gone 0]) @ ?last) (exit_start (child_exit c) ?b) =
        exit_run ?last y" "x_gone y = fold gone_after (ds @ [Buffers_Gone 0]) nothing_gone"
      "length (nics (x_node y)) = length (nics ?b)"
    by (auto simp: exit_start_def simp del: exit_run.simps)
  have "0 < length (nics (x_node y))" using child_boot_ok(2) [OF assms] y(3) by simp
  then have "exit_run ?last y = Some (Inl Use_After_Free)" using ds(2,3) y(2) by simp
  with y(1) have "child_run mac rs_mac c [] (map (\<lambda>d. Destroy) (ds @ [Buffers_Gone 0]) @ ?last) =
      Some (Inl Use_After_Free)" by (simp add: child_run_def del: exit_run.simps)
  then show ?thesis by blast
qed

text \<open>The RSU, whose engine is joined before anything of its NIC goes, has no such exception.\<close>

theorem rsu_exits_clean:
  assumes "length mac = 6" and "run_ok ops (rsu_boot mac q)" and "list_all steady ops"
    and "stack_run ops (rsu_boot mac q) = Inr s" and "exit_run acts (exit_start rsu_exit s) = Some r"
  shows "\<exists>x. r = Inr x \<and> (x_rest x = [] \<longrightarrow>
    heap (x_node x) = Map.empty \<and> p_observers (x_node x) = [] \<and> p_nics (x_node x) = [])"
proof -
  have b: "node_ok (rsu_boot mac q)" unfolding rsu_boot_def by (intro set_quadrant_ok boot_ok assms(1))
  have own: "own_consumers (rsu_boot mac q)" and one: "length (comms (rsu_boot mac q)) = 1"
    by (auto simp: own_consumers_def rsu_boot_def set_quadrant_def boot_fields)
  have "exit_ok {} (exit_start rsu_exit s)"
    by (rule exit_start_ok [OF b own assms(2-4)]) (simp only: one rsu_orderly)
  from exit_run_result [OF this assms(5)] obtain x where "r = Inr x" "exit_ok {} x" by (cases r) auto
  with exit_end show ?thesis by blast
qed

theorem rsu_exits_clean_witness:
  "\<exists>x. exit_run (map (\<lambda>d. Destroy) rsu_exit) (exit_start rsu_exit (rsu_boot some_mac 2)) = Some (Inr x) \<and>
     heap (x_node x) = Map.empty"
proof -
  have l: "length some_mac = 6" by (simp add: some_mac_def)
  have b: "node_ok (rsu_boot some_mac 2)" unfolding rsu_boot_def by (intro set_quadrant_ok boot_ok l)
  have own: "own_consumers (rsu_boot some_mac 2)" and one: "length (comms (rsu_boot some_mac 2)) = 1"
    by (auto simp: own_consumers_def rsu_boot_def set_quadrant_def boot_fields)
  have "exit_ok {} (exit_start rsu_exit (rsu_boot some_mac 2))"
    by (rule exit_start_ok [OF b own, of "[]"]) (simp_all add: one rsu_orderly [simplified])
  from destroys [OF this, of rsu_exit "[]" "[]"]
  obtain x where x: "exit_run (map (\<lambda>d. Destroy) rsu_exit) (exit_start rsu_exit (rsu_boot some_mac 2)) = Some (Inr x)"
      "x_rest x = []" by (auto simp: exit_start_def)
  from rsu_exits_clean [OF l _ _ _ x(1), of "[]"] x show ?thesis by simp
qed

end
