(* ===== verification/Position_Module.thy ===== *)
theory Position_Module
  imports Vehicle
begin

text \<open>
  The kernel module that decides where a vehicle is (\<open>kernel/position.c\<close>): its parameter, its
  timer, the \<open>/proc\<close> entry it registers, and what \<open>Position::quadrant\<close> makes of it in
  the processes of the vehicle.
\<close>

section \<open>The module\<close>

text \<open>
  The static variables: the quadrant, whether the entry is registered, the time at which the timer
  is to expire. What the kernel supplies is an argument: \<open>msecs_to_jiffies\<close>, the time in jiffies,
  the random number, whether \<open>proc_create\<close> succeeded.
\<close>

record position_module =
  quadrante :: byte
  proc_entry :: bool
  meu_timer :: "nat option"

definition INTERVALO_MS :: nat where "INTERVALO_MS = 4000"
definition ENOMEM :: int where "ENOMEM = 12"
definition EFAULT :: int where "EFAULT = 14"
definition EINVAL :: int where "EINVAL = 22"

text \<open>\<open>module_param\<close> takes any value of the byte.\<close>

definition mod_init :: "(nat \<Rightarrow> nat) \<Rightarrow> byte \<Rightarrow> bool \<Rightarrow> nat \<Rightarrow> int \<times> position_module" where
  "mod_init to_jiffies param created jiffies =
     (if \<not> created then (- ENOMEM, \<lparr>quadrante = param, proc_entry = False, meu_timer = None\<rparr>)
      else (0, \<lparr>quadrante = param, proc_entry = True, meu_timer = Some (jiffies + to_jiffies INTERVALO_MS)\<rparr>))"

definition timer_callback :: "(nat \<Rightarrow> nat) \<Rightarrow> nat \<Rightarrow> nat \<Rightarrow> position_module \<Rightarrow> position_module" where
  "timer_callback to_jiffies random jiffies m =
     m\<lparr>quadrante := of_nat random, meu_timer := Some (jiffies + to_jiffies INTERVALO_MS)\<rparr>"

definition mod_exit :: "position_module \<Rightarrow> position_module" where
  "mod_exit m = m\<lparr>meu_timer := None, proc_entry := False\<rparr>"

text \<open>
  One \<open>read\<close> of the entry: what it returns, what it has copied to the reader, the reader's new
  position. \<open>scnprintf\<close> keeps room for the terminating zero.
\<close>

definition entry_read :: "nat \<Rightarrow> int \<Rightarrow> bool \<Rightarrow> position_module \<Rightarrow> int \<times> string \<times> int" where
  "entry_read room ppos copied m =
     (let tmp = take 7 (proc_read (quadrante m)); len = length tmp in
      if 0 < ppos then (0, [], ppos)
      else if room < len then (- EINVAL, [], ppos)
      else if \<not> copied then (- EFAULT, [], ppos)
      else (int len, tmp, int len))"

text \<open>
  What \<open>std::ifstream\<close> finds: nothing to open without the entry; otherwise what one read into its
  buffer returns, an error counting as the end of the file.
\<close>

definition position_file :: "nat \<Rightarrow> position_module \<Rightarrow> string option" where
  "position_file room m =
     (if proc_entry m then Some (case entry_read room 0 True m of (r, txt, p) \<Rightarrow> if 0 < r then txt else [])
      else None)"

text \<open>What happens to a loaded module: the timer expires, not before its time; or it is unloaded.\<close>

datatype module_event = Timer nat nat | Unload

fun module_exec :: "(nat \<Rightarrow> nat) \<Rightarrow> module_event \<Rightarrow> position_module \<Rightarrow> position_module option" where
  "module_exec tj (Timer random jiffies) m =
     (case meu_timer m of None \<Rightarrow> None
      | Some t \<Rightarrow> if t \<le> jiffies \<and> random < 4 then Some (timer_callback tj random jiffies m) else None)"
| "module_exec tj Unload m = (if proc_entry m then Some (mod_exit m) else None)"

fun module_run :: "(nat \<Rightarrow> nat) \<Rightarrow> module_event list \<Rightarrow> position_module \<Rightarrow> position_module option" where
  "module_run tj [] m = Some m"
| "module_run tj (e # es) m = Option.bind (module_exec tj e m) (module_run tj es)"

section \<open>Reading the entry\<close>

lemma entry_read_results:
  "0 < ppos \<Longrightarrow> entry_read room ppos copied m = (0, [], ppos)"
  "ppos \<le> 0 \<Longrightarrow> room < length (proc_read (quadrante m)) \<Longrightarrow> entry_read room ppos copied m = (- EINVAL, [], ppos)"
  "ppos \<le> 0 \<Longrightarrow> length (proc_read (quadrante m)) \<le> room \<Longrightarrow> \<not> copied \<Longrightarrow>
     entry_read room ppos copied m = (- EFAULT, [], ppos)"
  "ppos \<le> 0 \<Longrightarrow> length (proc_read (quadrante m)) \<le> room \<Longrightarrow> copied \<Longrightarrow>
     entry_read room ppos copied m = (int (length (proc_read (quadrante m))), proc_read (quadrante m),
       int (length (proc_read (quadrante m))))"
  using position_roundtrip [of "quadrante m"] by (simp_all add: entry_read_def Let_def)

lemma position_file_spec:
  assumes "8 \<le> room"
  shows "position_file room m = (if proc_entry m then Some (proc_read (quadrante m)) else None)"
proof -
  have "length (proc_read (quadrante m)) \<le> room" using position_roundtrip [of "quadrante m"] assms by simp
  moreover have "0 < length (proc_read (quadrante m))" by (simp add: proc_read_def)
  ultimately show ?thesis by (simp add: position_file_def entry_read_results)
qed

section \<open>Runs of the module\<close>

text \<open>The events before the module is unloaded: the last one decides the quadrant.\<close>

definition ticks :: "module_event list \<Rightarrow> (nat \<times> nat) list" where
  "ticks es = concat (map (\<lambda>e. case e of Timer r t \<Rightarrow> [(r, t)] | Unload \<Rightarrow> []) es)"

lemma ticks_simps [simp]: "ticks [] = []" "ticks (Timer r t # es) = (r, t) # ticks es" "ticks (Unload # es) = ticks es"
  by (simp_all add: ticks_def)

lemma unloaded_stays:
  "module_run tj es m = Some m' \<Longrightarrow> \<not> proc_entry m \<Longrightarrow> meu_timer m = None \<Longrightarrow> es = []"
proof (induction es)
  case (Cons e es)
  then show ?case by (cases e) simp_all
qed simp

lemma module_run_spec:
  assumes "module_run tj es m = Some m'" and "proc_entry m" and "meu_timer m = Some t"
  shows "quadrante m' = (if ticks es = [] then quadrante m else of_nat (fst (last (ticks es)))) \<and>
    (proc_entry m' \<longleftrightarrow> Unload \<notin> set es) \<and> (\<forall>(r, u)\<in>set (ticks es). r < 4) \<and>
    (\<forall>i<length (ticks es). (if i = 0 then t else snd (ticks es ! (i - 1)) + tj INTERVALO_MS) \<le> snd (ticks es ! i))"
  using assms
proof (induction es arbitrary: m t)
  case Nil
  then show ?case by simp
next
  case (Cons e es)
  obtain m1 where m1: "module_exec tj e m = Some m1" "module_run tj es m1 = Some m'"
    using Cons.prems(1) by (auto simp: Option.bind_eq_Some_conv)
  show ?case
  proof (cases e)
    case Unload
    then have e: "m1 = mod_exit m" using m1(1) by (simp split: if_splits)
    then have "es = []" using unloaded_stays [OF m1(2)] by (simp add: mod_exit_def)
    moreover have "m' = mod_exit m" using e m1(2) \<open>es = []\<close> by simp
    ultimately show ?thesis using Unload by (simp add: mod_exit_def)
  next
    case (Timer r u)
    then have g: "t \<le> u" "r < 4" "m1 = timer_callback tj r u m"
      using m1(1) Cons.prems(3) by (simp_all split: if_splits)
    then have ih: "quadrante m' = (if ticks es = [] then of_nat r else of_nat (fst (last (ticks es))))"
        "proc_entry m' \<longleftrightarrow> Unload \<notin> set es" "\<forall>(r, u)\<in>set (ticks es). r < 4"
        "\<forall>i<length (ticks es). (if i = 0 then u + tj INTERVALO_MS else snd (ticks es ! (i - 1)) + tj INTERVALO_MS) \<le>
          snd (ticks es ! i)"
      using Cons.IH [OF m1(2), of "u + tj INTERVALO_MS"] Cons.prems(2) by (simp_all add: timer_callback_def)
    have "(if i = 0 then t else snd (ticks (e # es) ! (i - 1)) + tj INTERVALO_MS) \<le> snd (ticks (e # es) ! i)"
      if "i < length (ticks (e # es))" for i
      using that spec [OF ih(4), of "i - 1"] g(1) Timer by (cases i) (auto simp: nth_Cons' split: if_splits)
    then show ?thesis using ih(1-3) Timer g(2) by auto
  qed
qed

text \<open>
  C40 (finding): whatever the kernel does with the module, \<open>Position::quadrant\<close> returns in every process the
  value the module holds: its parameter until the timer first expires, afterwards the last random
  number, one of the four quadrants; before the module is loaded, when \<open>proc_create\<close> fails and
  after it is unloaded, 255. The first random number comes four seconds at least after the module is
  loaded, and each of them four seconds at least after the one before, so a quadrant lasts four seconds
  at least. The parameter is not checked, and \<open>quadrant\<close> does not mask what it reads, as the
  report says: a value above 3 is what every process gets until the timer first expires.
\<close>

theorem position_follows_module:
  assumes "mod_init tj param created t0 = (r0, m)" and "module_run tj es m = Some m'" and "8 \<le> room"
  shows "position_quadrant (position_file room m') =
      (if \<not> created \<or> Unload \<in> set es then 255 else if ticks es = [] then param else of_nat (fst (last (ticks es)))) \<and>
    (r0 = 0 \<longleftrightarrow> created) \<and> (\<forall>(r, t)\<in>set (ticks es). r < 4) \<and>
    (\<forall>i<length (ticks es). (if i = 0 then t0 else snd (ticks es ! (i - 1))) + tj INTERVALO_MS \<le> snd (ticks es ! i))"
proof (cases created)
  case True
  then have m: "proc_entry m" "meu_timer m = Some (t0 + tj INTERVALO_MS)" "quadrante m = param" "r0 = 0"
    using assms(1) by (auto simp: mod_init_def)
  note run = module_run_spec [OF assms(2) m(1,2)]
  have "position_quadrant (position_file room m') = (if Unload \<in> set es then 255 else quadrante m')"
    using position_roundtrip [of "quadrante m'"] run by (simp add: position_file_spec [OF assms(3)])
  moreover have "(if i = 0 then t0 else snd (ticks es ! (i - 1))) + tj INTERVALO_MS \<le> snd (ticks es ! i)"
    if "i < length (ticks es)" for i
    using run that by (cases "i = 0") auto
  ultimately show ?thesis using run m True by simp
next
  case False
  then have m: "\<not> proc_entry m" "meu_timer m = None" "r0 \<noteq> 0"
    using assms(1) by (auto simp: mod_init_def ENOMEM_def)
  from unloaded_stays [OF assms(2) this(1,2)] have "es = []" .
  then show ?thesis
    using assms(2) m False by (simp add: position_file_spec [OF assms(3)] position_roundtrip)
qed

theorem position_follows_module_witness:
  "\<exists>m. module_run (\<lambda>ms. ms div 4) [Timer 1 1010, Timer 2 2040] (snd (mod_init (\<lambda>ms. ms div 4) 7 True 0)) = Some m \<and>
     position_quadrant (position_file 8191 m) = 2"
proof -
  let ?tj = "\<lambda>ms :: nat. ms div 4"
  obtain m where m: "module_run ?tj [Timer 1 1010, Timer 2 2040] (snd (mod_init ?tj 7 True 0)) = Some m"
    by (simp add: mod_init_def INTERVALO_MS_def timer_callback_def)
  have "mod_init ?tj 7 True 0 = (0, snd (mod_init ?tj 7 True 0))" by (simp add: mod_init_def)
  from position_follows_module [OF this m, of 8191] m show ?thesis by simp
qed

end
