(* ===== verification/Rsu_Service.thy ===== *)
theory Rsu_Service
  imports Main_Programs Ptp_Exchange
begin

text \<open>
  The road side unit as a service: the whole loop of \<open>RSU::run\<close> on its protocol stack, with
  any number of frames arriving between two turns, refines a queue of requests that are answered one
  by one; and the program around it (\<open>app/rsu_main.cpp\<close>).
\<close>

section \<open>The road side unit with its buffers\<close>

text \<open>An RSU of quadrant \<open>q\<close> with buffers for \<open>k\<close> more frames.\<close>

definition rsu_at :: "nat \<Rightarrow> byte \<Rightarrow> node \<Rightarrow> bool" where
  "rsu_at k q s \<longleftrightarrow> node_ok s \<and> p_nics s = [0] \<and> 0 < length (nics s) \<and> n_observers (nics s ! 0) = [(PROTO, ())] \<and>
     lasts k (pool (nics s ! 0)) \<and> 0 < length (consumers s) \<and>
     routing s = (\<lambda>p. if p = PORT_RSU then [0] else []) \<and> p_quadrant s = q \<and> q \<noteq> 255"

text \<open>What the RSU keeps.\<close>

definition rsu_keeps :: "node \<Rightarrow> node \<Rightarrow> bool" where
  "rsu_keeps s t \<longleftrightarrow> same_layout s t \<and> map n_address (nics t) = map n_address (nics s) \<and>
     (first_owned (pool (nics s ! 0)) \<longrightarrow> first_owned (pool (nics t ! 0)))"

lemma rsu_keeps_trans: "rsu_keeps s t \<Longrightarrow> rsu_keeps t u \<Longrightarrow> rsu_keeps s u"
  using same_layout_trans [of s t u] by (simp add: rsu_keeps_def)

lemma rsu_at_step:
  assumes "rsu_at k q s" and "same_layout s t" and "node_ok t" and "n_observers (nics t ! 0) = [(PROTO, ())]"
    and "lasts j (pool (nics t ! 0))"
  shows "rsu_at j q t"
proof -
  have "routing t = routing s" using assms(2) by (simp add: routing_def same_layout_def fun_eq_iff)
  then show ?thesis using assms by (simp add: rsu_at_def same_layout_def)
qed

lemma rsu_at_quadrant: "rsu_at k q s \<Longrightarrow> my_quadrant pos s = q"
  by (auto simp: rsu_at_def my_quadrant_def get_quadrant_def)

text \<open>What of the frames on the medium is for the RSU.\<close>

definition requests :: "byte \<Rightarrow> (byte \<times> letter) list \<Rightarrow> letter list" where
  "requests q qls = map snd (filter (\<lambda>(q', l). q' = q \<and> PORT_RSU \<in> set (letter_ports l)) qls)"

lemma routed_to_rsu:
  "count_list (concat (map (\<lambda>p. if p = PORT_RSU then [0] else []) (letter_ports l))) (0 :: nat) =
     (if PORT_RSU \<in> set (letter_ports l) then 1 else 0)"
  by (simp add: letter_ports_def Let_def PORT_RSU_def PORT_GATEWAY_def PORT_TIME_CLIENT_def)

lemma raw_deliver_letters:
  assumes "letter_ok p l" and "length buf = frame_size"
  shows "raw_deliver pos n buf (letter_frame q l # fs) s =
    and_then (nic_handle pos n (poke 0 (letter_frame q l) buf) (length (letter_frame q l)) s)
      (raw_deliver pos n (poke 0 (letter_frame q l) buf) fs)"
proof -
  let ?w = "letter_frame q l"
  have mac: "length (l_mac l) = 6" "length (paddr (l_to l)) = 6" using assms(1) by (simp_all add: letter_ok_def)
  have lw: "length ?w \<le> frame_size" "?w \<noteq> []" using letter_frame_length [OF assms(1), of q] by auto
  have "take (length ?w) (poke 0 ?w buf) = ?w" using lw assms(2) by (simp add: poke_def)
  from wire_frame_fields(2) [OF letter_frame_def this mac]
  have "ntohs (frame_type (poke 0 ?w buf)) = 0x8888" using htons_PROTO by (simp add: PROTO_def ntohs_def)
  with lw show ?thesis
    by (cases "nic_handle pos n (poke 0 ?w buf) (length ?w) s") (simp_all add: raw_deliver_def Let_def)
qed

definition carried_ok :: "(byte \<times> letter) list \<Rightarrow> bool" where
  "carried_ok qls \<longleftrightarrow> (\<forall>(q, l)\<in>set qls. letter_ok (port (l_to l)) l)"

lemma frames_taken:
  assumes "rsu_at (length qls + k) q s" and "carried_ok qls" and "length buf = frame_size"
  shows "\<exists>t ms. raw_deliver pos 0 buf (map (\<lambda>(q, l). letter_frame q l) qls) s = Inr t \<and> rsu_at k q t \<and>
    rsu_keeps s t \<and> on_wire t = on_wire s \<and> mailbox 0 t = mailbox 0 s @ ms \<and> list_all2 says ms (requests q qls)"
  using assms
proof (induction qls arbitrary: s buf)
  case Nil
  then show ?case by (simp add: raw_deliver_def rsu_keeps_def requests_def)
next
  case (Cons x qls)
  obtain q' l where x: "x = (q', l)" by (cases x)
  let ?w = "letter_frame q' l"
  have l: "letter_ok (port (l_to l)) l" and ls: "carried_ok qls" using Cons.prems(2) x by (auto simp: carried_ok_def)
  note at = Cons.prems(1) [unfolded rsu_at_def]
  have qs: "my_quadrant pos s = q" by (rule rsu_at_quadrant [OF Cons.prems(1)])
  have pre: "node_ok s" "0 < length (nics s)" "n_observers (nics s ! 0) = [(PROTO, ())]"
      "lasts (Suc (length qls + k)) (pool (nics s ! 0))" "0 < length (consumers s)" using at by simp_all
  obtain t ms where t: "nic_handle pos 0 (poke 0 ?w buf) (length ?w) s = Inr t" "node_ok t" "same_layout s t"
      "map n_address (nics t) = map n_address (nics s)" "n_observers (nics t ! 0) = [(PROTO, ())]"
      "lasts (length qls + k) (pool (nics t ! 0))" "first_owned (pool (nics s ! 0)) \<longrightarrow> first_owned (pool (nics t ! 0))"
      "on_wire t = on_wire s" "mailbox 0 t = mailbox 0 s @ ms"
      "list_all2 says ms (if q' = q then replicate (count_list (concat (map (routing s) (letter_ports l))) 0) l else [])"
    using letter_taken [OF pre(1-4) l Cons.prems(3) pre(5), of pos q'] unfolding qs by blast
  have ms: "list_all2 says ms (requests q [x])"
    using t(10) at routed_to_rsu [of l] x by (simp add: requests_def split: if_splits)
  have "rsu_at (length qls + k) q t" by (rule rsu_at_step [OF Cons.prems(1) t(3,2,5,6)])
  moreover have "length (poke 0 ?w buf) = frame_size"
    using letter_frame_length(2) [OF l, of q'] Cons.prems(3) by simp
  ultimately obtain u ns where u: "raw_deliver pos 0 (poke 0 ?w buf) (map (\<lambda>(q, l). letter_frame q l) qls) t = Inr u"
      "rsu_at k q u" "rsu_keeps t u" "on_wire u = on_wire t" "mailbox 0 u = mailbox 0 t @ ns"
      "list_all2 says ns (requests q qls)"
    using Cons.IH [OF _ ls] by blast
  have "rsu_keeps s u" using rsu_keeps_trans [OF _ u(3), of s] t(3,4,7) by (simp add: rsu_keeps_def)
  moreover have "requests q (x # qls) = requests q [x] @ requests q qls" by (simp add: requests_def)
  ultimately show ?case
    using u t(1,8,9) x raw_deliver_letters [OF l Cons.prems(3)] list_all2_appendI [OF ms u(6)]
    by (intro exI [of _ u] exI [of _ "ms @ ns"]) simp
qed

section \<open>One turn on any message\<close>

definition reply :: "timespec \<Rightarrow> timespec \<Rightarrow> letter \<Rightarrow> (mac \<times> ptp_frame) list" where
  "reply rt now l =
     (if length (l_payload l) \<noteq> sizeof_ptp then []
      else case answer_to rt now (dec_ptp (l_payload l)) of None \<Rightarrow> [] | Some a \<Rightarrow> [(l_mac l, a)])"

text \<open>An answer as a frame.\<close>

definition reply_frame :: "byte \<Rightarrow> node \<Rightarrow> mac \<times> ptp_frame \<Rightarrow> nat \<times> byte list" where
  "reply_frame q s = (\<lambda>(dst, a). (0, letter_frame q (answer_letter s dst a)))"

lemma reply_frame_keeps:
  assumes "rsu_keeps s t" and "0 < length (nics s)"
  shows "reply_frame q t = reply_frame q s"
proof -
  have "n_address (nics t ! 0) = n_address (nics s ! 0)"
    using assms map_nth_eq [of n_address "nics t" "nics s" 0] by (simp add: rsu_keeps_def same_layout_def)
  moreover have "comms t = comms s" using assms(1) by (simp add: rsu_keeps_def same_layout_def)
  ultimately show ?thesis by (simp add: reply_frame_def answer_letter_def)
qed

lemma rsu_reply_letter:
  assumes "says m l" and "message_ok m"
  shows "rsu_reply rt now junk m = (case reply rt now l of [] \<Rightarrow> None
    | (dst, a) # as \<Rightarrow> Some (ptp_message junk a, dst))"
proof -
  have b: "take (m_size m) (m_data m) = l_payload l" and src: "m_src m = l_mac l" and sz: "m_size m \<le> length (m_data m)"
    using assms by (simp_all add: says_def msg_bytes_def message_ok_def)
  then have ln: "m_size m = length (l_payload l)" by (metis length_take min.absorb2)
  then have "dec_ptp (m_data m) = dec_ptp (l_payload l)" if "m_size m = sizeof_ptp"
    using b sz that dec_ptp_take [of "m_data m"] by (simp add: sizeof_ptp_def)
  then show ?thesis
    using src ln by (auto simp: rsu_reply_def reply_def answer_to_def Let_def)
qed

lemma front_message_ok:
  assumes "node_ok s" and "k < length (consumers s)" and "mailbox k s = m # ms"
  shows "message_ok m"
proof -
  obtain p where "heap s p = Some m" by (rule mailbox_front [OF assms])
  then have "m \<in> ran (heap s)" by (rule ranI)
  then show ?thesis using assms(1) by (simp add: node_ok_def heap_ok_def)
qed

lemma reply_sent:
  assumes "node_ok u" and "p_nics u = [0]" and "free_slots (pool (nics u ! 0)) \<noteq> {}" and "length dst = 6"
  obtains t where "comm_send_to pos 0 (ptp_message junk a) dst u = Inr (True, t)" and "node_ok t" and "same_layout u t"
    and "map n_address (nics t) = map n_address (nics u)" and "n_observers (nics t ! 0) = n_observers (nics u ! 0)"
    and "first_owned (pool (nics t ! 0))" and "mailbox k t = mailbox k u"
    and "on_wire t = on_wire u @ [reply_frame (my_quadrant pos u) u (dst, a)]"
proof -
  let ?m = "ptp_message junk a"
  note c = carries_ptp_message [of junk a]
  have m: "m_size ?m = 13" "13 \<le> length (m_data ?m)" "take 13 (m_data ?m) = enc_ptp a"
    using c carries_simps(1) [OF c] by (simp_all add: carries_def message_ok_def msg_bytes_def MAX_SIZE_def)
  have n: "\<forall>m\<in>set [0]. m < length (nics u)" using assms(1,2) by (auto simp: node_ok_def wired_def)
  from send_nics_spec [OF assms(1) n, of "\<lparr>paddr = dst, port = 0\<rparr>" 13 "m_data ?m" pos "c_address (comms u ! 0)"]
  obtain t where t: "send_nics pos (c_address (comms u ! 0)) \<lparr>paddr = dst, port = 0\<rparr> (m_data ?m) 13 [0] u = Inr t"
      "node_ok t" "same_layout u t" "same_but_nics u t"
      "on_wire t = on_wire u @ frames_out u [0] (c_address (comms u ! 0)) \<lparr>paddr = dst, port = 0\<rparr>
        (my_quadrant pos u) (enc_ptp a)"
    using assms(4) m by (auto simp: PROTOCOL_MTU_def MTU_def header_size_def)
  have "send_one pos (c_address (comms u ! 0)) \<lparr>paddr = dst, port = 0\<rparr> (m_data ?m) 13 0 u = Inr t"
    using t(1) by (auto simp: and_then_Inr_iff)
  then have "first_owned (pool (nics t ! 0))" using sending_owns assms(3) n by simp
  moreover have "comm_send_to pos 0 ?m dst u = Inr (True, t)"
    using t(1) m(1) assms(2) by (simp add: comm_send_to_def proto_send_def)
  moreover have "n_observers (nics t ! 0) = n_observers (nics u ! 0)"
    using t(3,4) n map_nth_eq [of n_observers "nics t" "nics u" 0] by (simp add: same_but_nics_def same_layout_def)
  moreover have "mailbox k t = mailbox k u" using t(4) by (simp add: same_but_nics_def mailbox_def contents_def)
  ultimately show ?thesis
    using that t assms(3) by (simp add: same_but_nics_def frames_out_def reply_frame_def letter_frame_def answer_letter_def)
qed

lemma rsu_turn_any:
  fixes rt now :: timespec
  assumes at: "rsu_at k q s" and w: "list_all2 says (mailbox 0 s) w" and macs: "\<forall>l\<in>set w. length (l_mac l) = 6"
  defines "out \<equiv> (case w of [] \<Rightarrow> [] | l # ls \<Rightarrow> reply rt now l)"
  shows "\<exists>t. rsu_step pos rt now junk s = Inr t \<and> rsu_at k q t \<and> rsu_keeps s t \<and>
    list_all2 says (mailbox 0 t) (tl w) \<and> on_wire t = on_wire s @ map (reply_frame q s) out \<and>
    (out \<noteq> [] \<longrightarrow> first_owned (pool (nics t ! 0)))"
proof -
  note at' = at [unfolded rsu_at_def]
  have ok: "node_ok s" and c: "0 < length (consumers s)" using at' by simp_all
  obtain b m u where r: "endpoint_receive 0 (new_message junk) s = Inr (b, m, u)" "node_ok u"
    by (rule receive_ok [OF ok c])
  note rk = receive_keeps [OF r(1)]
  have lay: "same_layout s u" and nu: "nics u = nics s"
    using still_receive [OF ok c r(1), of 0] rk by (simp_all add: still_def)
  have cu: "0 < length (consumers u)" using lay c by (simp add: same_layout_def)
  have box: "(if b then [m] else []) @ mailbox 0 u = mailbox 0 s" and tl: "mailbox 0 u = tl (mailbox 0 s)"
    using receive_mail(2) [OF ok c r(1)] receive_mail(1) [OF ok c r(1)] c cu
    by (simp_all add: box_mailbox mail_take_def flip: box_mailbox) (simp add: mail_of_def)
  have rest: "list_all2 says (mailbox 0 u) (tl w)" using w tl by (cases w; cases "mailbox 0 s") auto
  have atu: "rsu_at k q u" using at' nu by (intro rsu_at_step [OF at lay r(2)]) simp_all
  have keep: "rsu_keeps s u" using lay nu by (simp add: rsu_keeps_def)
  show ?thesis
  proof (cases "b \<and> out \<noteq> []")
    case False
    have "out = []"
    proof (rule ccontr)
      assume "out \<noteq> []"
      with False have "\<not> b" and "w \<noteq> []" by (auto simp: out_def)
      with box tl w show False by (cases "mailbox 0 s") auto
    qed
    moreover have "rsu_step pos rt now junk s = Inr u"
    proof (cases b)
      case True
      then obtain l ls where l: "w = l # ls" "says m l" using box w by (auto simp: list_all2_Cons1 simp flip: box)
      have "message_ok m" using front_message_ok [OF ok c, of m] box [symmetric] True by simp
      from rsu_reply_letter [OF l(2) this] \<open>out = []\<close> l(1) True r(1) show ?thesis
        by (simp add: rsu_step_def out_def)
    qed (simp add: rsu_step_def r(1))
    ultimately show ?thesis using atu keep rest receive_wire [OF r(1)] by simp
  next
    case True
    then obtain l ls where l: "w = l # ls" "says m l" using box w by (auto simp: list_all2_Cons1 simp flip: box)
    have ok_m: "message_ok m" using front_message_ok [OF ok c, of m] box [symmetric] True by simp
    obtain a where a: "out = [(l_mac l, a)]"
      using True l(1) by (auto simp: out_def reply_def split: if_splits option.splits)
    have pn: "p_nics u = [0]" and free: "free_slots (pool (nics u ! 0)) \<noteq> {}" and mac: "length (l_mac l) = 6"
      using at' rk nu lasts_free [of k "pool (nics s ! 0)"] macs l(1) by simp_all
    obtain t where t: "comm_send_to pos 0 (ptp_message junk a) (l_mac l) u = Inr (True, t)" "node_ok t" "same_layout u t"
        "map n_address (nics t) = map n_address (nics u)" "n_observers (nics t ! 0) = n_observers (nics u ! 0)"
        "first_owned (pool (nics t ! 0))" "mailbox 0 t = mailbox 0 u"
        "on_wire t = on_wire u @ [reply_frame (my_quadrant pos u) u (l_mac l, a)]"
      by (rule reply_sent [OF r(2) pn free mac])
    have "rsu_reply rt now junk m = Some (ptp_message junk a, l_mac l)"
      using rsu_reply_letter [OF l(2) ok_m, of rt now junk] a l(1) by (simp add: out_def)
    then have "rsu_step pos rt now junk s = Inr t" using r(1) t(1) True by (simp add: rsu_step_def)
    moreover have "rsu_at k q t"
      using t(5,6) atu by (intro rsu_at_step [OF atu t(3,2)]) (simp_all add: lasts_def rsu_at_def)
    moreover have "rsu_keeps u t" using t(3,4,6) by (simp add: rsu_keeps_def)
    moreover have "reply_frame q u = reply_frame q s" using reply_frame_keeps [OF keep] at' by simp
    ultimately show ?thesis
      using rsu_keeps_trans [OF keep] t(6-8) rest a rsu_at_quadrant [OF atu, of pos] receive_wire [OF r(1)] by simp
  qed
qed

section \<open>The loop\<close>

definition setup_signals :: "signal list" where
  "setup_signals = [SIGINT, SIGTERM, SIGALRM]"

definition on_stop :: "signal list \<Rightarrow> bool \<Rightarrow> bool" where
  "on_stop sigs g_stop \<longleftrightarrow> g_stop \<or> (\<exists>sig\<in>set sigs. sig \<in> set setup_signals)"

text \<open>
  A turn of the loop: the signals since the last one, then the frames that \<open>_drain\<close> finds before
  \<open>receive\<close> returns, in a buffer with old contents, and the clock.
\<close>

record rsu_event =
  rt_signals :: "signal list"
  rt_buf :: frame
  rt_frames :: "byte list list"
  rt_pos :: byte
  rt_received :: timespec
  rt_sent :: timespec
  rt_junk :: message

text \<open>The result says whether the loop was left; otherwise it is still running after these turns.\<close>

fun rsu_run :: "bool \<Rightarrow> rsu_event list \<Rightarrow> node \<Rightarrow> runtime_error + (bool \<times> node)" where
  "rsu_run g_stop [] s = Inr (False, s)"
| "rsu_run g_stop (e # es) s =
     (let g = on_stop (rt_signals e) g_stop in
      if g then Inr (True, s)
      else and_then (raw_deliver (rt_pos e) 0 (rt_buf e) (rt_frames e) s) (\<lambda>s1.
             and_then (rsu_step (rt_pos e) (rt_received e) (rt_sent e) (rt_junk e) s1) (rsu_run g es)))"

datatype rsu_failure = Bad_Argument stoi_error | Rsu_Fault runtime_error

definition rsu_main :: "mac \<Rightarrow> string list \<Rightarrow> rsu_event list \<Rightarrow> rsu_failure + (main_event list \<times> node)" where
  "rsu_main mac argv es =
     (case rsu_arguments argv of Inl e \<Rightarrow> Inl (Bad_Argument e)
      | Inr a \<Rightarrow> (case rsu_run False es (rsu_process mac a) of Inl e \<Rightarrow> Inl (Rsu_Fault e)
          | Inr (left, s) \<Rightarrow> Inr ([Handle_Signals setup_signals, Alarm_In (alarm_after (ra_timeout a))] @
              (if left then [Sync_Disks, Power_Off] else []), s)))"

section \<open>The service\<close>

text \<open>
  What the RSU is to be: a queue of requests, of which one is taken in every turn. \<open>heard\<close> are the
  requests that arrive in a turn. The result are the answers and the requests that still wait.
\<close>

fun serve :: "(rsu_event \<Rightarrow> letter list) \<Rightarrow> rsu_event list \<Rightarrow> letter list \<Rightarrow> (mac \<times> ptp_frame) list \<times> letter list" where
  "serve heard [] w = ([], w)"
| "serve heard (e # es) w =
     (case w @ heard e of [] \<Rightarrow> serve heard es []
      | l # v \<Rightarrow> (case serve heard es v of (as, r) \<Rightarrow> (reply (rt_received e) (rt_sent e) l @ as, r)))"

text \<open>A turn in which well-formed frames arrive, and no signal.\<close>

definition turn_ok :: "(rsu_event \<Rightarrow> (byte \<times> letter) list) \<Rightarrow> rsu_event \<Rightarrow> bool" where
  "turn_ok carried e \<longleftrightarrow> \<not> on_stop (rt_signals e) False \<and> length (rt_buf e) = frame_size \<and>
     rt_frames e = map (\<lambda>(q, l). letter_frame q l) (carried e) \<and> carried_ok (carried e)"

definition frames_in :: "(rsu_event \<Rightarrow> (byte \<times> letter) list) \<Rightarrow> rsu_event list \<Rightarrow> nat" where
  "frames_in carried es = sum_list (map (\<lambda>e. length (carried e)) es)"

lemma requests_macs: "carried_ok qls \<Longrightarrow> \<forall>l\<in>set (requests q qls). length (l_mac l) = 6"
  by (auto simp: requests_def carried_ok_def letter_ok_def)

text \<open>One turn.\<close>

lemma turn_taken:
  assumes "rsu_at (length (carried e) + k) q s" and "turn_ok carried e" and "list_all2 says (mailbox 0 s) w"
    and "\<forall>l\<in>set w. length (l_mac l) = 6"
  obtains s1 t where "raw_deliver (rt_pos e) 0 (rt_buf e) (rt_frames e) s = Inr s1"
    and "rsu_step (rt_pos e) (rt_received e) (rt_sent e) (rt_junk e) s1 = Inr t"
    and "rsu_at k q t" and "rsu_keeps s t" and "list_all2 says (mailbox 0 t) (tl (w @ requests q (carried e)))"
    and "on_wire t = on_wire s @ map (reply_frame q s) (case w @ requests q (carried e) of [] \<Rightarrow> []
      | l # ls \<Rightarrow> reply (rt_received e) (rt_sent e) l)"
    and "(case w @ requests q (carried e) of [] \<Rightarrow> [] | l # ls \<Rightarrow> reply (rt_received e) (rt_sent e) l) \<noteq> [] \<longrightarrow>
      first_owned (pool (nics t ! 0))"
proof -
  note e = assms(2) [unfolded turn_ok_def]
  then have cr: "carried_ok (carried e)" and bf: "length (rt_buf e) = frame_size" by simp_all
  from frames_taken [OF assms(1) this, of "rt_pos e"] e
  obtain s1 ms where s1: "raw_deliver (rt_pos e) 0 (rt_buf e) (rt_frames e) s = Inr s1"
      "rsu_at k q s1" "rsu_keeps s s1" "on_wire s1 = on_wire s"
      "mailbox 0 s1 = mailbox 0 s @ ms" "list_all2 says ms (requests q (carried e))" by metis
  have box: "list_all2 says (mailbox 0 s1) (w @ requests q (carried e))"
    using s1(5) list_all2_appendI [OF assms(3) s1(6)] by simp
  have macs: "\<forall>l\<in>set (w @ requests q (carried e)). length (l_mac l) = 6"
    using assms(4) requests_macs [OF cr] by auto
  have "0 < length (nics s)" using assms(1) by (simp add: rsu_at_def)
  from reply_frame_keeps [OF s1(3) this] have rf: "reply_frame q s1 = reply_frame q s" .
  from rsu_turn_any [OF s1(2) box macs, of "rt_pos e" "rt_received e" "rt_sent e" "rt_junk e"]
  show ?thesis using that [OF s1(1)] rsu_keeps_trans [OF s1(3)] unfolding s1(4) rf by blast
qed

lemma rsu_run_serves:
  assumes "rsu_at (frames_in carried es + k) q s" and "list_all2 says (mailbox 0 s) w"
    and "\<forall>l\<in>set w. length (l_mac l) = 6" and "\<forall>e\<in>set es. turn_ok carried e"
  shows "\<exists>t. rsu_run False es s = Inr (False, t) \<and> rsu_at k q t \<and> rsu_keeps s t \<and>
    (case serve (\<lambda>e. requests q (carried e)) es w of (answers, waiting) \<Rightarrow>
      on_wire t = on_wire s @ map (reply_frame q s) answers \<and> list_all2 says (mailbox 0 t) waiting \<and>
      (answers \<noteq> [] \<longrightarrow> (\<forall>j. rsu_at j q t)))"
  using assms
proof (induction es arbitrary: s w)
  case Nil
  then show ?case by (simp add: rsu_keeps_def frames_in_def)
next
  case (Cons e es)
  let ?heard = "\<lambda>e. requests q (carried e)"
  let ?out = "case w @ ?heard e of [] \<Rightarrow> [] | l # ls \<Rightarrow> reply (rt_received e) (rt_sent e) l"
  have e: "turn_ok carried e" and es: "\<forall>e\<in>set es. turn_ok carried e" using Cons.prems(4) by simp_all
  have "rsu_at (length (carried e) + (frames_in carried es + k)) q s" using Cons.prems(1) by (simp add: frames_in_def add.assoc)
  from turn_taken [OF this e Cons.prems(2,3)]
  obtain s1 s2 where s2: "raw_deliver (rt_pos e) 0 (rt_buf e) (rt_frames e) s = Inr s1"
      "rsu_step (rt_pos e) (rt_received e) (rt_sent e) (rt_junk e) s1 = Inr s2"
      "rsu_at (frames_in carried es + k) q s2" "rsu_keeps s s2" "list_all2 says (mailbox 0 s2) (tl (w @ ?heard e))"
      "on_wire s2 = on_wire s @ map (reply_frame q s) ?out" "?out \<noteq> [] \<longrightarrow> first_owned (pool (nics s2 ! 0))" .
  have "carried_ok (carried e)" using e by (simp add: turn_ok_def)
  then have "\<forall>l\<in>set (w @ ?heard e). length (l_mac l) = 6"
    using Cons.prems(3) requests_macs [of "carried e" q] by auto
  then have "\<forall>l\<in>set (tl (w @ ?heard e)). length (l_mac l) = 6" by (cases "w @ ?heard e") simp_all
  from Cons.IH [OF s2(3,5) this es]
  obtain t where t: "rsu_run False es s2 = Inr (False, t)" "rsu_at k q t" "rsu_keeps s2 t"
      "case serve ?heard es (tl (w @ ?heard e)) of (answers, waiting) \<Rightarrow>
        on_wire t = on_wire s2 @ map (reply_frame q s2) answers \<and> list_all2 says (mailbox 0 t) waiting \<and>
        (answers \<noteq> [] \<longrightarrow> (\<forall>j. rsu_at j q t))"
    by (elim exE conjE) (rule that; assumption)
  obtain as r where as: "serve ?heard es (tl (w @ ?heard e)) = (as, r)" by fastforce
  have sv: "serve ?heard (e # es) w = (?out @ as, r)" using as by (cases "w @ ?heard e") simp_all
  have "0 < length (nics s)" using Cons.prems(1) by (simp add: rsu_at_def)
  from reply_frame_keeps [OF s2(4) this] have rf: "reply_frame q s2 = reply_frame q s" .
  have "rsu_at j q t" if "?out \<noteq> []" for j
    using that s2(7) t(2,3) by (simp add: rsu_at_def rsu_keeps_def lasts_def)
  moreover have tt: "on_wire t = on_wire s @ map (reply_frame q s) (?out @ as)" "list_all2 says (mailbox 0 t) r"
      "as \<noteq> [] \<longrightarrow> (\<forall>j. rsu_at j q t)"
    using t(4) by (simp_all add: as rf s2(6))
  ultimately have forever: "?out @ as \<noteq> [] \<longrightarrow> (\<forall>j. rsu_at j q t)" by (cases "as = []") simp_all
  have "rsu_run False (e # es) s = Inr (False, t)"
    using s2(1,2) t(1) e by (simp add: Let_def turn_ok_def)
  then show ?case
    using t(2) rsu_keeps_trans [OF s2(4) t(3)] tt(1,2) forever unfolding sv prod.case
    by (intro exI [of _ t] conjI) assumption+
qed

text \<open>
  C9: the RSU's process, with its buffers, headers, queues and heap, refines the queue of requests:
  whatever well-formed frames arrive, in whatever number between two turns, from any quadrant and for
  any port, it never fails, what it puts on the wire are exactly the answers of the service, in order,
  and what waits in its endpoint's queue are the requests that wait in the service. Once it has
  answered it never runs out of buffers; before that it has enough for as many frames as it has free
  buffers.
\<close>

theorem rsu_refines_service:
  assumes "rsu_at (frames_in carried es) q s" and "list_all2 says (mailbox 0 s) w"
    and "\<forall>l\<in>set w. length (l_mac l) = 6" and "\<forall>e\<in>set es. turn_ok carried e"
  shows "\<exists>t. rsu_run False es s = Inr (False, t) \<and> rsu_at 0 q t \<and> rsu_keeps s t \<and>
    (case serve (\<lambda>e. requests q (carried e)) es w of (answers, waiting) \<Rightarrow>
      on_wire t = on_wire s @ map (reply_frame q s) answers \<and> list_all2 says (mailbox 0 t) waiting \<and>
      (answers \<noteq> [] \<longrightarrow> (\<forall>k. rsu_at k q t)))"
  using rsu_run_serves [of carried es 0 q s w] assms by simp

text \<open>The program.\<close>

lemma rsu_process_at:
  assumes "length mac = 6" and "k < 128"
  shows "rsu_at k (ra_quadrant a AND 0x3) (rsu_process mac a)" and "mailbox 0 (rsu_process mac a) = []"
    and "on_wire (rsu_process mac a) = []"
proof -
  have "rsu_ready 0 0 (ra_quadrant a AND 0x3) (rsu_process mac a)"
    unfolding rsu_process_def by (rule rsu_boot_ready [OF assms(1)]) simp
  moreover have "ra_quadrant a AND 0x3 \<noteq> 255"
    using and_mask_less' [of 2 "ra_quadrant a"] by (auto simp: mask_eq_exp_minus_1)
  moreover have "routing (rsu_process mac a) = (\<lambda>p. if p = PORT_RSU then [0] else [])"
    by (simp add: routing_def rsu_process_def rsu_boot_def set_quadrant_def boot_fields fun_eq_iff)
  moreover have "lasts k (pool (nics (rsu_process mac a) ! 0))"
    using assms(2) by (simp add: lasts_def rsu_process_def rsu_boot_def set_quadrant_def boot_fields free_slots_zero_pool)
  moreover have "p_quadrant (rsu_process mac a) = ra_quadrant a AND 0x3"
    by (simp add: rsu_process_def rsu_boot_def set_quadrant_def)
  ultimately show "rsu_at k (ra_quadrant a AND 0x3) (rsu_process mac a)" and "mailbox 0 (rsu_process mac a) = []"
    by (simp_all add: rsu_at_def rsu_ready_def)
  show "on_wire (rsu_process mac a) = []" by (simp add: rsu_process_def rsu_boot_def set_quadrant_def boot_fields)
qed

lemma serve_append:
  "serve heard (es @ fs) w = (case serve heard es w of (as, r) \<Rightarrow> (case serve heard fs r of (bs, r') \<Rightarrow> (as @ bs, r')))"
  by (induction es arbitrary: w) (simp_all split: list.split prod.split)

lemma serve_waiting: "set (snd (serve heard es w)) \<subseteq> set w \<union> (\<Union>e\<in>set es. set (heard e))"
proof (induction es arbitrary: w)
  case (Cons e es)
  show ?case
  proof (cases "w @ heard e")
    case Nil
    then show ?thesis using Cons.IH [of "[]"] by auto
  next
    case (Cons l v)
    then have "set (snd (serve heard (e # es) w)) = set (snd (serve heard es v))" by (simp split: prod.split)
    moreover have "set v \<subseteq> set w \<union> set (heard e)" using arg_cong [OF Cons, of set] by auto
    ultimately show ?thesis using Cons.IH [of v] by fastforce
  qed
qed simp

lemma rsu_run_append:
  "rsu_run False es s = Inr (False, t) \<Longrightarrow> \<forall>e\<in>set es. \<not> on_stop (rt_signals e) False \<Longrightarrow>
     rsu_run False (es @ fs) s = rsu_run False fs t"
proof (induction es arbitrary: s)
  case (Cons e es)
  then obtain s1 s2 where "raw_deliver (rt_pos e) 0 (rt_buf e) (rt_frames e) s = Inr s1"
      "rsu_step (rt_pos e) (rt_received e) (rt_sent e) (rt_junk e) s1 = Inr s2" "rsu_run False es s2 = Inr (False, t)"
    by (auto simp: Let_def and_then_Inr_iff)
  with Cons show ?case by (simp add: Let_def)
qed simp

text \<open>
  C10: from its arguments to its end, the RSU's program does what the service does: it handles the three
  signals, sets its alarm, answers the requests of its quadrant in order, and after the first of the
  signals makes no further turn, synchronises the discs and switches the machine off. The number of
  turns and of frames is not limited; only before its first answer it takes at most 127 frames.
\<close>

theorem rsu_program_serves:
  assumes "length mac = 6" and "rsu_arguments argv = Inr a" and "\<forall>e\<in>set (es @ fs). turn_ok carried e"
    and "on_stop (rt_signals e) False" and "frames_in carried es < 128"
  defines "q \<equiv> ra_quadrant a AND 0x3" and "s \<equiv> rsu_process mac a"
  assumes "fs = [] \<or> fst (serve (\<lambda>e. requests q (carried e)) es []) \<noteq> []"
  shows "\<exists>t. rsu_main mac argv (es @ fs @ e # rest) =
      Inr ([Handle_Signals [SIGINT, SIGTERM, SIGALRM], Alarm_In (alarm_after (ra_timeout a)), Sync_Disks, Power_Off], t) \<and>
    on_wire t = map (reply_frame q s) (fst (serve (\<lambda>e. requests q (carried e)) (es @ fs) []))"
proof -
  let ?heard = "\<lambda>e. requests q (carried e)"
  note boot = rsu_process_at [OF assms(1,5), of a, folded q_def, folded s_def]
  obtain t where t: "rsu_run False es s = Inr (False, t)" "rsu_at 0 q t" "rsu_keeps s t"
      "case serve ?heard es [] of (answers, waiting) \<Rightarrow>
        on_wire t = on_wire s @ map (reply_frame q s) answers \<and> list_all2 says (mailbox 0 t) waiting \<and>
        (answers \<noteq> [] \<longrightarrow> (\<forall>k. rsu_at k q t))"
    using rsu_run_serves [of carried es 0 q s "[]"] boot(1) assms(3) boot(2) by auto
  obtain as w where as: "serve ?heard es [] = (as, w)" by fastforce
  have "\<forall>l\<in>set w. length (l_mac l) = 6"
    using serve_waiting [of ?heard es "[]"] as requests_macs assms(3) by (fastforce simp: turn_ok_def)
  moreover have "rsu_at (frames_in carried fs) q t"
    using assms(8) t(2,4) as by (auto simp: frames_in_def)
  ultimately obtain u where u: "rsu_run False fs t = Inr (False, u)"
      "case serve ?heard fs w of (answers, waiting) \<Rightarrow> on_wire u = on_wire t @ map (reply_frame q t) answers"
    using rsu_run_serves [of carried fs 0 q t w] assms(3) t(4) as by fastforce
  have ns: "\<forall>e\<in>set es. \<not> on_stop (rt_signals e) False" "\<forall>e\<in>set fs. \<not> on_stop (rt_signals e) False"
    using assms(3) by (auto simp: turn_ok_def)
  have "rsu_run False (es @ fs @ e # rest) s = Inr (True, u)"
    using rsu_run_append [OF t(1) ns(1)] rsu_run_append [OF u(1) ns(2)] assms(4) by simp
  moreover have "reply_frame q t = reply_frame q s"
    using reply_frame_keeps [OF t(3)] boot(1) by (simp add: rsu_at_def)
  then have "on_wire u = map (reply_frame q s) (fst (serve ?heard (es @ fs) []))"
    using u(2) t(4) as boot(3) by (auto simp: serve_append split: prod.splits)
  ultimately show ?thesis
    using assms(2) by (intro exI [of _ u]) (simp add: rsu_main_def setup_signals_def s_def)
qed

text \<open>A vehicle's request, a turn in which it arrives, and the turn in which the alarm has come.\<close>

definition some_request :: letter where
  "some_request = \<lparr>l_mac = some_vehicle, l_from = \<lparr>paddr = some_vehicle, port = PORT_TIME_CLIENT\<rparr>,
     l_to = \<lparr>paddr = BROADCAST, port = 0\<rparr>, l_payload = enc_ptp \<lparr>message_type = 2, timestamp = 0, seq = 7\<rparr>\<rparr>"

definition some_turn :: rsu_event where
  "some_turn = \<lparr>rt_signals = [SIGIO], rt_buf = replicate frame_size 0, rt_frames = [letter_frame 0 some_request],
     rt_pos = 255, rt_received = (3, 5), rt_sent = (4, 0), rt_junk = blank_message\<rparr>"

definition alarm_turn :: rsu_event where "alarm_turn = some_turn\<lparr>rt_signals := [SIGIO, SIGALRM]\<rparr>"

lemma some_turn_ok: "turn_ok (\<lambda>e. [(0, some_request)]) some_turn" "on_stop (rt_signals alarm_turn) False"
proof -
  have "l_payload some_request \<noteq> []"
    by (simp add: some_request_def flip: length_0_conv)
  moreover have "length (l_payload some_request) \<le> MAX_SIZE" by (simp add: some_request_def MAX_SIZE_def)
  ultimately have "letter_ok (port (l_to some_request)) some_request"
    by (simp add: letter_ok_def) (simp add: some_request_def some_vehicle_def BROADCAST_def)
  then show "turn_ok (\<lambda>e. [(0, some_request)]) some_turn"
    by (simp add: turn_ok_def carried_ok_def) (simp add: on_stop_def setup_signals_def some_turn_def)
  show "on_stop (rt_signals alarm_turn) False" by (simp add: on_stop_def setup_signals_def alarm_turn_def)
qed

lemma some_service:
  "serve (\<lambda>e. requests 0 [(0, some_request)]) [some_turn] [] =
     ([(some_vehicle, \<lparr>message_type = 3, timestamp = ns_u64 (3, 5), seq = 7\<rparr>)], [])"
proof -
  have p: "l_payload some_request = enc_ptp \<lparr>message_type = 2, timestamp = 0, seq = 7\<rparr>"
      "port (l_to some_request) = 0" "l_mac some_request = some_vehicle"
    by (simp_all add: some_request_def)
  have "letter_ports some_request = [PORT_RSU, PORT_GATEWAY]" using ptp_letter_ports [OF p(2,1)] by simp
  then have "requests 0 [(0, some_request)] = [some_request]" by (simp add: requests_def)
  moreover have "reply (3, 5) (4, 0) some_request = [(some_vehicle, \<lparr>message_type = 3, timestamp = ns_u64 (3, 5), seq = 7\<rparr>)]"
    by (simp add: reply_def p sizeof_ptp_def ptp_codec.dec_enc answer_to_def)
  ultimately show ?thesis by (simp add: some_turn_def)
qed

theorem rsu_refines_service_witness:
  "\<exists>t. rsu_run False [some_turn] (rsu_process some_mac \<lparr>ra_timeout = 60, ra_iface = ''eth0'', ra_quadrant = 4\<rparr>) =
     Inr (False, t) \<and> mailbox 0 t = [] \<and> length (on_wire t) = 1 \<and> rsu_at 1000000 0 t"
proof -
  have m: "length some_mac = 6" by (simp add: some_mac_def)
  have q: "ra_quadrant \<lparr>ra_timeout = 60, ra_iface = ''eth0'', ra_quadrant = 4\<rparr> AND 0x3 = 0" by code_simp
  have k: "frames_in (\<lambda>e. [(0, some_request)]) [some_turn] = 1" by (simp add: frames_in_def)
  note at = rsu_process_at [OF m, of 1 "\<lparr>ra_timeout = 60, ra_iface = ''eth0'', ra_quadrant = 4\<rparr>", unfolded q, folded k]
  show ?thesis
    using rsu_refines_service [OF at(1), of "[]"] at(2,3) some_turn_ok(1) some_service by (auto simp: k)
qed

theorem rsu_program_serves_witness:
  "\<exists>t. rsu_main some_mac [''rsu''] [some_turn, some_turn, alarm_turn, some_turn] =
     Inr ([Handle_Signals [SIGINT, SIGTERM, SIGALRM], Alarm_In (Some 60), Sync_Disks, Power_Off], t) \<and>
     length (on_wire t) = 2"
proof -
  have m: "length some_mac = 6" by (simp add: some_mac_def)
  have a: "rsu_arguments [''rsu''] = Inr \<lparr>ra_timeout = 60, ra_iface = ''eth0'', ra_quadrant = 0\<rparr>"
    by (simp add: rsu_arguments_def argument_def)
  have al: "alarm_after 60 = Some 60" by (simp add: alarm_after_def Let_def)
  show ?thesis
    using rsu_program_serves [OF m a, of "[some_turn]" "[some_turn]" "\<lambda>e. [(0, some_request)]" alarm_turn "[some_turn]"]
      some_turn_ok some_service
    by (auto simp: al frames_in_def serve_append [of _ "[some_turn]" "[some_turn]", simplified append.simps] simp del: serve.simps)
qed

end
