(* ===== verification/Nic_Threads.thy ===== *)
theory Nic_Threads
  imports Stack_Delivery
begin

text \<open>
  The buffers of a NIC under several threads (\<open>nic.hpp\<close>, \<open>buffer.hpp\<close>): the threads of the
  SmartData and of the periodic tasks that send through \<open>Protocol::send\<close>, and the engine's thread in
  \<open>_handle\<close>. \<open>alloc\<close> and \<open>_handle\<close> hold \<open>_pool_mutex\<close>; \<open>free\<close> does not.
\<close>

section \<open>Threads on one pool\<close>

text \<open>
  What a thread does: send a payload, or handle a frame that has arrived. The steps are the writes to
  a buffer in the order of the code. \<open>Scan j i\<close> is about to test buffer \<open>i\<close>, \<open>Take\<close>, \<open>Meta\<close>,
  \<open>Size\<close> and \<open>Fill\<close> write the state, the metadata, the size and the frame, \<open>Use\<close> passes the
  buffer to the engine or to the observers, and the last three are the assignments of \<open>release\<close>.
\<close>

datatype job = Send_Job address address byte "byte list" | Handle_Job "byte list"

datatype pool_pc = Idle | Scan job nat | Take job nat | Meta job nat | Size job nat | Fill job nat
  | Use job nat | Rel_State job nat | Rel_Meta job nat | Rel_Size job nat

record pool_sys =
  q_self :: nat
  q_address :: mac
  q_pool :: "buffer list"
  q_mutex :: "nat option"
  q_pcs :: "pool_pc list"
  q_passed :: "(job \<times> byte list) list"  \<comment> \<open>what was passed on, to the engine or to the observers\<close>

definition pool_start :: "nat \<Rightarrow> mac \<Rightarrow> buffer list \<Rightarrow> nat \<Rightarrow> pool_sys" where
  "pool_start self a bs n = \<lparr>q_self = self, q_address = a, q_pool = bs, q_mutex = None,
     q_pcs = replicate n Idle, q_passed = []\<rparr>"

fun is_send :: "job \<Rightarrow> bool" where
  "is_send (Send_Job src dst q d) = True"
| "is_send (Handle_Job raw) = False"

fun job_size :: "job \<Rightarrow> nat" where
  "job_size (Send_Job src dst q d) = 6 * 2 + 2 + (header_size + length d)"
| "job_size (Handle_Job raw) = length raw"

fun job_ok :: "job \<Rightarrow> bool" where
  "job_ok (Send_Job src dst q d) \<longleftrightarrow> length (paddr dst) = 6 \<and> length d \<le> PROTOCOL_MTU"
| "job_ok (Handle_Job raw) \<longleftrightarrow> length raw \<le> frame_size"

definition go :: "nat \<Rightarrow> pool_pc \<Rightarrow> pool_sys \<Rightarrow> pool_sys" where
  "go t pc s = s\<lparr>q_pcs := (q_pcs s)[t := pc]\<rparr>"

definition on_buf :: "nat \<Rightarrow> (buffer \<Rightarrow> buffer) \<Rightarrow> pool_sys \<Rightarrow> pool_sys" where
  "on_buf i f s = s\<lparr>q_pool := (q_pool s)[i := f (q_pool s ! i)]\<rparr>"

definition unlock :: "pool_sys \<Rightarrow> pool_sys" where "unlock s = s\<lparr>q_mutex := None\<rparr>"

text \<open>The frame a sender assembles in its buffer.\<close>

fun assembled :: "job \<Rightarrow> buffer \<Rightarrow> buffer" where
  "assembled (Send_Job src dst q d) b = b\<lparr>b_frame := poke (14 + header_size) d
     (put_header \<lparr>src_port = htons (port src), dst_port = htons (port dst),
        payload_size = htons (of_nat (length d)), src_quadrant = q\<rparr> (b_frame b))\<rparr>"
| "assembled (Handle_Job raw) b = b"

fun filled :: "nat \<Rightarrow> mac \<Rightarrow> job \<Rightarrow> buffer \<Rightarrow> buffer" where
  "filled self a (Send_Job src dst q d) b = b\<lparr>b_owner := Some self,
     b_frame := set_frame_type (htons (htons PROTO)) (set_frame_src a (set_frame_dst (paddr dst) (b_frame b)))\<rparr>"
| "filled self a (Handle_Job raw) b = b\<lparr>b_frame := poke 0 raw (b_frame b)\<rparr>"

definition cleared :: "buffer \<Rightarrow> buffer" where "cleared b = b\<lparr>b_size := 0, b_valid := False\<rparr>"

text \<open>A sender gives the engine as many bytes as the buffer's size says; the observers get the buffer.\<close>

definition passed :: "job \<Rightarrow> buffer \<Rightarrow> byte list" where
  "passed j b = (if is_send j then take (b_size b) (b_frame b) else b_frame b)"

fun pool_advance :: "nat \<Rightarrow> pool_pc \<Rightarrow> pool_sys \<Rightarrow> pool_sys option" where
  "pool_advance t Idle s = None"
| "pool_advance t (Scan j i) s =
     (if i < length (q_pool s)
      then Some (go t (if is_free (q_pool s ! i) then Take j i else Scan j (Suc i)) s)
      else Some (go t Idle (unlock s)))"
| "pool_advance t (Take j i) s = Some (go t (Meta j i) (on_buf i (\<lambda>b. b\<lparr>b_state := ALLOCATED\<rparr>) s))"
| "pool_advance t (Meta j i) s = Some (go t (Size j i) (on_buf i cleared s))"
| "pool_advance t (Size j i) s = Some (go t (Fill j i) (on_buf i (\<lambda>b. b\<lparr>b_size := job_size j\<rparr>) s))"
| "pool_advance t (Fill j i) s =
     Some (go t (Use j i) (on_buf i (filled (q_self s) (q_address s) j) (if is_send j then unlock s else s)))"
| "pool_advance t (Use j i) s =
     (let u = on_buf i (assembled j) s; b = q_pool u ! i; v = u\<lparr>q_passed := q_passed s @ [(j, passed j b)]\<rparr> in
      if is_send j \<or> b_owner b \<noteq> None then Some (go t (Rel_State j i) v) else Some (go t Idle (unlock v)))"
| "pool_advance t (Rel_State j i) s = Some (go t (Rel_Meta j i) (on_buf i (\<lambda>b. b\<lparr>b_state := FREE\<rparr>) s))"
| "pool_advance t (Rel_Meta j i) s = Some (go t (Rel_Size j i) (on_buf i cleared s))"
| "pool_advance t (Rel_Size j i) s =
     Some (go t Idle (on_buf i (\<lambda>b. b\<lparr>b_size := 0\<rparr>) (if is_send j then s else unlock s)))"

text \<open>A thread starts when it gets the mutex.\<close>

datatype pool_act = Begin nat job | Advance nat

fun pool_exec :: "pool_sys \<Rightarrow> pool_act \<Rightarrow> pool_sys option" where
  "pool_exec s (Begin t j) =
     (if t < length (q_pcs s) \<and> q_pcs s ! t = Idle \<and> q_mutex s = None \<and> job_ok j
      then Some (go t (Scan j 0) (s\<lparr>q_mutex := Some t\<rparr>)) else None)"
| "pool_exec s (Advance t) = (if t < length (q_pcs s) then pool_advance t (q_pcs s ! t) s else None)"

definition pool_step :: "pool_sys \<Rightarrow> pool_sys \<Rightarrow> bool" where
  "pool_step s u \<longleftrightarrow> (\<exists>a. pool_exec s a = Some u)"

fun pool_run :: "pool_act list \<Rightarrow> pool_sys \<Rightarrow> pool_sys option" where
  "pool_run [] s = Some s"
| "pool_run (a # as) s = Option.bind (pool_exec s a) (pool_run as)"

section \<open>The invariant\<close>

fun holds :: "pool_pc \<Rightarrow> nat option" where
  "holds (Meta j i) = Some i" | "holds (Size j i) = Some i" | "holds (Fill j i) = Some i"
| "holds (Use j i) = Some i" | "holds (Rel_State j i) = Some i" | "holds _ = None"

fun locked :: "pool_pc \<Rightarrow> bool" where
  "locked Idle = False" | "locked (Scan j i) = True" | "locked (Take j i) = True" | "locked (Meta j i) = True"
| "locked (Size j i) = True" | "locked (Fill j i) = True" | "locked (Use j i) \<longleftrightarrow> \<not> is_send j"
| "locked (Rel_State j i) \<longleftrightarrow> \<not> is_send j" | "locked (Rel_Meta j i) \<longleftrightarrow> \<not> is_send j"
| "locked (Rel_Size j i) \<longleftrightarrow> \<not> is_send j"

fun pc_job :: "pool_pc \<Rightarrow> job option" where
  "pc_job Idle = None" | "pc_job (Scan j i) = Some j" | "pc_job (Take j i) = Some j" | "pc_job (Meta j i) = Some j"
| "pc_job (Size j i) = Some j" | "pc_job (Fill j i) = Some j" | "pc_job (Use j i) = Some j"
| "pc_job (Rel_State j i) = Some j" | "pc_job (Rel_Meta j i) = Some j" | "pc_job (Rel_Size j i) = Some j"

text \<open>The frame of a buffer that was filled for a job.\<close>

fun frame_for :: "nat \<Rightarrow> mac \<Rightarrow> job \<Rightarrow> buffer \<Rightarrow> bool" where
  "frame_for self a (Send_Job src dst q d) b \<longleftrightarrow> b_owner b = Some self \<and>
     (\<exists>b0. length (b_frame b0) = frame_size \<and>
        b_frame b = b_frame (fill_alloc self a (paddr dst) (htons PROTO) (header_size + length d) b0))"
| "frame_for self a (Handle_Job raw) b \<longleftrightarrow> take (length raw) (b_frame b) = raw"

text \<open>What a thread knows of its buffer. Another thread may set the size to zero at any time.\<close>

fun fits :: "nat \<Rightarrow> mac \<Rightarrow> pool_pc \<Rightarrow> buffer list \<Rightarrow> bool" where
  "fits self a Idle bs \<longleftrightarrow> True"
| "fits self a (Scan j i) bs \<longleftrightarrow> True"
| "fits self a (Take j i) bs \<longleftrightarrow> i < length bs \<and> is_free (bs ! i)"
| "fits self a (Meta j i) bs \<longleftrightarrow> i < length bs \<and> \<not> is_free (bs ! i)"
| "fits self a (Size j i) bs \<longleftrightarrow> i < length bs \<and> \<not> is_free (bs ! i)"
| "fits self a (Fill j i) bs \<longleftrightarrow> i < length bs \<and> \<not> is_free (bs ! i) \<and> b_size (bs ! i) \<in> {0, job_size j}"
| "fits self a (Use j i) bs \<longleftrightarrow> i < length bs \<and> \<not> is_free (bs ! i) \<and> b_size (bs ! i) \<in> {0, job_size j} \<and>
     frame_for self a j (bs ! i)"
| "fits self a (Rel_State j i) bs \<longleftrightarrow> i < length bs \<and> \<not> is_free (bs ! i)"
| "fits self a (Rel_Meta j i) bs \<longleftrightarrow> i < length bs"
| "fits self a (Rel_Size j i) bs \<longleftrightarrow> i < length bs"

text \<open>What may be passed on: a sender's frame whole or not at all; of a received frame, all its bytes.\<close>

fun good_pass :: "mac \<Rightarrow> job \<times> byte list \<Rightarrow> bool" where
  "good_pass a (Send_Job src dst q d, bs) \<longleftrightarrow> bs = [] \<or> bs = wire_frame a src dst q d"
| "good_pass a (Handle_Job raw, bs) \<longleftrightarrow> take (length raw) bs = raw"

definition pool_inv :: "pool_sys \<Rightarrow> bool" where
  "pool_inv s \<longleftrightarrow> length (q_address s) = 6 \<and>
     (\<forall>b\<in>set (q_pool s). length (b_frame b) = frame_size) \<and>
     (\<forall>t. q_mutex s = Some t \<longleftrightarrow> t < length (q_pcs s) \<and> locked (q_pcs s ! t)) \<and>
     (\<forall>t<length (q_pcs s). fits (q_self s) (q_address s) (q_pcs s ! t) (q_pool s) \<and>
        (\<forall>j. pc_job (q_pcs s ! t) = Some j \<longrightarrow> job_ok j)) \<and>
     (\<forall>t<length (q_pcs s). \<forall>u<length (q_pcs s). \<forall>i. holds (q_pcs s ! t) = Some i \<longrightarrow> holds (q_pcs s ! u) = Some i \<longrightarrow> t = u) \<and>
     (\<forall>i<length (q_pool s). \<not> is_free (q_pool s ! i) \<longrightarrow> b_owner (q_pool s ! i) \<noteq> None \<longrightarrow>
        (\<exists>t<length (q_pcs s). holds (q_pcs s ! t) = Some i)) \<and>
     (\<forall>p\<in>set (q_passed s). good_pass (q_address s) p)"

lemma pool_inv_thread:
  assumes "pool_inv s" and "t < length (q_pcs s)"
  shows "fits (q_self s) (q_address s) (q_pcs s ! t) (q_pool s)"
    and "pc_job (q_pcs s ! t) = Some j \<Longrightarrow> job_ok j" and "q_mutex s = Some t \<longleftrightarrow> locked (q_pcs s ! t)"
  using assms by (simp_all add: pool_inv_def)

lemma holds_fits: "holds pc = Some i \<Longrightarrow> fits self a pc bs \<Longrightarrow> i < length bs \<and> \<not> is_free (bs ! i)"
  by (cases pc) auto

text \<open>A write to a buffer another thread has nothing to do with.\<close>

lemma fits_elsewhere:
  assumes "fits self a pc bs" and "holds pc \<noteq> Some i" and "\<And>j. pc \<noteq> Take j i"
  shows "fits self a pc (bs[i := b])"
proof -
  have "bs[i := b] ! k = bs ! k" if "k \<noteq> i" for k using that by simp
  then show ?thesis using assms by (cases pc) fastforce+
qed

text \<open>The late writes of \<open>release\<close>.\<close>

lemma fits_zeroed:
  assumes "fits self a pc bs" and "b_state b = b_state (bs ! i)" and "b_frame b = b_frame (bs ! i)"
    and "b_owner b = b_owner (bs ! i)" and "b_size b = 0"
  shows "fits self a pc (bs[i := b])"
proof -
  have at: "bs[i := b] ! k = bs ! k \<or> bs[i := b] ! k = b \<and> k = i" for k
    by (cases "k = i"; cases "i < length bs") (simp_all add: list_update_beyond)
  have eq: "is_free (bs[i := b] ! k) = is_free (bs ! k)" "b_size (bs[i := b] ! k) = 0 \<or> b_size (bs[i := b] ! k) = b_size (bs ! k)"
    "b_frame (bs[i := b] ! k) = b_frame (bs ! k)" "b_owner (bs[i := b] ! k) = b_owner (bs ! k)" for k
    using at [of k] assms(2-5) by (auto simp: is_free_def)
  have fr: "frame_for self a j (bs[i := b] ! k) = frame_for self a j (bs ! k)" for j k
    by (cases j) (simp_all add: eq(3,4))
  show ?thesis
  proof (cases pc)
    case (Fill j k)
    then show ?thesis using assms(1) eq(2) [of k] by (auto simp: eq(1))
  next
    case (Use j k)
    then show ?thesis using assms(1) eq(2) [of k] by (auto simp: eq(1) fr)
  qed (use assms(1) in \<open>simp_all add: eq(1)\<close>)
qed

text \<open>A thread's step on its own buffer keeps the invariant if it leaves the thread what it needs.\<close>

lemma own_write:
  assumes inv: "pool_inv s" and t: "t < length (q_pcs s)" and pc: "holds (q_pcs s ! t) = Some i \<or> (\<exists>j. q_pcs s ! t = Take j i)"
    and b: "length (b_frame b) = frame_size" and new: "fits (q_self s) (q_address s) pc' ((q_pool s)[i := b])"
    and job: "pc_job pc' = None \<or> pc_job pc' = pc_job (q_pcs s ! t)"
    and m: "m = (if locked pc' then Some t else if q_mutex s = Some t then None else q_mutex s)"
    and lk: "locked pc' \<longrightarrow> locked (q_pcs s ! t)"
    and h: "holds pc' \<in> {None, Some i}" and fr: "\<not> is_free b \<Longrightarrow> b_owner b \<noteq> None \<Longrightarrow> holds pc' = Some i"
    and ps: "\<forall>p\<in>set ps. good_pass (q_address s) p"
  shows "pool_inv (s\<lparr>q_pool := (q_pool s)[i := b], q_pcs := (q_pcs s)[t := pc'], q_mutex := m,
    q_passed := q_passed s @ ps\<rparr>)"
proof -
  note th = pool_inv_thread [OF inv]
  have mutex: "\<And>u. q_mutex s = Some u \<longleftrightarrow> u < length (q_pcs s) \<and> locked (q_pcs s ! u)"
    and one: "\<And>u v k. u < length (q_pcs s) \<Longrightarrow> v < length (q_pcs s) \<Longrightarrow> holds (q_pcs s ! u) = Some k \<Longrightarrow>
      holds (q_pcs s ! v) = Some k \<Longrightarrow> u = v"
    and held: "\<And>k. k < length (q_pool s) \<Longrightarrow> \<not> is_free (q_pool s ! k) \<Longrightarrow> b_owner (q_pool s ! k) \<noteq> None \<Longrightarrow>
      \<exists>u<length (q_pcs s). holds (q_pcs s ! u) = Some k"
    using inv by (simp_all add: pool_inv_def)
  have mine: "holds (q_pcs s ! u) \<noteq> Some i" if u: "u < length (q_pcs s)" "u \<noteq> t" for u
  proof
    assume hu: "holds (q_pcs s ! u) = Some i"
    from pc show False
    proof
      assume "holds (q_pcs s ! t) = Some i"
      from one [OF t u(1) this hu] u(2) show False by simp
    next
      assume "\<exists>j. q_pcs s ! t = Take j i"
      then have "is_free (q_pool s ! i)" using th(1) [OF t] by auto
      then show False using holds_fits [OF hu th(1) [OF u(1)]] by simp
    qed
  qed
  have notake: "q_pcs s ! u \<noteq> Take j i" if u: "u < length (q_pcs s)" "u \<noteq> t" for u j
  proof
    assume tk: "q_pcs s ! u = Take j i"
    then have "q_mutex s = Some u" using mutex u(1) by simp
    then have "\<not> locked (q_pcs s ! t)" using mutex [of t] u(2) t by auto
    then have "holds (q_pcs s ! t) = Some i" using pc by auto
    then have "\<not> is_free (q_pool s ! i)" using holds_fits th(1) [OF t] by blast
    then show False using th(1) [OF u(1)] tk by simp
  qed
  have "\<forall>u<length (q_pcs s). fits (q_self s) (q_address s) ((q_pcs s)[t := pc'] ! u) ((q_pool s)[i := b]) \<and>
      (\<forall>j. pc_job ((q_pcs s)[t := pc'] ! u) = Some j \<longrightarrow> job_ok j)"
    using new job th(2) [OF t] fits_elsewhere [OF th(1)] mine notake th(2) t by (auto simp: nth_list_update)
  moreover have "\<forall>u. m = Some u \<longleftrightarrow> u < length (q_pcs s) \<and> locked ((q_pcs s)[t := pc'] ! u)"
  proof
    fix u
    show "m = Some u \<longleftrightarrow> u < length (q_pcs s) \<and> locked ((q_pcs s)[t := pc'] ! u)"
      using m mutex [of u] mutex [of t] lk t by (auto simp: nth_list_update)
  qed
  moreover have "\<forall>u<length (q_pcs s). \<forall>v<length (q_pcs s). \<forall>k. holds ((q_pcs s)[t := pc'] ! u) = Some k \<longrightarrow>
      holds ((q_pcs s)[t := pc'] ! v) = Some k \<longrightarrow> u = v"
    using one mine h t by (auto simp: nth_list_update)
  moreover have "\<exists>u<length (q_pcs s). holds ((q_pcs s)[t := pc'] ! u) = Some k"
    if k: "k < length (q_pool s)" "\<not> is_free ((q_pool s)[i := b] ! k)" "b_owner ((q_pool s)[i := b] ! k) \<noteq> None" for k
  proof (cases "k = i")
    case True
    then show ?thesis using k fr t by (intro exI [of _ t]) simp
  next
    case False
    then obtain u where u: "u < length (q_pcs s)" "holds (q_pcs s ! u) = Some k" using held k by auto
    then have "u \<noteq> t" using pc False by auto
    then show ?thesis using u by (intro exI [of _ u]) simp
  qed
  moreover have "\<forall>c\<in>set ((q_pool s)[i := b]). length (b_frame c) = frame_size"
    using inv b set_update_subset_insert [of "q_pool s" i b] by (auto simp: pool_inv_def)
  moreover have "\<forall>p\<in>set (q_passed s @ ps). good_pass (q_address s) p" "length (q_address s) = 6"
    using inv ps by (auto simp: pool_inv_def)
  ultimately show ?thesis by (simp add: pool_inv_def)
qed

text \<open>So does a step that writes nothing, and a late write of \<open>release\<close>.\<close>

lemma late_write:
  assumes inv: "pool_inv s" and t: "t < length (q_pcs s)" and pc: "holds (q_pcs s ! t) = None"
    and new: "fits (q_self s) (q_address s) pc' (q_pool s)" and i: "i < length (q_pool s) \<Longrightarrow> b_state b = b_state (q_pool s ! i) \<and>
      b_frame b = b_frame (q_pool s ! i) \<and> b_owner b = b_owner (q_pool s ! i) \<and> (b_size b = 0 \<or> b = q_pool s ! i)"
    and job: "pc_job pc' = None \<or> pc_job pc' = pc_job (q_pcs s ! t)"
    and m: "m = (if locked pc' then Some t else if q_mutex s = Some t then None else q_mutex s)"
    and lk: "locked pc' \<longrightarrow> locked (q_pcs s ! t)" and h: "holds pc' = None"
  shows "pool_inv (s\<lparr>q_pool := (q_pool s)[i := b], q_pcs := (q_pcs s)[t := pc'], q_mutex := m\<rparr>)"
proof -
  note th = pool_inv_thread [OF inv]
  have mutex: "\<And>u. q_mutex s = Some u \<longleftrightarrow> u < length (q_pcs s) \<and> locked (q_pcs s ! u)"
    and one: "\<And>u v k. u < length (q_pcs s) \<Longrightarrow> v < length (q_pcs s) \<Longrightarrow> holds (q_pcs s ! u) = Some k \<Longrightarrow>
      holds (q_pcs s ! v) = Some k \<Longrightarrow> u = v"
    and held: "\<And>k. k < length (q_pool s) \<Longrightarrow> \<not> is_free (q_pool s ! k) \<Longrightarrow> b_owner (q_pool s ! k) \<noteq> None \<Longrightarrow>
      \<exists>u<length (q_pcs s). holds (q_pcs s ! u) = Some k"
    using inv by (simp_all add: pool_inv_def)
  have keep: "fits self a qc ((q_pool s)[i := b])" if "fits self a qc (q_pool s)" for self a qc
  proof (cases "i < length (q_pool s) \<and> b_size b = 0")
    case True
    then show ?thesis by (intro fits_zeroed [OF that]) (simp_all add: i)
  next
    case False
    then have "(q_pool s)[i := b] = q_pool s" using i by (cases "i < length (q_pool s)") (auto simp: list_update_beyond)
    then show ?thesis using that by simp
  qed
  have same: "is_free ((q_pool s)[i := b] ! k) = is_free (q_pool s ! k)" "b_owner ((q_pool s)[i := b] ! k) = b_owner (q_pool s ! k)"
    for k
  proof -
    have "(q_pool s)[i := b] ! k = q_pool s ! k \<or> (q_pool s)[i := b] ! k = b \<and> k = i \<and> i < length (q_pool s)"
      by (cases "k = i"; cases "i < length (q_pool s)") (simp_all add: list_update_beyond)
    then show "is_free ((q_pool s)[i := b] ! k) = is_free (q_pool s ! k)"
      "b_owner ((q_pool s)[i := b] ! k) = b_owner (q_pool s ! k)" using i by (auto simp: is_free_def)
  qed
  have "\<forall>u<length (q_pcs s). fits (q_self s) (q_address s) ((q_pcs s)[t := pc'] ! u) ((q_pool s)[i := b]) \<and>
      (\<forall>j. pc_job ((q_pcs s)[t := pc'] ! u) = Some j \<longrightarrow> job_ok j)"
    using keep new th(1,2) job t by (auto simp: nth_list_update)
  moreover have "\<forall>u. m = Some u \<longleftrightarrow> u < length (q_pcs s) \<and> locked ((q_pcs s)[t := pc'] ! u)"
  proof
    fix u
    show "m = Some u \<longleftrightarrow> u < length (q_pcs s) \<and> locked ((q_pcs s)[t := pc'] ! u)"
      using m mutex [of u] mutex [of t] lk t by (auto simp: nth_list_update)
  qed
  moreover have "\<forall>u<length (q_pcs s). \<forall>v<length (q_pcs s). \<forall>k. holds ((q_pcs s)[t := pc'] ! u) = Some k \<longrightarrow>
      holds ((q_pcs s)[t := pc'] ! v) = Some k \<longrightarrow> u = v"
    using one h t by (auto simp: nth_list_update)
  moreover have "\<exists>u<length (q_pcs s). holds ((q_pcs s)[t := pc'] ! u) = Some k"
    if k: "k < length (q_pool s)" "\<not> is_free (q_pool s ! k)" "b_owner (q_pool s ! k) \<noteq> None" for k
  proof -
    obtain u where u: "u < length (q_pcs s)" "holds (q_pcs s ! u) = Some k" using held [OF k] by blast
    then have "u \<noteq> t" using pc by auto
    then show ?thesis using u by (intro exI [of _ u]) simp
  qed
  moreover have "\<forall>c\<in>set ((q_pool s)[i := b]). length (b_frame c) = frame_size"
    using inv i set_update_subset_insert [of "q_pool s" i b] nth_mem [of i "q_pool s"]
    by (cases "i < length (q_pool s)") (auto simp: pool_inv_def list_update_beyond)
  moreover have "\<forall>p\<in>set (q_passed s). good_pass (q_address s) p" "length (q_address s) = 6"
    using inv by (simp_all add: pool_inv_def)
  ultimately show ?thesis by (simp add: pool_inv_def same)
qed

section \<open>Every step keeps the invariant\<close>

lemma frame_length: "pool_inv s \<Longrightarrow> i < length (q_pool s) \<Longrightarrow> length (b_frame (q_pool s ! i)) = frame_size"
  by (simp add: pool_inv_def)

lemma filled_frame_for:
  assumes "length (b_frame b) = frame_size" and "length a = 6" and "job_ok j"
  shows "length (b_frame (filled self a j b)) = frame_size" and "frame_for self a j (filled self a j b)"
  using assms
  by (cases j; force simp: fill_alloc_def allocate_def set_frame_dst_def set_frame_src_def set_frame_type_def
      frame_size_def poke_def)+

lemma filled_simps [simp]:
  "is_free (filled self a j b) = is_free b" "b_size (filled self a j b) = b_size b"
  "is_free (assembled j b) = is_free b" "b_size (assembled j b) = b_size b" "b_owner (assembled j b) = b_owner b"
  "is_free (cleared b) = is_free b"
  by (cases j; simp add: is_free_def cleared_def)+

text \<open>What leaves a filled buffer.\<close>

lemma passed_good:
  assumes "frame_for self a j b" and "length a = 6" and "job_ok j" and "b_size b \<in> {0, job_size j}"
    and "length (b_frame b) = frame_size"
  shows "good_pass a (j, passed j (assembled j b))" and "length (b_frame (assembled j b)) = frame_size"
proof -
  have "good_pass a (j, passed j (assembled j b)) \<and> length (b_frame (assembled j b)) = frame_size"
  proof (cases j)
    case (Send_Job src dst q d)
    then obtain b0 where b0: "length (b_frame b0) = frame_size"
        "b_frame b = b_frame (fill_alloc self a (paddr dst) (htons PROTO) (header_size + length d) b0)"
      using assms(1) by auto
    note ff = filled_frame [OF b0(1) assms(2), of dst d _ "src" q self "header_size + length d"]
    from ff [OF _ _ refl] show ?thesis
      using Send_Job assms(3,4) b0(2) by (auto simp: passed_def frame_size_def MTU_def PROTOCOL_MTU_def header_size_def)
  next
    case (Handle_Job raw)
    then show ?thesis using assms by (simp add: passed_def)
  qed
  then show "good_pass a (j, passed j (assembled j b))" and "length (b_frame (assembled j b)) = frame_size" by simp_all
qed

lemmas pool_writes = go_def on_buf_def unlock_def

lemma advance_inv:
  assumes inv: "pool_inv s" and t: "t < length (q_pcs s)" and ex: "pool_advance t (q_pcs s ! t) s = Some u"
  shows "pool_inv u"
proof -
  note th = pool_inv_thread [OF inv t]
  have a: "length (q_address s) = 6" using inv by (simp add: pool_inv_def)
  have mx: "q_mutex s = Some t" if "locked (q_pcs s ! t)" using that th(3) by simp
  have mn: "q_mutex s \<noteq> Some t" if "\<not> locked (q_pcs s ! t)" using that th(3) by simp
  show ?thesis
  proof (cases "q_pcs s ! t")
    case Idle
    then show ?thesis using ex by simp
  next
    case (Scan j i)
    let ?b = "q_pool s ! i"
    have *: "u = s\<lparr>q_pool := (q_pool s)[i := ?b], q_pcs := (q_pcs s)[t := if i < length (q_pool s)
        then (if is_free ?b then Take j i else Scan j (Suc i)) else Idle],
        q_mutex := if i < length (q_pool s) then Some t else None\<rparr>"
      using ex Scan mx by (cases s) (auto simp: pool_writes)
    show ?thesis unfolding * using Scan mx by (intro late_write [OF inv t]) auto
  next
    case (Take j i)
    let ?b = "(q_pool s ! i)\<lparr>b_state := ALLOCATED\<rparr>"
    have *: "u = s\<lparr>q_pool := (q_pool s)[i := ?b], q_pcs := (q_pcs s)[t := Meta j i], q_mutex := Some t,
        q_passed := q_passed s @ []\<rparr>"
      using ex Take mx by (cases s) (auto simp: pool_writes)
    show ?thesis unfolding * using Take th(1) frame_length [OF inv, of i]
      by (intro own_write [OF inv t]) (auto simp: is_free_def)
  next
    case (Meta j i)
    let ?b = "cleared (q_pool s ! i)"
    have *: "u = s\<lparr>q_pool := (q_pool s)[i := ?b], q_pcs := (q_pcs s)[t := Size j i], q_mutex := Some t,
        q_passed := q_passed s @ []\<rparr>"
      using ex Meta mx by (cases s) (auto simp: pool_writes)
    show ?thesis unfolding * using Meta th(1) frame_length [OF inv, of i]
      by (intro own_write [OF inv t]) (auto simp: cleared_def is_free_def)
  next
    case (Size j i)
    let ?b = "(q_pool s ! i)\<lparr>b_size := job_size j\<rparr>"
    have *: "u = s\<lparr>q_pool := (q_pool s)[i := ?b], q_pcs := (q_pcs s)[t := Fill j i], q_mutex := Some t,
        q_passed := q_passed s @ []\<rparr>"
      using ex Size mx by (cases s) (auto simp: pool_writes)
    show ?thesis unfolding * using Size th(1) frame_length [OF inv, of i]
      by (intro own_write [OF inv t]) auto
  next
    case (Fill j i)
    let ?b = "filled (q_self s) (q_address s) j (q_pool s ! i)"
    have *: "u = s\<lparr>q_pool := (q_pool s)[i := ?b], q_pcs := (q_pcs s)[t := Use j i],
        q_mutex := if is_send j then None else Some t, q_passed := q_passed s @ []\<rparr>"
      using ex Fill mx by (cases s) (auto simp: pool_writes)
    show ?thesis unfolding * using Fill th(1,2) mx frame_length [OF inv, of i] filled_frame_for [of "q_pool s ! i" "q_address s" j "q_self s"] a
      by (intro own_write [OF inv t]) auto
  next
    case (Use j i)
    let ?b = "assembled j (q_pool s ! i)"
    let ?pc = "if is_send j \<or> b_owner ?b \<noteq> None then Rel_State j i else Idle"
    have i: "i < length (q_pool s)" using th(1) Use by simp
    have *: "u = s\<lparr>q_pool := (q_pool s)[i := ?b], q_pcs := (q_pcs s)[t := ?pc],
        q_mutex := if locked ?pc then Some t else if q_mutex s = Some t then None else q_mutex s,
        q_passed := q_passed s @ [(j, passed j ?b)]\<rparr>"
      using ex Use mx mn i by (cases s) (auto simp: pool_writes Let_def)
    show ?thesis unfolding * using Use th(1,2) i frame_length [OF inv i] passed_good [of "q_self s" "q_address s" j "q_pool s ! i"] a
      by (intro own_write [OF inv t]) auto
  next
    case (Rel_State j i)
    let ?b = "(q_pool s ! i)\<lparr>b_state := FREE\<rparr>"
    have *: "u = s\<lparr>q_pool := (q_pool s)[i := ?b], q_pcs := (q_pcs s)[t := Rel_Meta j i],
        q_mutex := if locked (Rel_Meta j i) then Some t else if q_mutex s = Some t then None else q_mutex s,
        q_passed := q_passed s @ []\<rparr>"
      using ex Rel_State mx mn by (cases s) (auto simp: pool_writes)
    show ?thesis unfolding * using Rel_State th(1) frame_length [OF inv, of i]
      by (intro own_write [OF inv t]) (auto simp: is_free_def)
  next
    case (Rel_Meta j i)
    let ?b = "cleared (q_pool s ! i)"
    have *: "u = s\<lparr>q_pool := (q_pool s)[i := ?b], q_pcs := (q_pcs s)[t := Rel_Size j i],
        q_mutex := if locked (Rel_Size j i) then Some t else if q_mutex s = Some t then None else q_mutex s\<rparr>"
      using ex Rel_Meta mx mn by (cases s) (auto simp: pool_writes)
    show ?thesis unfolding * using Rel_Meta th(1) by (intro late_write [OF inv t]) (auto simp: cleared_def)
  next
    case (Rel_Size j i)
    let ?b = "(q_pool s ! i)\<lparr>b_size := 0\<rparr>"
    have *: "u = s\<lparr>q_pool := (q_pool s)[i := ?b], q_pcs := (q_pcs s)[t := Idle],
        q_mutex := if locked Idle then Some t else if q_mutex s = Some t then None else q_mutex s\<rparr>"
      using ex Rel_Size mx mn by (cases s) (auto simp: pool_writes)
    show ?thesis unfolding * using Rel_Size th(1) by (intro late_write [OF inv t]) auto
  qed
qed

lemma begin_inv:
  assumes inv: "pool_inv s" and ex: "pool_exec s (Begin t j) = Some u"
  shows "pool_inv u"
proof -
  have t: "t < length (q_pcs s)" "q_pcs s ! t = Idle" "q_mutex s = None" "job_ok j"
      "u = s\<lparr>q_mutex := Some t, q_pcs := (q_pcs s)[t := Scan j 0]\<rparr>"
    using ex by (auto simp: go_def split: if_splits)
  have un: "\<not> locked (q_pcs s ! v)" if "v < length (q_pcs s)" for v
    using pool_inv_thread(3) [OF inv that] t(3) by simp
  have "\<forall>v<length (q_pcs s). fits (q_self s) (q_address s) ((q_pcs s)[t := Scan j 0] ! v) (q_pool s) \<and>
      (\<forall>k. pc_job ((q_pcs s)[t := Scan j 0] ! v) = Some k \<longrightarrow> job_ok k)"
    using pool_inv_thread(1,2) [OF inv] t(1,4) by (auto simp: nth_list_update)
  moreover have "\<forall>v. Some t = Some v \<longleftrightarrow> v < length (q_pcs s) \<and> locked ((q_pcs s)[t := Scan j 0] ! v)"
    using t(1) un by (auto simp: nth_list_update)
  moreover have hd: "holds ((q_pcs s)[t := Scan j 0] ! v) = holds (q_pcs s ! v)" for v
    using t(1,2) by (cases "v = t") simp_all
  ultimately show ?thesis using inv by (simp add: pool_inv_def t(5))
qed

interpretation pool_threads: step_invariant pool_step pool_inv
proof
  fix s u
  assume "pool_step s u" and inv: "pool_inv s"
  then obtain a where a: "pool_exec s a = Some u" by (auto simp: pool_step_def)
  show "pool_inv u"
  proof (cases a)
    case (Begin t j)
    then show ?thesis using begin_inv [OF inv] a by simp
  next
    case (Advance t)
    then show ?thesis using advance_inv [OF inv] a by (auto split: if_splits)
  qed
qed

lemma pool_start_inv:
  assumes "pool_ok bs" and "length a = 6" and "\<forall>b\<in>set bs. is_free b"
  shows "pool_inv (pool_start self a bs n)"
  using assms by (simp add: pool_inv_def pool_start_def pool_ok_def)

lemma pool_run_reachable: "pool_run as s = Some u \<Longrightarrow> reachable pool_step s0 s \<Longrightarrow> reachable pool_step s0 u"
proof (induction as arbitrary: s)
  case (Cons a as)
  then obtain v where "pool_exec s a = Some v" "pool_run as v = Some u" by (auto simp: Option.bind_eq_Some_conv)
  moreover from this(1) have "reachable pool_step s0 v"
    by (intro reach_step [OF Cons.prems(2)]) (auto simp: pool_step_def)
  ultimately show ?case using Cons.IH by blast
qed simp

lemma pool_run_append: "pool_run (as @ bs) s = Option.bind (pool_run as s) (pool_run bs)"
proof (induction as arbitrary: s)
  case (Cons a as)
  then show ?case by (cases "pool_exec s a") simp_all
qed simp

lemma reachable_const:
  assumes "reachable pool_step s0 s"
  shows "q_address s = q_address s0 \<and> length (q_pcs s) = length (q_pcs s0)"
  using assms
proof induction
  case (reach_step s u)
  then obtain a where a: "pool_exec s a = Some u" by (auto simp: pool_step_def)
  have "q_address u = q_address s \<and> length (q_pcs u) = length (q_pcs s)"
  proof (cases a)
    case (Begin t j)
    then show ?thesis using a by (auto simp: go_def split: if_splits)
  next
    case (Advance t)
    then show ?thesis using a
      by (cases "q_pcs s ! t") (auto simp: go_def on_buf_def unlock_def Let_def split: if_splits)
  qed
  then show ?case using reach_step.IH by simp
qed simp

section \<open>One thread alone\<close>

lemma scan_finds:
  assumes "t < length (q_pcs s)" and "i < length (q_pool s)" and "is_free (q_pool s ! i)"
    and "\<forall>k<i. \<not> is_free (q_pool s ! k)" and "m \<le> i"
  shows "pool_run (replicate (Suc (i - m)) (Advance t)) (go t (Scan j m) s) = Some (go t (Take j i) s)"
  using assms(5)
proof (induction "i - m" arbitrary: m)
  case 0
  then show ?case using assms(1-3) by (simp add: go_def)
next
  case (Suc x)
  then have m: "m < i" "x = i - Suc m" by simp_all
  have "pool_exec (go t (Scan j m) s) (Advance t) = Some (go t (Scan j (Suc m)) s)"
    using assms(1,2,4) m(1) by (simp add: go_def)
  moreover have "i - m = Suc (i - Suc m)" using m(1) by simp
  ultimately show ?case using Suc.hyps(1) [OF m(2)] m(1) by simp
qed

lemma scan_fails:
  assumes "t < length (q_pcs s)" and "\<forall>k<length (q_pool s). \<not> is_free (q_pool s ! k)" and "m \<le> length (q_pool s)"
  shows "pool_run (replicate (Suc (length (q_pool s) - m)) (Advance t)) (go t (Scan j m) s) = Some (go t Idle (unlock s))"
  using assms(3)
proof (induction "length (q_pool s) - m" arbitrary: m)
  case 0
  then show ?case using assms(1) by (simp add: go_def unlock_def)
next
  case (Suc x)
  then have m: "m < length (q_pool s)" "x = length (q_pool s) - Suc m" by simp_all
  have "pool_exec (go t (Scan j m) s) (Advance t) = Some (go t (Scan j (Suc m)) s)"
    using assms(1,2) m(1) by (simp add: go_def)
  moreover have "length (q_pool s) - m = Suc (length (q_pool s) - Suc m)" using m(1) by simp
  ultimately show ?case using Suc.hyps(1) [OF m(2)] m(1) by simp
qed

text \<open>The eight steps from the buffer found to the mutex and the buffer given back.\<close>

lemma rest_of_send:
  assumes t: "t < length (q_pcs s)" and i: "i < length (q_pool s)" and j: "j = Send_Job src dst q d"
    and m: "q_mutex s = Some t" and idle: "q_pcs s ! t = Idle"
  defines "b \<equiv> assembled j (filled (q_self s) (q_address s) j
    ((q_pool s ! i)\<lparr>b_state := ALLOCATED, b_size := job_size j, b_valid := False\<rparr>))"
  shows "pool_run (replicate 8 (Advance t)) (go t (Take j i) s) =
    Some (s\<lparr>q_mutex := None, q_pool := (q_pool s)[i := release b], q_passed := q_passed s @ [(j, passed j b)]\<rparr>)"
proof -
  have e: "replicate 8 (Advance t) = [Advance t, Advance t, Advance t, Advance t, Advance t, Advance t, Advance t, Advance t]"
    by (simp add: numeral_eq_Suc)
  have "(q_pcs s)[t := Idle] = q_pcs s" using idle by (metis list_update_id)
  then show ?thesis
    using t i j m by (cases s; cases "q_pool s ! i") (simp add: e go_def on_buf_def unlock_def Let_def cleared_def release_def b_def)
qed

text \<open>The sequential model of the same send, when buffer \<open>i\<close> is the first free one.\<close>

lemma send_one_taken:
  assumes "pool_ok (q_pool s)" and "length (q_address s) = 6" and "length (paddr dst) = 6"
    and "length d \<le> PROTOCOL_MTU" and "first_index is_free (q_pool s) = Some i"
    and "pool (nics nd ! n) = q_pool s" and "n_address (nics nd ! n) = q_address s" and "q_self s = n"
    and "b = assembled (Send_Job src dst (my_quadrant pos nd) d) (filled (q_self s) (q_address s)
        (Send_Job src dst (my_quadrant pos nd) d) ((q_pool s ! i)\<lparr>b_state := ALLOCATED,
          b_size := job_size (Send_Job src dst (my_quadrant pos nd) d), b_valid := False\<rparr>))"
  shows "send_one pos src dst d (length d) n nd =
    Inr (nd\<lparr>nics := (nics nd)[n := (nics nd ! n)\<lparr>pool := (q_pool s)[i := release b]\<rparr>],
      on_wire := on_wire nd @ [(n, take (b_size b) (b_frame b))]\<rparr>)"
proof -
  have i: "i < length (q_pool s)" using assms(5) by (simp add: first_index_Some)
  have fb: "length (b_frame (q_pool s ! i)) = frame_size" using pool_ok_frame [OF assms(1) i] .
  note fl = filled_frame(1) [OF fb assms(2-4) refl, where k = n and sz = "header_size + length d",
      unfolded fill_alloc_def allocate_def]
  have room: "14 + header_size + length d \<le> frame_size"
    using assms(4) by (simp add: frame_size_def MTU_def PROTOCOL_MTU_def header_size_def)
  show ?thesis
    using i fl [of src "my_quadrant pos nd"] room assms(5-9)
    by (cases "q_pool s ! i") (simp add: send_one_def pool_alloc_def Let_def and_then_Inr_iff memcpy_Inr_iff
      release_def pool_free_def fill_alloc_def allocate_def)
qed

section \<open>Properties\<close>

text \<open>
  C18: a thread that runs without interference does to the pool exactly what the sequential model of
  \<open>Protocol::send\<close> does with its NIC: the same buffer is taken, filled and given back, the same
  bytes go to the engine, and with no buffer free nothing is sent.
\<close>

theorem send_alone:
  assumes "pool_ok (q_pool s)" and "length (q_address s) = 6" and "length (paddr dst) = 6"
    and "length d \<le> PROTOCOL_MTU" and "t < length (q_pcs s)" and "q_pcs s ! t = Idle" and "q_mutex s = None"
    and "n < length (nics nd)" and "pool (nics nd ! n) = q_pool s" and "n_address (nics nd ! n) = q_address s"
    and "q_self s = n"
  shows "\<exists>k u nd'. pool_run (Begin t (Send_Job src dst (my_quadrant pos nd) d) # replicate k (Advance t)) s = Some u \<and>
    send_one pos src dst d (length d) n nd = Inr nd' \<and> q_pool u = pool (nics nd' ! n) \<and> q_pcs u = q_pcs s \<and>
    q_mutex u = None \<and> on_wire nd' = on_wire nd @ map (\<lambda>p. (n, snd p)) (drop (length (q_passed s)) (q_passed u))"
proof -
  let ?j = "Send_Job src dst (my_quadrant pos nd) d"
  let ?s = "s\<lparr>q_mutex := Some t\<rparr>"
  have bg: "pool_exec s (Begin t ?j) = Some (go t (Scan ?j 0) ?s)" using assms by simp
  have idle: "(q_pcs s)[t := Idle] = q_pcs s" using assms(6) by (metis list_update_id)
  show ?thesis
  proof (cases "first_index is_free (q_pool s)")
    case None
    then have "\<forall>k<length (q_pool ?s). \<not> is_free (q_pool ?s ! k)" by (simp add: first_index_None)
    from scan_fails [OF _ this, of t 0 ?j] have "pool_run (replicate (Suc (length (q_pool s))) (Advance t))
        (go t (Scan ?j 0) ?s) = Some (go t Idle (unlock ?s))" using assms(5) by simp
    moreover have "send_one pos src dst d (length d) n nd = Inr nd"
      using None assms(9) by (simp add: send_one_def pool_alloc_def)
    ultimately show ?thesis using bg idle assms(9)
      by (intro exI [of _ "Suc (length (q_pool s))"] exI [of _ "go t Idle (unlock ?s)"] exI [of _ nd])
        (simp add: go_def unlock_def del: replicate_Suc)
  next
    case (Some i)
    then have i: "i < length (q_pool s)" "is_free (q_pool s ! i)" "\<forall>k<i. \<not> is_free (q_pool s ! k)"
      by (simp_all add: first_index_Some)
    have "pool_run (replicate (Suc i) (Advance t)) (go t (Scan ?j 0) ?s) = Some (go t (Take ?j i) ?s)"
      using scan_finds [of t ?s i 0 ?j] i assms(5) by simp
    moreover define b where "b = assembled ?j (filled (q_self s) (q_address s) ?j
        ((q_pool s ! i)\<lparr>b_state := ALLOCATED, b_size := job_size ?j, b_valid := False\<rparr>))"
    define u where "u = s\<lparr>q_pool := (q_pool s)[i := release b], q_passed := q_passed s @ [(?j, passed ?j b)]\<rparr>"
    have "pool_run (replicate 8 (Advance t)) (go t (Take ?j i) ?s) = Some u"
      using rest_of_send [of t ?s i ?j src dst "my_quadrant pos nd" d] i(1) assms(5-7)
      by (cases s) (simp add: b_def u_def)
    ultimately have "pool_run (replicate (Suc i) (Advance t) @ replicate 8 (Advance t)) (go t (Scan ?j 0) ?s) = Some u"
      unfolding pool_run_append by simp
    then have run: "pool_run (Begin t ?j # replicate (Suc i + 8) (Advance t)) s = Some u"
      unfolding replicate_add [symmetric] pool_run.simps bg by simp
    have "send_one pos src dst d (length d) n nd =
        Inr (nd\<lparr>nics := (nics nd)[n := (nics nd ! n)\<lparr>pool := (q_pool s)[i := release b]\<rparr>],
          on_wire := on_wire nd @ [(n, take (b_size b) (b_frame b))]\<rparr>)"
      by (rule send_one_taken [OF assms(1-4) Some assms(9-11) b_def])
    then show ?thesis using run assms(7,8)
      by (intro exI [of _ "Suc i + 8"] exI [of _ u]) (simp add: u_def passed_def)
  qed
qed

theorem send_alone_witness:
  "\<exists>k u. pool_run (Begin 1 (Send_Job \<lparr>paddr = BROADCAST, port = 3\<rparr> \<lparr>paddr = BROADCAST, port = 0\<rparr> 2 [7, 8]) #
      replicate k (Advance 1)) (pool_start 0 BROADCAST zero_pool 2) = Some u \<and> q_mutex u = None"
proof -
  let ?nd = "set_quadrant 2 (boot BROADCAST 3)"
  have "my_quadrant 0 ?nd = 2"
  proof -
    have "(2 :: byte) AND 0x3 = 2" by simp
    then show ?thesis by (simp add: my_quadrant_def get_quadrant_def set_quadrant_def)
  qed
  moreover have "length (nics ?nd) = 1" "pool (nics ?nd ! 0) = zero_pool" "n_address (nics ?nd ! 0) = BROADCAST"
    by (simp_all add: set_quadrant_def boot_fields)
  ultimately show ?thesis
    using send_alone [of "pool_start 0 BROADCAST zero_pool 2" "\<lparr>paddr = BROADCAST, port = 0\<rparr>" "[7, 8]" 1 0 ?nd
      "\<lparr>paddr = BROADCAST, port = 3\<rparr>" 0]
    by (auto simp: pool_start_def BROADCAST_def PROTOCOL_MTU_def MTU_def header_size_def)
qed

text \<open>
  C16: whatever the interleaving of any number of senders and the engine's thread on the pool of one
  NIC, although buffers are given back without the mutex: no buffer is ever in the hands of two
  threads, what a sender passes to the engine is its own frame, complete, or nothing at all, what the
  observers see of a received frame are its own bytes, and when all threads have finished every buffer
  is free again, except those with a null owner that received frames have taken for good.
\<close>

theorem pool_exclusive:
  assumes "pool_ok bs" and "length a = 6" and "\<forall>b\<in>set bs. is_free b"
    and "reachable pool_step (pool_start self a bs n) s"
  shows "(\<forall>t<n. \<forall>u<n. \<forall>i. holds (q_pcs s ! t) = Some i \<longrightarrow> holds (q_pcs s ! u) = Some i \<longrightarrow> t = u) \<and>
    (\<forall>(j, out)\<in>set (q_passed s). case j of
        Send_Job src dst q d \<Rightarrow> out = [] \<or> out = wire_frame a src dst q d
      | Handle_Job raw \<Rightarrow> take (length raw) out = raw) \<and>
    ((\<forall>t<n. q_pcs s ! t = Idle) \<longrightarrow> (\<forall>b\<in>set (q_pool s). is_free b \<or> b_owner b = None))"
proof -
  have inv: "pool_inv s" by (rule pool_threads.reachable_inv [OF assms(4) pool_start_inv [OF assms(1-3)]])
  have const: "q_address s = a" "length (q_pcs s) = n" using reachable_const [OF assms(4)] by (simp_all add: pool_start_def)
  have "case j of Send_Job src dst q d \<Rightarrow> out = [] \<or> out = wire_frame a src dst q d
      | Handle_Job raw \<Rightarrow> take (length raw) out = raw" if "(j, out) \<in> set (q_passed s)" for j out
  proof -
    have "good_pass a (j, out)" using inv that const(1) by (auto simp: pool_inv_def)
    then show ?thesis by (cases j) simp_all
  qed
  moreover have "is_free b \<or> b_owner b = None" if idle: "\<forall>t<n. q_pcs s ! t = Idle" and b: "b \<in> set (q_pool s)" for b
  proof (rule ccontr)
    assume "\<not> ?thesis"
    moreover obtain i where "i < length (q_pool s)" "b = q_pool s ! i" using b by (auto simp: in_set_conv_nth)
    ultimately obtain t where "t < n" "holds (q_pcs s ! t) = Some i" using inv const(2) by (auto simp: pool_inv_def)
    then show False using idle by simp
  qed
  moreover have "t = u" if "t < n" "u < n" "holds (q_pcs s ! t) = Some i" "holds (q_pcs s ! u) = Some i" for t u i
    using inv that unfolding pool_inv_def const(2) by blast
  ultimately show ?thesis by (intro conjI) (auto split del: prod.split)
qed

text \<open>
  A schedule of two senders: the second takes the buffer that the first has marked as free but has not
  yet cleared.
\<close>

definition racing :: "job \<Rightarrow> job \<Rightarrow> pool_act list" where
  "racing j k = Begin 0 j # replicate 7 (Advance 0) @ Begin 1 k # replicate 5 (Advance 1) @
     replicate 2 (Advance 0) @ replicate 4 (Advance 1)"

lemma racing_run:
  assumes "is_free b" and "job_ok j" and "job_ok k" and "is_send j" and "is_send k"
  shows "\<exists>u f. pool_run (racing j k) (pool_start 0 BROADCAST (b # bs) 2) = Some u \<and> q_pcs u = [Idle, Idle] \<and>
    q_passed u = [(j, f), (k, [])]"
  using assms
  by (simp add: racing_def pool_start_def numeral_eq_Suc go_def on_buf_def unlock_def Let_def is_free_def cleared_def passed_def)

lemma zero_pool_race:
  assumes "job_ok j" and "job_ok k" and "is_send j" and "is_send k"
  shows "\<exists>u f. reachable pool_step (pool_start 0 BROADCAST zero_pool 2) u \<and> q_pcs u = [Idle, Idle] \<and>
    q_passed u = [(j, f), (k, [])]"
proof -
  have "0 < length zero_pool" "zero_pool ! 0 = zero_buffer"
    by (simp_all add: zero_pool_def BUFFER_COUNT_def zero_buffer_def new_buffer_def)
  then have "zero_pool = zero_buffer # tl zero_pool" by (metis hd_Cons_tl hd_conv_nth length_greater_0_conv)
  moreover have "is_free zero_buffer" by (simp add: is_free_def zero_buffer_def)
  ultimately show ?thesis
    using racing_run [OF _ assms, of zero_buffer "tl zero_pool"] pool_run_reachable [OF _ reach_start] by metis
qed

text \<open>
  C17 (finding): \<open>free\<close> does not take the mutex and \<open>release\<close> marks the buffer as free before it
  clears its size. Between the two another thread can allocate the buffer; its size is then set back
  to zero and the engine is given a frame of no bytes: the message of the second sender is lost,
  although \<open>send\<close> returns its size. Whatever the two messages are.
\<close>

theorem free_races_alloc:
  assumes "job_ok j" and "job_ok k" and "is_send j" and "is_send k"
  shows "\<exists>u f. reachable pool_step (pool_start 0 BROADCAST zero_pool 2) u \<and> q_pcs u = [Idle, Idle] \<and>
    q_passed u = [(j, f), (k, [])]"
  by (rule zero_pool_race [OF assms])

theorem free_races_alloc_witness:
  "\<exists>u f. reachable pool_step (pool_start 0 BROADCAST zero_pool 2) u \<and> q_passed u =
     [(Send_Job \<lparr>paddr = BROADCAST, port = 3\<rparr> \<lparr>paddr = BROADCAST, port = 0\<rparr> 1 [7, 8], f),
      (Send_Job \<lparr>paddr = BROADCAST, port = 4\<rparr> \<lparr>paddr = BROADCAST, port = 5\<rparr> 1 [9], [])]"
  using free_races_alloc [of "Send_Job \<lparr>paddr = BROADCAST, port = 3\<rparr> \<lparr>paddr = BROADCAST, port = 0\<rparr> 1 [7, 8]"
      "Send_Job \<lparr>paddr = BROADCAST, port = 4\<rparr> \<lparr>paddr = BROADCAST, port = 5\<rparr> 1 [9]"]
  by (auto simp: BROADCAST_def PROTOCOL_MTU_def MTU_def header_size_def)

theorem pool_exclusive_witness:
  "\<exists>s. reachable pool_step (pool_start 0 BROADCAST zero_pool 2) s \<and> length (q_passed s) = 2 \<and>
     (\<forall>b\<in>set (q_pool s). is_free b \<or> b_owner b = None)"
proof -
  let ?j = "Send_Job \<lparr>paddr = BROADCAST, port = 3\<rparr> \<lparr>paddr = BROADCAST, port = 0\<rparr> 1 [7, 8]"
  have "job_ok ?j" by (simp add: BROADCAST_def PROTOCOL_MTU_def MTU_def header_size_def)
  then obtain u f where u: "reachable pool_step (pool_start 0 BROADCAST zero_pool 2) u" "q_pcs u = [Idle, Idle]"
      "q_passed u = [(?j, f), (?j, [])]" using zero_pool_race [of ?j ?j] by auto
  have "\<forall>t<2. q_pcs u ! t = Idle" using u(2) by (simp add: less_2_cases_iff)
  moreover have "\<forall>b\<in>set zero_pool. is_free b"
    by (simp add: zero_pool_def is_free_def new_buffer_def)
  ultimately have "\<forall>b\<in>set (q_pool u). is_free b \<or> b_owner b = None"
    using pool_exclusive [OF pool_ok_zero _ _ u(1)] by (simp add: BROADCAST_def)
  then show ?thesis using u by auto
qed

end
