(* ===== verification/Response_Frames.thy ===== *)
theory Response_Frames
  imports Vehicle_Run
begin

text \<open>
  The frames of a vehicle's SmartData that are responses, and what each operation of a process does
  with them: a send puts at most one on the ring, a reader passes on at most those it finds there, and
  a SmartData takes one message at a time.
\<close>

section \<open>Frames that answer\<close>

definition answers :: "byte list \<Rightarrow> bool" where
  "answers bs \<longleftrightarrow> 22 \<le> length bs \<and> r_kind (dec_response bs) = RESPONSE"

definition answer_frame :: "u16 \<Rightarrow> byte list \<Rightarrow> bool" where
  "answer_frame pt f \<longleftrightarrow> (\<exists>q l. f = letter_frame q l \<and> letter_ok pt l \<and> answers (l_payload l))"

lemma says_answers:
  assumes "says m l" and "message_ok m"
  shows "response_in (Some m) \<noteq> [] \<longleftrightarrow> answers (l_payload l)"
proof -
  have b: "take (m_size m) (m_data m) = l_payload l" and sz: "m_size m \<le> length (m_data m)"
    using assms by (simp_all add: says_def msg_bytes_def message_ok_def)
  then have ln: "m_size m = length (l_payload l)" by (metis length_take min.absorb2)
  have "l_payload l ! 0 = m_data m ! 0" if "22 \<le> m_size m"
    using that arg_cong [OF b, of "\<lambda>xs. xs ! 0"] by (simp only: nth_take)
  then have "22 \<le> m_size m \<Longrightarrow> r_kind (dec_response (l_payload l)) = r_kind (dec_response (m_data m))"
    by (simp add: dec_response_def)
  then show ?thesis by (simp add: response_in_def answers_def Let_def ln)
qed

lemma letter_frame_inj:
  assumes "letter_frame q l = letter_frame q' l'" and "letter_ok p l" and "letter_ok p' l'"
  shows "p = p' \<and> l_payload l = l_payload l'"
proof -
  let ?w = "letter_frame q l"
  have mac: "length (l_mac l) = 6" "length (paddr (l_to l)) = 6" "length (l_mac l') = 6" "length (paddr (l_to l')) = 6"
    and pt: "port (l_to l) = p" "port (l_to l') = p'" using assms(2,3) by (simp_all add: letter_ok_def)
  have t: "take (length ?w) ?w = ?w" "?w = wire_frame (l_mac l') (l_from l') (l_to l') q' (l_payload l')"
    using assms(1) by (simp_all add: letter_frame_def)
  note f1 = wire_frame_fields [OF letter_frame_def t(1) mac(1,2)] and f2 = wire_frame_fields [OF t(2,1) mac(3,4)]
  have "htons (port (l_to l)) = htons (port (l_to l'))"
    using arg_cong [OF trans [OF f1(4) [symmetric] f2(4)], of dst_port] by simp
  then have "htons (htons (port (l_to l))) = htons (htons (port (l_to l')))" by (rule arg_cong)
  then have "p = p'" unfolding htons_htons pt .
  have ln: "length (l_payload l) = length (l_payload l')"
    using trans [OF f1(1) [symmetric] f2(1)] by (simp only: add_left_cancel)
  have "l_payload l = take (length (l_payload l)) (pkt_data ?w)" by (rule f1(5) [symmetric])
  also have "\<dots> = l_payload l'" unfolding ln by (rule f2(5))
  finally have "l_payload l = l_payload l'" .
  with \<open>p = p'\<close> show ?thesis ..
qed

lemma answer_frame_letter:
  assumes "letter_ok p l"
  shows "answer_frame pt (letter_frame q l) \<longleftrightarrow> p = pt \<and> answers (l_payload l)"
proof
  assume "answer_frame pt (letter_frame q l)"
  then obtain q' l' where l': "letter_frame q l = letter_frame q' l'" "letter_ok pt l'" "answers (l_payload l')"
    by (auto simp: answer_frame_def)
  from letter_frame_inj [OF l'(1) assms l'(2)] l'(3) show "p = pt \<and> answers (l_payload l)" by simp
next
  assume "p = pt \<and> answers (l_payload l)"
  with assms show "answer_frame pt (letter_frame q l)" unfolding answer_frame_def by blast
qed

text \<open>A frame of some SmartData: for a port, and not the broadcast port.\<close>

definition port_frame :: "byte list \<Rightarrow> bool" where
  "port_frame f \<longleftrightarrow> (\<exists>q l. f = letter_frame q l \<and> letter_ok (port (l_to l)) l \<and> port (l_to l) \<noteq> 0)"

section \<open>The ring\<close>

text \<open>
  What a write does to what a reader has not read: it comes behind it, or, when the writer overruns its
  own reader, in the place of a frame as well.
\<close>

lemma pending_any_write:
  assumes "ring_ok ch" and "length f \<le> frame_size"
  shows "set (pending i (shm_write f ch)) \<subseteq> insert f (set (pending i ch))"
    and "\<not> P f \<Longrightarrow> length (filter P (pending i (shm_write f ch))) \<le> length (filter P (pending i ch))"
proof -
  let ?b = "backlog i ch" and ?h = "heads ch ! i"
  let ?new = "\<lambda>k. if slot_of (?h + of_nat k) = slot_of (tail ch) then f else slot_frame ch (?h + of_nat k)"
  have none: "pending i (shm_write f ch) = []" if "\<not> ?b < 2 ^ 32 - 1"
  proof -
    have "?b < 2 ^ 32"
      using unsigned_less [of "tail ch - ?h", where ?'a = nat] by (simp add: backlog_def)
    with that have "?b = 2 ^ 32 - 1" by simp
    then have "unat (tail ch - ?h) = unat (- 1 :: u32)"
      by (simp add: backlog_def unsigned_minus_1_eq_mask mask_eq_exp_minus_1)
    then have "tail ch - ?h = - 1" by (rule word_unat_eq_iff [THEN iffD2])
    then have "tail ch - ?h + 1 = 0" by simp
    then have "tail (shm_write f ch) - heads (shm_write f ch) ! i = 0" by (simp add: algebra_simps)
    then show ?thesis by (simp add: pending_def backlog_def)
  qed
  have t: "?h + of_nat ?b = tail ch" by (rule tail_as_head [symmetric])
  have all: "pending i (shm_write f ch) = map ?new [0..<?b] @ [f]" if "?b < 2 ^ 32 - 1"
    using backlog_write [OF that] t by (simp add: pending_def slot_frame_write [OF assms])
  have old: "pending i ch = map (\<lambda>k. slot_frame ch (?h + of_nat k)) [0..<?b]" by (simp add: pending_def)
  show "set (pending i (shm_write f ch)) \<subseteq> insert f (set (pending i ch))"
    using none all old by (cases "?b < 2 ^ 32 - 1") auto
  have le: "length (filter P (map ?new ks)) \<le> length (filter P (map (\<lambda>k. slot_frame ch (?h + of_nat k)) ks))"
    if "\<not> P f" for ks using that by (induction ks) auto
  show "length (filter P (pending i (shm_write f ch))) \<le> length (filter P (pending i ch))" if "\<not> P f"
    using none all old le [OF that, of "[0..<?b]"] that by (cases "?b < 2 ^ 32 - 1") simp_all
qed

section \<open>Operations of a process\<close>

lemma frames_not_on_nic:
  "free_slots (pool (nics s ! n)) = {} \<Longrightarrow> filter (\<lambda>(m, f). m = n) (frames_out s ns src dst q x) = []"
  by (auto simp: filter_empty_conv frames_out_def split: if_splits)

text \<open>A send that returns has written its frame, or found no free buffer.\<close>

lemma bus_send_any:
  assumes "bus_ok v" and "p < length (members v)" and "distinct (p_nics (node_at p v))"
    and "nic_at p v \<in> set (p_nics (node_at p v))" and "c < length (comms (node_at p v))"
    and "message_ok m" and "0 < m_size m" and "bus_send p pos c m v = Inr w"
  defines "s \<equiv> node_at p v" and "n \<equiv> nic_at p v"
  obtains t ch where "w = (set_node p t v)\<lparr>ring_of := ch\<rparr>" and "after_send s t" and "bus_ok w"
    and "ch = ring_of v \<or> shm_room (member_pid p) (ring_of v) \<and>
      ch = shm_write (letter_frame (my_quadrant pos s) (letter_from s n c m)) (ring_of v)"
    and "letter_ok (port (c_address (comms s ! c))) (letter_from s n c m)"
proof -
  let ?a = "c_address (comms s ! c)"
  let ?dst = "\<lparr>paddr = BROADCAST, port = port ?a\<rparr>"
  let ?f = "letter_frame (my_quadrant pos s) (letter_from s n c m)"
  note ok = bus_ok_member [OF assms(1,2), folded s_def n_def]
  have lo: "letter_ok (port ?a) (letter_from s n c m)"
    using node_ok_nic [OF ok(1,2)] assms(6,7)
    by (auto simp: letter_ok_def letter_from_def nic_ok_def message_ok_def msg_bytes_def)
  have msg: "m_size m \<le> length (m_data m)" "m_size m \<le> PROTOCOL_MTU"
    using assms(6) by (simp_all add: message_ok_def MAX_SIZE_def PROTOCOL_MTU_def MTU_def header_size_def)
  have "\<forall>n\<in>set (p_nics s). n < length (nics s)" using ok(1) by (simp add: node_ok_def wired_def)
  from send_nics_spec [OF ok(1) this _ msg, of ?dst pos ?a]
  obtain t where t: "send_nics pos ?a ?dst (m_data m) (m_size m) (p_nics s) s = Inr t" "node_ok t"
      "same_layout s t" "same_pools s t" "same_but_nics s t"
      "on_wire t = on_wire s @ frames_out s (p_nics s) ?a ?dst (my_quadrant pos s) (msg_bytes m)"
    by (auto simp: BROADCAST_def msg_bytes_def)
  have sent: "sent_on n s t = (if free_slots (pool (nics s ! n)) = {} then [] else [?f])"
    using frames_on_nic [of "p_nics s" n s ?a ?dst] frames_not_on_nic [of s n "p_nics s" ?a ?dst] assms(3,4) t(6)
    by (simp add: sent_on_def letter_frame_def letter_from_def s_def n_def)
  have "comm_send pos c m s = Inr (True, t)"
    using t(1) assms(7) by (simp add: comm_send_def proto_send_def Let_def)
  with assms(8) obtain ch where ch: "post_all (member_pid p) (sent_on n s t) (ring_of v) = Inr ch"
      "w = (set_node p t v)\<lparr>ring_of := ch\<rparr>"
    by (auto simp: bus_send_def s_def n_def split: sum.splits)
  have fit: "length ?f \<le> frame_size" by (rule letter_frame_length(2) [OF lo])
  then have cases: "ch = ring_of v \<or> shm_room (member_pid p) (ring_of v) \<and> ch = shm_write ?f (ring_of v)"
    using ch(1) sent by (auto simp: shm_post_Some frame_fits_def split: if_splits option.splits)
  have "ring_ok (ring_of v)" using assms(1) by (simp add: bus_ok_def)
  with cases fit have "ring_ok ch \<and> pids ch = pids (ring_of v)" by auto
  then have "bus_ok w"
    unfolding ch(2) using t(3) ok(2) by (intro bus_ok_set_node assms(1,2) t(2)) (simp_all add: same_layout_def n_def)
  then show ?thesis using that [OF ch(2) _ _ cases lo] t(3-5) by (simp add: after_send_def)
qed

text \<open>Reading the ring: no more answers come out than went in.\<close>

lemma frame_handled:
  fixes pos :: byte
  assumes "node_ok s" and "n < length (nics s)" and "n_observers (nics s ! n) = [(PROTO, ())]" and "port_frame f"
    and "length tmp = frame_size" and "k < length (consumers s)"
    and "\<And>p. count_list (routing s p) k \<le> (if p = pt then 1 else 0)"
  shows "\<exists>t ms. nic_handle pos n (poke 0 f tmp) (length f) s = Inr t \<and> node_ok t \<and> same_layout s t \<and>
    n_observers (nics t ! n) = [(PROTO, ())] \<and> mailbox k t = mailbox k s @ ms \<and>
    length (filter (\<lambda>m. response_in (Some m) \<noteq> []) ms) \<le> (if answer_frame pt f then 1 else 0)"
proof -
  obtain q l where f: "f = letter_frame q l" "letter_ok (port (l_to l)) l" "port (l_to l) \<noteq> 0"
    using assms(4) by (auto simp: port_frame_def)
  have mac: "length (l_mac l) = 6" "length (paddr (l_to l)) = 6" using f(2) by (simp_all add: letter_ok_def)
  have "take (length f) (poke 0 f tmp) = f"
    using letter_frame_length(2) [OF f(2), of q] assms(5) f(1) by (simp add: poke_def)
  note fields = wire_frame_fields [OF f(1) [unfolded letter_frame_def] this mac]
  show ?thesis
  proof (cases "q = my_quadrant pos s \<and> free_slots (pool (nics s ! n)) \<noteq> {}")
    case False
    have "nic_handle pos n (poke 0 f tmp) (length f) s = Inr s"
    proof (cases "q = my_quadrant pos s")
      case True
      then have "first_index is_free (pool (nics s ! n)) = None"
        using False by (auto simp: first_index_None free_slots_def in_set_conv_nth)
      then show ?thesis by (simp add: nic_handle_def)
    qed (simp add: nic_handle_def verifica_quadrante_eq fields(4))
    then show ?thesis using assms(1,3) by (intro exI [of _ s]) simp
  next
    case True
    then have f': "f = letter_frame (my_quadrant pos s) l" using f(1) by simp
    from letter_handled [OF assms(1-3) _ f(2) assms(5,6), of pos, folded f'] True
    obtain t m where t: "nic_handle pos n (poke 0 f tmp) (length f) s = Inr t" "node_ok t" "same_layout s t"
        "n_observers (nics t ! n) = [(PROTO, ())]" "says m l" "message_ok m"
        "mailbox k t = mailbox k s @ replicate (count_list (concat (map (routing s) (letter_ports l))) k) m" by metis
    have "letter_ports l = [port (l_to l)]" using f(3) by (simp add: letter_ports_def)
    then have "count_list (concat (map (routing s) (letter_ports l))) k \<le> (if port (l_to l) = pt then 1 else 0)"
      using assms(7) [of "port (l_to l)"] by simp
    moreover have "answer_frame pt f \<longleftrightarrow> port (l_to l) = pt \<and> answers (l_payload l)"
      unfolding f(1) by (rule answer_frame_letter [OF f(2)])
    ultimately have "length (filter (\<lambda>m. response_in (Some m) \<noteq> [])
        (replicate (count_list (concat (map (routing s) (letter_ports l))) k) m)) \<le> (if answer_frame pt f then 1 else 0)"
      using says_answers [OF t(5,6)] by (auto simp: filter_replicate split: if_splits)
    with t show ?thesis by blast
  qed
qed

lemma frames_heard:
  assumes "node_ok s" and "n < length (nics s)" and "n_observers (nics s ! n) = [(PROTO, ())]"
    and "\<forall>f\<in>set fs. port_frame f" and "length tmp = frame_size" and "k < length (consumers s)"
    and "\<And>p. count_list (routing s p) k \<le> (if p = pt then 1 else 0)"
  shows "\<exists>t ms. read_frames pos n tmp fs s = Inr t \<and> node_ok t \<and> same_layout s t \<and>
    n_observers (nics t ! n) = [(PROTO, ())] \<and> mailbox k t = mailbox k s @ ms \<and>
    length (filter (\<lambda>m. response_in (Some m) \<noteq> []) ms) \<le> length (filter (answer_frame pt) fs)"
  using assms
proof (induction fs arbitrary: s tmp)
  case Nil
  then show ?case by simp
next
  case (Cons f fs)
  have f: "port_frame f" and fs: "\<forall>f\<in>set fs. port_frame f" using Cons.prems(4) by simp_all
  obtain t ms where t: "nic_handle pos n (poke 0 f tmp) (length f) s = Inr t" "node_ok t" "same_layout s t"
      "n_observers (nics t ! n) = [(PROTO, ())]" "mailbox k t = mailbox k s @ ms"
      "length (filter (\<lambda>m. response_in (Some m) \<noteq> []) ms) \<le> (if answer_frame pt f then 1 else 0)"
    using frame_handled [OF Cons.prems(1-3) f Cons.prems(5-7)] by blast
  have "routing t = routing s" using t(3) by (simp add: routing_def same_layout_def fun_eq_iff)
  moreover have "length (poke 0 f tmp) = frame_size"
    using f letter_frame_length(2) Cons.prems(5) by (auto simp: port_frame_def)
  ultimately obtain u ns where u: "read_frames pos n (poke 0 f tmp) fs t = Inr u" "node_ok u" "same_layout t u"
      "n_observers (nics u ! n) = [(PROTO, ())]" "mailbox k u = mailbox k t @ ns"
      "length (filter (\<lambda>m. response_in (Some m) \<noteq> []) ns) \<le> length (filter (answer_frame pt) fs)"
    using Cons.IH [OF t(2) _ t(4) fs, of "poke 0 f tmp"] Cons.prems(2,6,7) t(3) by (auto simp: same_layout_def)
  have "length (filter (\<lambda>m. response_in (Some m) \<noteq> []) (ms @ ns)) \<le> length (filter (answer_frame pt) (f # fs))"
    using t(6) u(6) by (simp split: if_splits)
  moreover have "read_frames pos n tmp (f # fs) s = Inr u" using t(1) u(1) by (simp add: Let_def)
  moreover have "same_layout s u" by (rule same_layout_trans [OF t(3) u(3)])
  ultimately show ?case using t(5) u(2,4,5) by (intro exI [of _ u] exI [of _ "ms @ ns"]) simp
qed

text \<open>Taking a message from one queue.\<close>

lemma sd_take_any:
  assumes "node_ok s" and "l < length (consumers s)" and "j < length (consumers s)"
  obtains got t where "sd_take l s = Inr (got, t)" and "node_ok t" and "\<And>n. still n 0 s t"
    and "got = (case mailbox l s of [] \<Rightarrow> None | m # ms \<Rightarrow> Some m)"
    and "mailbox j t = (if j = l then tl (mailbox j s) else mailbox j s)"
proof (cases "mailbox l s")
  case Nil
  then have "queue (consumers s ! l) = []" by (simp add: mailbox_def contents_def)
  moreover have "co_ok (consumers s ! l)" using assms(1,2) by (simp add: node_ok_def heap_ok_def)
  ultimately have "sd_take l s = Inr (None, s)" by (simp add: sd_take_def co_updated_for_ok Let_def)
  then show ?thesis using that [of None s] Nil assms(1) by simp
next
  case (Cons m ms)
  obtain t where t: "sd_take l s = Inr (Some m, t)" "node_ok t" "mailbox l t = ms" "\<And>n. still n 0 s t"
    by (rule sd_take_front [OF assms(1,2) Cons]) blast
  obtain p q where q: "queue (consumers s ! l) = p # q" "heap s p = Some m"
    by (rule mailbox_front [OF assms(1,2) Cons])
  have "co_ok (consumers s ! l)" using assms(1,2) by (simp add: node_ok_def heap_ok_def)
  then have "endpoint_receive l m s = Inr (0 < m_size m, m, t)"
    using t(1) q co_updated_for_ok [of "consumers s ! l"]
    by (auto simp: sd_take_def endpoint_receive_def Let_def and_then_Inr_iff)
  from receive_mail(1) [OF assms(1,2) this] have mt: "mail_of t = mail_take l (mail_of s)" .
  have lc: "length (consumers t) = length (consumers s)" using t(4) [of 0] by (simp add: still_def same_layout_def)
  have "mailbox j t = mailbox j s" if "j \<noteq> l"
    using arg_cong [OF mt, of "\<lambda>b. boxes b ! j"] that assms(3) lc
    by (simp add: mail_take_def box_mailbox)
  then show ?thesis using that [OF t(1,2,4)] t(3) Cons by (cases "j = l") simp_all
qed

end
