(* ===== verification/Response_Count.thy ===== *)
theory Response_Count
  imports Response_Frames
begin

text \<open>
  No response is invented and none is counted twice: in whatever order the SmartData of a vehicle run,
  a consumer's count never exceeds the number of responses sent on its port, in spite of dropped
  frames, full queues and overrun slots of the ring.
\<close>

section \<open>The invariant\<close>

definition port_at :: "nat \<Rightarrow> nat \<Rightarrow> sd_sys \<Rightarrow> u16" where
  "port_at r l v = port (c_address (comms (node_at r (sd_bus v)) ! l))"

definition is_consumer :: "sd_obj \<Rightarrow> bool" where
  "is_consumer ob = (case ob of Consumer c \<Rightarrow> True | Producer d \<Rightarrow> False)"

definition the_count :: "sd_obj \<Rightarrow> int" where
  "the_count ob = (case ob of Consumer c \<Rightarrow> response_count c | Producer d \<Rightarrow> 0)"

text \<open>Every SmartData has its communicator, its queue and its process's NIC.\<close>

definition sd_wired :: "sd_sys \<Rightarrow> bool" where
  "sd_wired v \<longleftrightarrow> length (sd_objs v) = length (members (sd_bus v)) \<and>
     (\<forall>r<length (members (sd_bus v)). \<forall>l<length (sd_objs v ! r).
        let s = node_at r (sd_bus v) in distinct (p_nics s) \<and> nic_at r (sd_bus v) \<in> set (p_nics s) \<and>
        l < length (comms s) \<and> l < length (consumers s) \<and> port_at r l v \<noteq> 0)"

text \<open>
  Process \<open>p\<close> has a consumer \<open>k\<close> on port \<open>pt\<close>: only this port's messages reach its queue, each
  once, and the process itself sends no responses there.
\<close>

definition consumes :: "u16 \<Rightarrow> nat \<Rightarrow> nat \<Rightarrow> sd_sys \<Rightarrow> bool" where
  "consumes pt p k v \<longleftrightarrow> p < length (members (sd_bus v)) \<and> k < length (sd_objs v ! p) \<and> is_consumer (obj_at p k v) \<and>
     (\<forall>x. count_list (routing (node_at p (sd_bus v)) x) k \<le> (if x = pt then 1 else 0)) \<and>
     n_observers (nics (node_at p (sd_bus v)) ! nic_at p (sd_bus v)) = [(PROTO, ())] \<and>
     (\<forall>l<length (sd_objs v ! p). \<not> is_consumer (obj_at p l v) \<longrightarrow> port_at p l v \<noteq> pt)"

definition tracked :: "u16 \<Rightarrow> nat \<Rightarrow> nat \<Rightarrow> sd_sys \<Rightarrow> bool" where
  "tracked pt p k v \<longleftrightarrow> bus_ok (sd_bus v) \<and> sd_wired v \<and> consumes pt p k v \<and> 0 \<le> the_count (obj_at p k v) \<and>
     (\<forall>f\<in>set (pending p (ring_of (sd_bus v))). port_frame f)"

text \<open>The responses the consumer has counted, those in its queue and those it has not read.\<close>

definition seen_responses :: "u16 \<Rightarrow> nat \<Rightarrow> nat \<Rightarrow> sd_sys \<Rightarrow> int" where
  "seen_responses pt p k v = the_count (obj_at p k v) +
     int (length (filter (\<lambda>m. response_in (Some m) \<noteq> []) (mailbox k (node_at p (sd_bus v))))) +
     int (length (filter (answer_frame pt) (pending p (ring_of (sd_bus v)))))"

definition keeps_wiring :: "nat \<Rightarrow> sd_sys \<Rightarrow> sd_sys \<Rightarrow> bool" where
  "keeps_wiring p v w \<longleftrightarrow> length (members (sd_bus w)) = length (members (sd_bus v)) \<and>
     length (sd_objs w) = length (sd_objs v) \<and> (\<forall>r. length (sd_objs w ! r) = length (sd_objs v ! r)) \<and>
     (\<forall>r l. is_consumer (obj_at r l w) = is_consumer (obj_at r l v)) \<and>
     (\<forall>r. nic_at r (sd_bus w) = nic_at r (sd_bus v)) \<and>
     (\<forall>r<length (members (sd_bus v)). same_layout (node_at r (sd_bus v)) (node_at r (sd_bus w))) \<and>
     n_observers (nics (node_at p (sd_bus w)) ! nic_at p (sd_bus v)) =
       n_observers (nics (node_at p (sd_bus v)) ! nic_at p (sd_bus v))"

lemma keeps_wiring_refl: "keeps_wiring p v v"
  by (simp add: keeps_wiring_def)

lemma keeps_wiring_trans:
  assumes "keeps_wiring p u v" and "keeps_wiring p v w"
  shows "keeps_wiring p u w"
proof -
  note a = assms(1) [unfolded keeps_wiring_def] and b = assms(2) [unfolded keeps_wiring_def]
  have "same_layout (node_at r (sd_bus u)) (node_at r (sd_bus w))" if "r < length (members (sd_bus u))" for r
    using a b that same_layout_trans [of "node_at r (sd_bus u)" "node_at r (sd_bus v)"] by simp
  with a b show ?thesis by (simp add: keeps_wiring_def)
qed

lemma keeps_wiring_port: "keeps_wiring p v w \<Longrightarrow> r < length (members (sd_bus v)) \<Longrightarrow> port_at r l w = port_at r l v"
  by (simp add: keeps_wiring_def port_at_def same_layout_def)

lemma tracked_step:
  assumes "tracked pt p k v" and "keeps_wiring p v w" and "bus_ok (sd_bus w)"
    and "\<forall>f\<in>set (pending p (ring_of (sd_bus w))). port_frame f"
    and "the_count (obj_at p k v) \<le> the_count (obj_at p k w)"
  shows "tracked pt p k w"
proof -
  note w = assms(2) [unfolded keeps_wiring_def] and t = assms(1) [unfolded tracked_def]
  have "sd_wired w"
    using t w keeps_wiring_port [OF assms(2)] by (auto simp: sd_wired_def Let_def same_layout_def)
  moreover have p: "p < length (members (sd_bus v))" using t by (simp add: consumes_def)
  then have "same_layout (node_at p (sd_bus v)) (node_at p (sd_bus w))" using w by simp
  then have "routing (node_at p (sd_bus w)) = routing (node_at p (sd_bus v))"
    by (simp add: routing_def same_layout_def fun_eq_iff)
  then have "consumes pt p k w"
    using t w keeps_wiring_port [OF assms(2) p] by (simp add: consumes_def)
  ultimately show ?thesis using assms(3-5) t by (simp add: tracked_def)
qed

section \<open>One operation\<close>

text \<open>An interest is no answer, a response is one.\<close>

lemma interest_no_answer: "\<not> answers (msg_bytes (send_interest pos ts junk ob))"
proof -
  have "dec_interest (enc_interest i) = i" for i by (rule interest_codec.dec_enc)
  then show ?thesis
    using kind_shared by (simp add: answers_def sent_interest(3) interest_of_def INTEREST_def RESPONSE_def)
qed

text \<open>A message goes out on the bus.\<close>

lemma send_tracked:
  assumes tr: "tracked pt p k v" and r: "r < length (members (sd_bus v))" and l: "l < length (sd_objs v ! r)"
    and m: "message_ok m" "0 < m_size m" and snd: "bus_send r pos l m (sd_bus v) = Inr b"
    and own: "answers (msg_bytes m) \<Longrightarrow> \<not> is_consumer (obj_at r l v)"
  shows "tracked pt p k (v\<lparr>sd_bus := b\<rparr>) \<and> keeps_wiring p v (v\<lparr>sd_bus := b\<rparr>) \<and>
    seen_responses pt p k (v\<lparr>sd_bus := b\<rparr>) \<le> seen_responses pt p k v +
      (if port_at r l v = pt \<and> answers (msg_bytes m) then 1 else 0)"
proof -
  note t = tr [unfolded tracked_def]
  let ?b = "sd_bus v"
  let ?s = "node_at r ?b"
  let ?f = "letter_frame (my_quadrant pos ?s) (letter_from ?s (nic_at r ?b) l m)"
  have wd: "distinct (p_nics ?s)" "nic_at r ?b \<in> set (p_nics ?s)" "l < length (comms ?s)" "port_at r l v \<noteq> 0"
    using t r l by (auto simp: sd_wired_def Let_def)
  have ok: "bus_ok ?b" and p: "p < length (members ?b)" using t by (simp_all add: consumes_def)
  obtain u ch where u: "b = (set_node r u ?b)\<lparr>ring_of := ch\<rparr>" "after_send ?s u" "bus_ok b"
      "ch = ring_of ?b \<or> shm_room (member_pid r) (ring_of ?b) \<and> ch = shm_write ?f (ring_of ?b)"
      "letter_ok (port_at r l v) (letter_from ?s (nic_at r ?b) l m)"
    by (rule bus_send_any [OF ok r wd(1-3) m snd]) (auto simp: port_at_def)
  have nodes: "after_send (node_at q ?b) (node_at q b)" for q
    using u(1,2) r by (cases "q = r") (auto simp: set_node_def node_at_def)
  note still = after_send_still [OF nodes bus_ok_member(2) [OF ok p]]
  have mb: "mailbox k (node_at p b) = mailbox k (node_at p ?b)" by (rule still(2))
  have wir: "keeps_wiring p v (v\<lparr>sd_bus := b\<rparr>)"
    using u(1) nodes still(1) by (simp add: keeps_wiring_def after_send_def still_def obj_at_def)
  have ro: "ring_ok (ring_of ?b)" using ok by (simp add: bus_ok_def)
  have fit: "length ?f \<le> frame_size" by (rule letter_frame_length(2) [OF u(5)])
  have pl: "port (l_to (letter_from ?s (nic_at r ?b) l m)) = port_at r l v" using u(5) by (simp add: letter_ok_def)
  have pf: "port_frame ?f" unfolding port_frame_def
    using u(5) wd(4) by (intro exI conjI) (rule refl, simp_all add: pl)
  have pend: "set (pending p ch) \<subseteq> insert ?f (set (pending p (ring_of ?b)))"
    using u(4) pending_any_write(1) [OF ro fit] by auto
  then have "\<forall>f\<in>set (pending p (ring_of b)). port_frame f" using t pf by (auto simp: u(1))
  then have tw: "tracked pt p k (v\<lparr>sd_bus := b\<rparr>)" using tracked_step [OF tr wir] u(3) by simp
  have af: "answer_frame pt ?f \<longleftrightarrow> port_at r l v = pt \<and> answers (msg_bytes m)"
    using answer_frame_letter [OF u(5)] by (simp add: letter_from_def)
  have "length (filter (answer_frame pt) (pending p ch)) \<le> length (filter (answer_frame pt) (pending p (ring_of ?b))) +
      (if answer_frame pt ?f then 1 else 0)"
  proof (cases "answer_frame pt ?f \<and> ch = shm_write ?f (ring_of ?b)")
    case False
    then show ?thesis using u(4) pending_any_write(2) [OF ro fit, of "answer_frame pt" p] by auto
  next
    case True
    show ?thesis
    proof (cases "shm_room (member_pid r) (ring_of ?b)")
      case room: True
      have "r \<noteq> p" using True af own t l by (auto simp: consumes_def)
      moreover note q = bus_ok_member [OF ok p]
      ultimately have "backlog p (ring_of ?b) < N"
        using room_backlog [OF room q(3)] by (simp add: member_pid_def)
      then show ?thesis using True pending_write [OF ro fit] by simp
    next
      case False
      then show ?thesis using u(4) by auto
    qed
  qed
  then have "seen_responses pt p k (v\<lparr>sd_bus := b\<rparr>) \<le> seen_responses pt p k v + (if answer_frame pt ?f then 1 else 0)"
    using mb by (simp add: seen_responses_def u(1) obj_at_def split: if_splits)
  with tw wir af show ?thesis by simp
qed

lemma send_all_tracked:
  assumes "tracked pt p k v" and "r < length (members (sd_bus v))" and "l < length (sd_objs v ! r)"
    and "\<forall>m\<in>set ms. message_ok m \<and> 0 < m_size m \<and> \<not> answers (msg_bytes m)" and "sd_send_all r pos l ms v = Inr w"
  shows "tracked pt p k w \<and> keeps_wiring p v w \<and> seen_responses pt p k w \<le> seen_responses pt p k v"
  using assms
proof (induction ms arbitrary: v)
  case Nil
  then show ?case by (simp add: keeps_wiring_refl)
next
  case (Cons m ms)
  obtain b where b: "bus_send r pos l m (sd_bus v) = Inr b" "sd_send_all r pos l ms (v\<lparr>sd_bus := b\<rparr>) = Inr w"
    using Cons.prems(5) by (auto split: sum.splits)
  have m: "message_ok m" "0 < m_size m" "\<not> answers (msg_bytes m)" using Cons.prems(4) by simp_all
  have st: "tracked pt p k (v\<lparr>sd_bus := b\<rparr>)" "keeps_wiring p v (v\<lparr>sd_bus := b\<rparr>)"
      "seen_responses pt p k (v\<lparr>sd_bus := b\<rparr>) \<le> seen_responses pt p k v"
    using send_tracked [OF Cons.prems(1-3) m(1,2) b(1)] m(3) by simp_all
  have "tracked pt p k w \<and> keeps_wiring p (v\<lparr>sd_bus := b\<rparr>) w \<and> seen_responses pt p k w \<le> seen_responses pt p k (v\<lparr>sd_bus := b\<rparr>)"
    using Cons.prems(2-4) st(2) by (intro Cons.IH [OF st(1) _ _ _ b(2)]) (simp_all add: keeps_wiring_def)
  then show ?case using keeps_wiring_trans [OF st(2)] st(3) by auto
qed

text \<open>A process reads the ring.\<close>

lemma read_tracked:
  assumes tr: "tracked pt p k v" and r: "r < length (members (sd_bus v))" and tmp: "length tmp = frame_size"
    and rd: "bus_read r pos tmp (sd_bus v) = Inr b"
  shows "tracked pt p k (v\<lparr>sd_bus := b\<rparr>) \<and> keeps_wiring p v (v\<lparr>sd_bus := b\<rparr>) \<and>
    seen_responses pt p k (v\<lparr>sd_bus := b\<rparr>) \<le> seen_responses pt p k v"
proof -
  note t = tr [unfolded tracked_def]
  let ?b = "sd_bus v"
  let ?s = "node_at r ?b"
  have ok: "bus_ok ?b" and p: "p < length (members ?b)" and c: "consumes pt p k v" using t by (simp_all add: consumes_def)
  note m = bus_ok_member [OF ok r]
  let ?ch = "(ring_of ?b)\<lparr>heads := (heads (ring_of ?b))[r := tail (ring_of ?b)]\<rparr>"
  have lh: "r < length (heads (ring_of ?b))" using m(3,5) by simp
  have drained: "try_read r (ring_of ?b) = (pending r (ring_of ?b), ?ch)" by (rule try_read_eq [OF lh])
  have ro: "ring_ok (ring_of ?b)" using ok by (simp add: bus_ok_def)
  note kp = try_read_keeps [OF ro drained]
  have "\<forall>f\<in>set (pending r (ring_of ?b)). length f \<le> frame_size" using pending_length [OF ro] by blast
  from read_frames_ok [OF m(1,2) tmp this]
  obtain u where u: "read_frames pos (nic_at r ?b) tmp (pending r (ring_of ?b)) ?s = Inr u" "node_ok u" "same_layout ?s u"
    by blast
  have b: "b = (set_node r u ?b)\<lparr>ring_of := ?ch\<rparr>" using rd drained u(1) by (simp add: bus_read_def)
  have "nic_at r ?b < length (nics u)" using m(2) u(3) by (simp add: same_layout_def)
  then have bok: "bus_ok b" unfolding b using kp by (intro bus_ok_set_node ok r u(2)) simp_all
  have eff: "n_observers (nics (node_at p b) ! nic_at p ?b) = n_observers (nics (node_at p ?b) ! nic_at p ?b) \<and>
      set (pending p (ring_of b)) \<subseteq> set (pending p (ring_of ?b)) \<and> seen_responses pt p k (v\<lparr>sd_bus := b\<rparr>) \<le> seen_responses pt p k v"
  proof (cases "r = p")
    case False
    then show ?thesis using kp by (simp add: b seen_responses_def obj_at_def)
  next
    case True
    have "\<forall>f\<in>set (pending r (ring_of ?b)). port_frame f" and k: "k < length (consumers ?s)"
      using t c True r by (auto simp: sd_wired_def Let_def consumes_def)
    then obtain ms where ms: "n_observers (nics u ! nic_at r ?b) = [(PROTO, ())]" "mailbox k u = mailbox k ?s @ ms"
        "length (filter (\<lambda>m. response_in (Some m) \<noteq> []) ms) \<le> length (filter (answer_frame pt) (pending r (ring_of ?b)))"
      using frames_heard [OF m(1,2), of "pending r (ring_of ?b)" tmp k pt pos] c tmp True u(1)
      by (auto simp: consumes_def)
    have "pending r ?ch = []" using lh by (simp add: pending_def backlog_def)
    then show ?thesis using ms c True r by (simp add: b seen_responses_def obj_at_def consumes_def)
  qed
  have "same_layout (node_at q ?b) (node_at q b)" for q using u(3) r by (cases "q = r") (simp_all add: b)
  then have wir: "keeps_wiring p v (v\<lparr>sd_bus := b\<rparr>)" using eff by (simp add: keeps_wiring_def b obj_at_def)
  have "tracked pt p k (v\<lparr>sd_bus := b\<rparr>)"
    using tracked_step [OF tr wir] bok eff t by auto
  with wir eff show ?thesis by simp
qed

text \<open>A turn takes a message and may count it.\<close>

lemma take_tracked:
  assumes tr: "tracked pt p k v" and r: "r < length (members (sd_bus v))" and l: "l < length (sd_objs v ! r)"
    and tk: "sd_take l (node_at r (sd_bus v)) = Inr (got, t)" and kind: "is_consumer ob = is_consumer (obj_at r l v)"
    and cnt: "the_count ob = the_count (obj_at r l v) + (if is_consumer ob \<and> response_in got \<noteq> [] then 1 else 0)"
  defines "w \<equiv> set_obj r l ob (v\<lparr>sd_bus := set_node r t (sd_bus v)\<rparr>)"
  shows "tracked pt p k w \<and> keeps_wiring p v w \<and> seen_responses pt p k w \<le> seen_responses pt p k v"
proof -
  note t = tr [unfolded tracked_def]
  let ?b = "sd_bus v"
  let ?s = "node_at r ?b"
  have ok: "bus_ok ?b" and p: "p < length (members ?b)" and c: "consumes pt p k v" using t by (simp_all add: consumes_def)
  have rl: "l < length (consumers ?s)" "r < length (sd_objs v)" using t r l by (auto simp: sd_wired_def Let_def)
  have k: "k < length (consumers ?s)" if "r = p" using t c that r by (auto simp: sd_wired_def Let_def consumes_def)
  have eff: "node_ok t" "\<And>n. still n 0 ?s t" "got = (case mailbox l ?s of [] \<Rightarrow> None | m # ms \<Rightarrow> Some m)"
    by (rule sd_take_any [OF bus_ok_member(1) [OF ok r] rl(1) rl(1)]; use tk in simp)+
  have mb: "mailbox k t = (if k = l then tl (mailbox k ?s) else mailbox k ?s)" if "r = p"
    by (rule sd_take_any [OF bus_ok_member(1) [OF ok r] rl(1) k [OF that]]) (use tk in simp)
  have bus: "sd_bus w = set_node r t ?b" by (simp add: w_def)
  have bok: "bus_ok (sd_bus w)" unfolding bus by (rule bus_ok_take [OF ok r eff(1,2)])
  have ob: "obj_at r l w = ob" "\<And>q j. (q, j) \<noteq> (r, l) \<Longrightarrow> obj_at q j w = obj_at q j v"
    using rl(2) l by (simp_all add: w_def)
  have "same_layout (node_at q ?b) (node_at q (sd_bus w))" for q
    using eff(2) [of 0] r by (cases "q = r") (simp_all add: bus still_def)
  moreover have "n_observers (nics (node_at p (sd_bus w)) ! nic_at p ?b) = n_observers (nics (node_at p ?b) ! nic_at p ?b)"
    using eff(2) [of "nic_at p ?b"] r by (cases "p = r") (simp_all add: bus still_def)
  moreover have "is_consumer (obj_at q j w) = is_consumer (obj_at q j v)" for q j
    using ob kind by (cases "(q, j) = (r, l)") auto
  ultimately have wir: "keeps_wiring p v w"
    by (simp add: keeps_wiring_def bus) (simp add: w_def)
  have ring: "ring_of (sd_bus w) = ring_of ?b" by (simp add: bus)
  have "the_count (obj_at p k v) \<le> the_count (obj_at p k w)" using ob cnt by (cases "(p, k) = (r, l)") auto
  then have tw: "tracked pt p k w" using tracked_step [OF tr wir bok] t by (simp add: ring)
  have "the_count (obj_at p k w) + int (length (filter (\<lambda>m. response_in (Some m) \<noteq> []) (mailbox k (node_at p (sd_bus w))))) \<le>
      the_count (obj_at p k v) + int (length (filter (\<lambda>m. response_in (Some m) \<noteq> []) (mailbox k (node_at p ?b))))"
  proof (cases "(p, k) = (r, l)")
    case False
    then show ?thesis using ob(2) [OF False] mb r by (cases "p = r") (auto simp: bus)
  next
    case True
    then show ?thesis
      using ob(1) cnt mb eff(3) r
      by (cases "mailbox k ?s") (auto simp: bus response_in_def split: if_splits)
  qed
  then have "seen_responses pt p k w \<le> seen_responses pt p k v" by (simp add: seen_responses_def ring)
  with tw wir show ?thesis by simp
qed

section \<open>Runs\<close>

text \<open>What the program takes care of when it calls an operation.\<close>

fun sd_op_ok :: "sd_sys \<Rightarrow> sd_op \<Rightarrow> bool" where
  "sd_op_ok v (Sd_Start r l pos ts junk) \<longleftrightarrow> r < length (members (sd_bus v)) \<and> l < length (sd_objs v ! r)"
| "sd_op_ok v (Sd_Read r pos tmp) \<longleftrightarrow> r < length (members (sd_bus v)) \<and> length tmp = frame_size"
| "sd_op_ok v (Sd_Turn r l pos ts ts2 junk) \<longleftrightarrow> r < length (members (sd_bus v)) \<and> l < length (sd_objs v ! r)"
| "sd_op_ok v (Sd_Respond r l j pos ts junk x) \<longleftrightarrow> r < length (members (sd_bus v)) \<and> l < length (sd_objs v ! r)"

text \<open>The responses that producers send on a port.\<close>

fun responds_on :: "u16 \<Rightarrow> sd_sys \<Rightarrow> sd_op \<Rightarrow> bool" where
  "responds_on pt v (Sd_Respond r l j pos ts junk x) \<longleftrightarrow> port_at r l v = pt \<and> \<not> is_consumer (obj_at r l v)"
| "responds_on pt v _ \<longleftrightarrow> False"

lemma turn_out:
  assumes "isd_turn fadd pos ts ts2 junk got ob = (out, ob')"
  shows "\<forall>m\<in>set out. message_ok m \<and> 0 < m_size m \<and> \<not> answers (msg_bytes m)"
  using assms
  by (auto simp: isd_turn_def Let_def sent_interest(1,2) interest_no_answer split: option.splits if_splits)

lemma turn_tracked:
  assumes tr: "tracked pt p k v" and r: "r < length (members (sd_bus v))" and l: "l < length (sd_objs v ! r)"
    and tn: "sd_turn fadd r l pos ts ts2 junk v = Inr w"
  shows "tracked pt p k w \<and> keeps_wiring p v w \<and> seen_responses pt p k w \<le> seen_responses pt p k v"
proof -
  obtain got t where tk: "sd_take l (node_at r (sd_bus v)) = Inr (got, t)"
    using tn by (cases "sd_take l (node_at r (sd_bus v))") (auto simp: sd_turn_def)
  let ?v = "v\<lparr>sd_bus := set_node r t (sd_bus v)\<rparr>"
  show ?thesis
  proof (cases "obj_at r l v")
    case (Producer d)
    then have "w = set_obj r l (Producer (rsd_turn got d)) ?v" using tn tk by (simp add: sd_turn_def Let_def)
    then show ?thesis
      using take_tracked [OF tr r l tk, of "Producer (rsd_turn got d)"] Producer by (simp add: is_consumer_def the_count_def)
  next
    case (Consumer ob)
    obtain out ob' where o: "isd_turn fadd pos ts ts2 junk got ob = (out, ob')" by fastforce
    let ?w = "set_obj r l (Consumer ob') ?v"
    have sa: "sd_send_all r pos l out ?w = Inr w" using tn tk Consumer o by (simp add: sd_turn_def Let_def)
    have "length (response_in got) \<le> 1" by (auto simp: response_in_def Let_def split: option.split)
    then have "response_count ob' = response_count ob + (if response_in got \<noteq> [] then 1 else 0)"
      using isd_turn_statistics [OF o] by (cases "response_in got") auto
    then have st: "tracked pt p k ?w" "keeps_wiring p v ?w" "seen_responses pt p k ?w \<le> seen_responses pt p k v"
      using take_tracked [OF tr r l tk, of "Consumer ob'"] Consumer by (simp_all add: is_consumer_def the_count_def)
    have "r < length (members (sd_bus ?w))" "l < length (sd_objs ?w ! r)" using st(2) r l by (simp_all add: keeps_wiring_def)
    from send_all_tracked [OF st(1) this turn_out [OF o] sa] st(2,3) show ?thesis
      using keeps_wiring_trans by auto
  qed
qed

lemma op_tracked:
  assumes tr: "tracked pt p k v" and ok: "sd_op_ok v op" and ex: "sd_exec fadd to_double op v = Inr w"
  shows "tracked pt p k w \<and> keeps_wiring p v w \<and>
    seen_responses pt p k w \<le> seen_responses pt p k v + (if responds_on pt v op then 1 else 0)"
proof (cases op)
  case (Sd_Start r l pos ts junk)
  show ?thesis
  proof (cases "obj_at r l v")
    case (Consumer ob)
    then have "sd_send_all r pos l [send_interest pos ts junk ob] v = Inr w" using ex Sd_Start by (simp add: sd_start_def)
    from send_all_tracked [OF tr _ _ _ this] show ?thesis
      using ok Sd_Start sent_interest(1,2) interest_no_answer by simp
  next
    case (Producer d)
    then show ?thesis using tr ex Sd_Start by (simp add: sd_start_def keeps_wiring_refl)
  qed
next
  case (Sd_Read r pos tmp)
  then obtain b where b: "bus_read r pos tmp (sd_bus v) = Inr b" "w = v\<lparr>sd_bus := b\<rparr>"
    using ex by (auto split: sum.splits)
  from read_tracked [OF tr _ _ b(1)] show ?thesis using ok Sd_Read b(2) by simp
next
  case (Sd_Turn r l pos ts ts2 junk)
  then have "sd_turn fadd r l pos ts ts2 junk v = Inr w" using ex by simp
  from turn_tracked [OF tr _ _ this] show ?thesis using ok Sd_Turn by simp
next
  case (Sd_Respond r l j pos ts junk x)
  then obtain d b where d: "obj_at r l v = Producer d" and
    b: "bus_send r pos l (send_response to_double x pos ts junk d) (sd_bus v) = Inr b" "w = v\<lparr>sd_bus := b\<rparr>"
    using ex by (auto simp: sd_respond_def split: sd_obj.splits if_splits sum.splits)
  then have "\<not> is_consumer (obj_at r l v)" by (simp add: is_consumer_def)
  with send_tracked [OF tr _ _ sent_response(1,2) b(1)] show ?thesis
    using ok Sd_Respond b(2) by (auto split: if_splits)
qed

lemma run_tracked:
  assumes "tracked pt p k v" and "\<forall>op\<in>set ops. sd_op_ok v op" and "run_all (sd_exec fadd to_double) ops v = Inr w"
  shows "tracked pt p k w \<and> seen_responses pt p k w \<le> seen_responses pt p k v + int (length (filter (responds_on pt v) ops))"
  using assms
proof (induction ops arbitrary: v)
  case Nil
  then show ?case by simp
next
  case (Cons op ops)
  obtain u where u: "sd_exec fadd to_double op v = Inr u" "run_all (sd_exec fadd to_double) ops u = Inr w"
    using Cons.prems(3) by (auto split: sum.splits)
  have st: "tracked pt p k u" "keeps_wiring p v u" "seen_responses pt p k u \<le> seen_responses pt p k v + (if responds_on pt v op then 1 else 0)"
    using op_tracked [OF Cons.prems(1) _ u(1)] Cons.prems(2) by simp_all
  have same: "sd_op_ok u x" "responds_on pt u x = responds_on pt v x" if "sd_op_ok v x" for x
    using st(2) that keeps_wiring_port [OF st(2)] by (cases x; simp add: keeps_wiring_def)+
  have "filter (responds_on pt u) ops = filter (responds_on pt v) ops"
    using Cons.prems(2) same(2) by (intro filter_cong) auto
  moreover have "\<forall>op\<in>set ops. sd_op_ok u op" using Cons.prems(2) same(1) by simp
  ultimately show ?case using Cons.IH [OF st(1) _ u(2)] st(3) by (auto split: if_splits)
qed

section \<open>The vehicle\<close>

text \<open>The operations by which the components that measure \<open>q\<close> send a response.\<close>

fun responds_for :: "quantity \<Rightarrow> component list \<Rightarrow> sd_op \<Rightarrow> bool" where
  "responds_for q cs (Sd_Respond (Suc r) l j pos ts junk x) \<longleftrightarrow> add_smart_datas (cs ! r) ! l = Responsive q"
| "responds_for q cs _ \<longleftrightarrow> False"

text \<open>A component's SmartData in the vehicle at its start.\<close>

lemma component_sd:
  fixes ts :: timespec
  assumes "length mac = 6" and "length rs_mac = 6" and "length cs < PROCS" and "i < length cs"
    and "k < length (add_smart_datas (cs ! i))"
  defines "v \<equiv> vehicle_system mac rs_mac cs ts" and "sds \<equiv> add_smart_datas (cs ! i)"
  defines "s \<equiv> node_at (Suc i) (sd_bus v)" and "n \<equiv> nic_at (Suc i) (sd_bus v)"
  shows "distinct (p_nics s)" and "n \<in> set (p_nics s)" and "k < length (comms s)" and "k < length (consumers s)"
    and "port_at (Suc i) k v = kind_port (sds ! k)" and "kind_port (sds ! k) \<noteq> 0"
    and "n_observers (nics s ! n) = [(PROTO, ())]" and "mailbox k s = []" and "backlog (Suc i) (ring_of (sd_bus v)) = 0"
    and "obj_at (Suc i) k v = sd_obj_new ts (sds ! k)"
proof -
  have rd: "sd_ready (kind_port (sds ! k)) 0 0 0 (Suc i) k v"
    unfolding v_def sds_def by (rule component_ready [OF assms(1-5)]) simp
  note rd = rd [unfolded sd_ready_def Let_def can_hear_def, folded s_def n_def]
  then show "distinct (p_nics s)" and "n \<in> set (p_nics s)" and "k < length (comms s)" and "k < length (consumers s)"
    and "port_at (Suc i) k v = kind_port (sds ! k)" and "n_observers (nics s ! n) = [(PROTO, ())]"
    and "mailbox k s = []" and "backlog (Suc i) (ring_of (sd_bus v)) = 0"
    by (simp_all add: port_at_def s_def)
  show "kind_port (sds ! k) \<noteq> 0"
    using ports_of_component(2) [of "cs ! i"] assms(5) unfolding sds_def by (metis length_map nth_map nth_mem)
  show "obj_at (Suc i) k v = sd_obj_new ts (sds ! k)" using assms(4,5) by (simp add: v_def sds_def obj_at_def vehicle_member)
qed

text \<open>Only its port's messages reach a queue.\<close>

lemma component_routing:
  assumes "i < length cs" and "k < length (add_smart_datas (cs ! i))"
  shows "count_list (routing (node_at (Suc i) (sd_bus (vehicle_system mac rs_mac cs ts))) x) k \<le>
    (if x = kind_port (add_smart_datas (cs ! i) ! k) then 1 else 0)"
proof -
  let ?sds = "add_smart_datas (cs ! i)"
  have "cs ! i \<noteq> Time_Client" using assms(2) by auto
  moreover have "routing (component_boot mac (cs ! i)) x = rev (filter (\<lambda>k. kind_port (?sds ! k) = x) [0..<length ?sds])"
    using sds_wiring [of "proto_new 0 (process [mac])" mac ?sds]
    by (simp add: component_boot_def proto_new_def proto_attach_nic_def process_def)
  moreover have "count_list (rev (filter (\<lambda>j. kind_port (?sds ! j) = kind_port (?sds ! k)) [0..<length ?sds])) k = 1"
    by (rule one_of_distinct [OF ports_of_component(1) assms(2)])
  moreover have "count_list (rev (filter (\<lambda>j. kind_port (?sds ! j) = x) [0..<length ?sds])) k = 0"
    if "x \<noteq> kind_port (?sds ! k)" using that by (simp add: count_list_0_iff)
  ultimately show ?thesis using assms(1) by (simp add: vehicle_member child_boot_def)
qed

lemma vehicle_tracked:
  fixes ts :: timespec
  assumes "length mac = 6" and "length rs_mac = 6" and "length cs < PROCS" and "p < length cs"
    and "k < length (add_smart_datas (cs ! p))" and "add_smart_datas (cs ! p) ! k = Interested q period"
  defines "v \<equiv> vehicle_system mac rs_mac cs ts" and "pt \<equiv> unit_port (unit_code q)"
  shows "tracked pt (Suc p) k v" and "seen_responses pt (Suc p) k v = 0"
proof -
  note sd = component_sd(1-5,7-10) [OF assms(1-3), where ts = ts, folded v_def]
  let ?sds = "add_smart_datas (cs ! p)"
  have ln: "length (members (sd_bus v)) = Suc (length cs)" "length (sd_objs v) = Suc (length cs)"
    "length (sd_objs v ! Suc i) = length (add_smart_datas (cs ! i))" "sd_objs v ! 0 = []" if "i < length cs" for i
    using that by (simp_all add: v_def vehicle_lengths vehicle_member) (simp add: vehicle_system_eq)
  have "sd_wired v"
    unfolding sd_wired_def Let_def
  proof (intro conjI allI impI)
    show "length (sd_objs v) = length (members (sd_bus v))" using ln assms(4) by simp
    fix r l assume rl: "r < length (members (sd_bus v))" "l < length (sd_objs v ! r)"
    then obtain i where "r = Suc i" "i < length cs" using ln assms(4) by (cases r) auto
    with rl ln(3) sd [of i l] component_sd(6) [OF assms(1-3), of i l] show "distinct (p_nics (node_at r (sd_bus v)))"
      "nic_at r (sd_bus v) \<in> set (p_nics (node_at r (sd_bus v)))" "l < length (comms (node_at r (sd_bus v)))"
      "l < length (consumers (node_at r (sd_bus v)))" "port_at r l v \<noteq> 0" by simp_all
  qed
  moreover have ob: "obj_at (Suc p) k v = Consumer (isd_new (unit_code q) period ts)"
    using sd(9) [OF assms(4,5)] assms(6) by simp
  moreover have "port_at (Suc p) l v \<noteq> pt" if "l < length ?sds" "\<not> is_consumer (obj_at (Suc p) l v)" for l
  proof -
    have "l \<noteq> k" using that ob by (auto simp: is_consumer_def)
    then have "kind_port (?sds ! l) \<noteq> kind_port (?sds ! k)"
      using nth_eq_iff_index_eq [OF ports_of_component(1) [of "cs ! p"], of l k] that(1) assms(5) by simp
    then show ?thesis using sd(5) [OF assms(4) that(1)] assms(6) by (simp add: pt_def)
  qed
  then have "consumes pt (Suc p) k v"
    using ln assms(4,5) ob sd(6) [OF assms(4,5)] component_routing [OF assms(4,5), of mac rs_mac ts] assms(6)
    by (simp add: consumes_def is_consumer_def pt_def v_def)
  moreover have pend: "pending (Suc p) (ring_of (sd_bus v)) = []" using sd(8) [OF assms(4,5)] by (simp add: pending_def)
  ultimately show "tracked pt (Suc p) k v"
    using vehicle_bus_ok [OF assms(1-3)] by (simp add: tracked_def v_def the_count_def isd_new_def)
  show "seen_responses pt (Suc p) k v = 0"
    using sd(7) [OF assms(4,5)] ob pend by (simp add: seen_responses_def the_count_def isd_new_def)
qed

text \<open>An operation stops the run only by waiting for a reader or because its thread does not exist.\<close>

lemma send_all_safe:
  assumes "tracked pt p k v" and "r < length (members (sd_bus v))" and "l < length (sd_objs v ! r)"
    and "\<forall>m\<in>set ms. message_ok m \<and> 0 < m_size m \<and> (answers (msg_bytes m) \<longrightarrow> \<not> is_consumer (obj_at r l v))"
    and "sd_send_all r pos l ms v = Inl e"
  shows "e = On_Bus Waits"
  using assms
proof (induction ms arbitrary: v)
  case Nil
  then show ?case by simp
next
  case (Cons m ms)
  have m: "message_ok m" "0 < m_size m" "answers (msg_bytes m) \<Longrightarrow> \<not> is_consumer (obj_at r l v)"
    using Cons.prems(4) by simp_all
  have "l < length (comms (node_at r (sd_bus v)))" and ok: "bus_ok (sd_bus v)"
    using Cons.prems(1-3) by (auto simp: tracked_def sd_wired_def Let_def)
  then have "bus_op_ok (Bus_Send r pos l m) (sd_bus v)" using Cons.prems(2) m(1) by simp
  from bus_exec_ok [OF ok this] consider "bus_send r pos l m (sd_bus v) = Inl Waits"
    | b where "bus_send r pos l m (sd_bus v) = Inr b" by auto
  then show ?case
  proof cases
    case 1
    then show ?thesis using Cons.prems(5) by simp
  next
    case (2 b)
    have st: "tracked pt p k (v\<lparr>sd_bus := b\<rparr>)" "keeps_wiring p v (v\<lparr>sd_bus := b\<rparr>)"
      using send_tracked [OF Cons.prems(1-3) m(1,2) 2 m(3)] by simp_all
    have "sd_send_all r pos l ms (v\<lparr>sd_bus := b\<rparr>) = Inl e" using 2 Cons.prems(5) by simp
    then show ?thesis using Cons.prems(2-4) st(2) by (intro Cons.IH [OF st(1)]) (simp_all add: keeps_wiring_def)
  qed
qed

lemma start_safe:
  assumes "tracked pt p k v" and "r < length (members (sd_bus v))" and "l < length (sd_objs v ! r)"
    and "sd_start r l pos ts junk v = Inl e"
  shows "e = On_Bus Waits"
proof (cases "obj_at r l v")
  case (Consumer ob)
  then have "sd_send_all r pos l [send_interest pos ts junk ob] v = Inl e"
    using assms(4) by (simp add: sd_start_def del: sd_send_all.simps)
  then show ?thesis
    by (rule send_all_safe [OF assms(1-3), rotated]) (simp add: sent_interest(1,2) interest_no_answer)
next
  case (Producer d)
  then show ?thesis using assms(4) by (simp add: sd_start_def)
qed

lemma respond_safe:
  assumes "tracked pt p k v" and "r < length (members (sd_bus v))" and "l < length (sd_objs v ! r)"
    and "sd_respond to_double r l j pos ts junk x v = Inl e"
  shows "e = On_Bus Waits \<or> e = No_Such_Thread"
proof (cases "obj_at r l v")
  case (Consumer ob)
  then show ?thesis using assms(4) by (simp add: sd_respond_def)
next
  case (Producer d)
  show ?thesis
  proof (cases "j < length (periodic_threads d)")
    case True
    then have "sd_send_all r pos l [send_response to_double x pos ts junk d] v = Inl e"
      using assms(4) Producer by (simp add: sd_respond_def del: sd_send_all.simps)
    then have "e = On_Bus Waits"
      by (rule send_all_safe [OF assms(1-3), rotated]) (simp add: sent_response(1,2) is_consumer_def Producer)
    then show ?thesis ..
  next
    case False
    then show ?thesis using assms(4) Producer by (simp add: sd_respond_def)
  qed
qed

lemma turn_safe:
  assumes tr: "tracked pt p k v" and r: "r < length (members (sd_bus v))" and l: "l < length (sd_objs v ! r)"
    and ex: "sd_turn fadd r l pos ts ts2 junk v = Inl e"
  shows "e = On_Bus Waits \<or> e = No_Such_Thread"
proof -
  have "bus_ok (sd_bus v)" and lc: "l < length (consumers (node_at r (sd_bus v)))"
    using tr r l by (auto simp: tracked_def sd_wired_def Let_def)
  obtain got t where tk: "sd_take l (node_at r (sd_bus v)) = Inr (got, t)"
    by (rule sd_take_any [OF bus_ok_member(1) [OF \<open>bus_ok (sd_bus v)\<close> r] lc lc])
  show ?thesis
  proof (cases "obj_at r l v")
    case (Consumer ob)
    obtain out ob' where o: "isd_turn fadd pos ts ts2 junk got ob = (out, ob')" by fastforce
    let ?w = "set_obj r l (Consumer ob') (v\<lparr>sd_bus := set_node r t (sd_bus v)\<rparr>)"
    have sa: "sd_send_all r pos l out ?w = Inl e" using ex tk Consumer o by (simp add: sd_turn_def Let_def)
    have "length (response_in got) \<le> 1" by (auto simp: response_in_def Let_def split: option.split)
    then have "response_count ob' = response_count ob + (if response_in got \<noteq> [] then 1 else 0)"
      using isd_turn_statistics [OF o] by (cases "response_in got") auto
    then have st: "tracked pt p k ?w" "keeps_wiring p v ?w"
      using take_tracked [OF tr r l tk, of "Consumer ob'"] Consumer by (simp_all add: is_consumer_def the_count_def)
    have "r < length (members (sd_bus ?w))" "l < length (sd_objs ?w ! r)" using st(2) r l by (simp_all add: keeps_wiring_def)
    from send_all_safe [OF st(1) this _ sa] turn_out [OF o] show ?thesis by simp
  next
    case (Producer d)
    then show ?thesis using ex tk by (simp add: sd_turn_def Let_def)
  qed
qed

lemma op_safe:
  assumes tr: "tracked pt p k v" and ok: "sd_op_ok v op" and ex: "sd_exec fadd to_double op v = Inl e"
  shows "e = On_Bus Waits \<or> e = No_Such_Thread"
proof (cases op)
  case (Sd_Start r l pos ts junk)
  have "r < length (members (sd_bus v))" "l < length (sd_objs v ! r)" using ok Sd_Start by simp_all
  moreover have "sd_start r l pos ts junk v = Inl e" using ex Sd_Start by simp
  ultimately show ?thesis using start_safe [OF tr] by blast
next
  case (Sd_Read r pos tmp)
  then have "bus_op_ok (Bus_Read r pos tmp) (sd_bus v)" using ok by simp
  moreover have "bus_ok (sd_bus v)" using tr by (simp add: tracked_def)
  ultimately have "bus_exec (Bus_Read r pos tmp) (sd_bus v) \<noteq> Inl e'" if "e' \<noteq> Waits" for e'
    using bus_exec_ok that by fastforce
  then show ?thesis using ex Sd_Read by (auto split: sum.splits)
next
  case (Sd_Turn r l pos ts ts2 junk)
  have "r < length (members (sd_bus v))" "l < length (sd_objs v ! r)" using ok Sd_Turn by simp_all
  moreover have "sd_turn fadd r l pos ts ts2 junk v = Inl e" using ex Sd_Turn by simp
  ultimately show ?thesis using turn_safe [OF tr] by blast
next
  case (Sd_Respond r l j pos ts junk x)
  have "r < length (members (sd_bus v))" "l < length (sd_objs v ! r)" using ok Sd_Respond by simp_all
  moreover have "sd_respond to_double r l j pos ts junk x v = Inl e" using ex Sd_Respond by simp
  ultimately show ?thesis using respond_safe [OF tr] by blast
qed

lemma run_safe:
  assumes "tracked pt p k v" and "\<forall>op\<in>set ops. sd_op_ok v op" and "run_all (sd_exec fadd to_double) ops v = Inl e"
  shows "e = On_Bus Waits \<or> e = No_Such_Thread"
  using assms
proof (induction ops arbitrary: v)
  case Nil
  then show ?case by simp
next
  case (Cons op ops)
  have ok: "sd_op_ok v op" using Cons.prems(2) by simp
  show ?case
  proof (cases "sd_exec fadd to_double op v")
    case (Inl x)
    then show ?thesis using op_safe [OF Cons.prems(1) ok Inl] Cons.prems(3) by simp
  next
    case (Inr u)
    note st = op_tracked [OF Cons.prems(1) ok Inr]
    have "sd_op_ok u x" if "sd_op_ok v x" for x using st that by (cases x; simp add: keeps_wiring_def)
    then show ?thesis using Cons.IH [of u] st Cons.prems(2,3) Inr by simp
  qed
qed

section \<open>Properties\<close>

text \<open>The quantities of the components have ports of their own.\<close>

lemma quantities_apart:
  assumes "Interested q period \<in> set (add_smart_datas c)" and "Responsive q' \<in> set (add_smart_datas d)"
    and "unit_port (unit_code q) = unit_port (unit_code q')"
  shows "q = q'"
proof -
  let ?qs = "[Temperature, Acceleration, Pressure, Velocity, Current, Voltage]"
  have "distinct (map (\<lambda>q. unit_port (unit_code q)) ?qs)" by code_simp
  then have "inj_on (\<lambda>q. unit_port (unit_code q)) (set ?qs)" by (simp only: distinct_map)
  moreover have "q \<in> set ?qs" using assms(1) by (cases c) auto
  moreover have "q' \<in> set ?qs" using assms(2) by (cases d) auto
  ultimately show ?thesis using assms(3) by (auto dest: inj_onD)
qed

text \<open>
  C4: whatever the processes of a scenario do, in any order and with any delays, a consumer has
  counted no more responses than the components that measure its quantity have sent: none is counted
  twice and nothing else is taken for one, although frames are dropped when buffers are missing, queues
  are filled by the consumer's own frames and slots of the ring are overrun. No operation faults; a run
  ends early only when a send has to wait for a reader or a thread is used that was not started.
\<close>

theorem responses_not_invented:
  assumes "length mac = 6" and "length rs_mac = 6" and "p < length (scenario name)"
    and "k < length (add_smart_datas (scenario name ! p))"
    and "add_smart_datas (scenario name ! p) ! k = Interested q period"
    and "\<forall>op\<in>set ops. sd_op_ok (vehicle_system mac rs_mac (scenario name) ts) op"
  shows "case run_all (sd_exec fadd to_double) ops (vehicle_system mac rs_mac (scenario name) ts) of
      Inl e \<Rightarrow> e = On_Bus Waits \<or> e = No_Such_Thread
    | Inr u \<Rightarrow> bus_ok (sd_bus u) \<and> (\<exists>c. obj_at (Suc p) k u = Consumer c \<and> 0 \<le> response_count c \<and>
        response_count c \<le> int (length (filter (responds_for q (scenario name)) ops)))"
proof -
  let ?cs = "scenario name"
  let ?v = "vehicle_system mac rs_mac ?cs ts"
  let ?pt = "unit_port (unit_code q)"
  have l: "length ?cs < PROCS" by (simp add: scenario_def PROCS_def)
  note tr = vehicle_tracked [OF assms(1,2) l assms(3-5), of ts]
  have on_port: "responds_for q ?cs op" if op: "sd_op_ok ?v op" "responds_on ?pt ?v op" for op
  proof -
    obtain r m j pos t junk x where rm: "op = Sd_Respond r m j pos t junk x" using op(2) by (cases op) auto
    have "r < Suc (length ?cs)" "m < length (sd_objs ?v ! r)" using op(1) rm by (simp_all add: vehicle_lengths)
    then obtain i where i: "r = Suc i" "i < length ?cs" "m < length (add_smart_datas (?cs ! i))"
      by (cases r) (auto simp: vehicle_member(3) vehicle_system_eq)
    note sd = component_sd(5,10) [OF assms(1,2) l i(2,3), where ts = ts]
    obtain q' where q': "add_smart_datas (?cs ! i) ! m = Responsive q'"
      using op(2) rm i(1) sd(2) by (cases "add_smart_datas (?cs ! i) ! m") (auto simp: is_consumer_def)
    have "Interested q period \<in> set (add_smart_datas (?cs ! p))" "Responsive q' \<in> set (add_smart_datas (?cs ! i))"
      using nth_mem [OF assms(4)] nth_mem [OF i(3)] assms(5) q' by simp_all
    from quantities_apart [OF this] have "q = q'" using op(2) rm i(1) sd(1) q' by simp
    then show ?thesis using rm i(1) q' by simp
  qed
  show ?thesis
  proof (cases "run_all (sd_exec fadd to_double) ops ?v")
    case (Inl e)
    then show ?thesis using run_safe [OF tr(1) assms(6) Inl] by simp
  next
    case (Inr u)
    note ru = run_tracked [OF tr(1) assms(6) Inr]
    have "length (filter (responds_on ?pt ?v) ops) \<le> length (filter (responds_for q ?cs) ops)"
      using assms(6) on_port by (induction ops) auto
    then have le: "seen_responses ?pt (Suc p) k u \<le> int (length (filter (responds_for q ?cs) ops))" using ru tr(2) by simp
    obtain c where "obj_at (Suc p) k u = Consumer c"
      using ru by (cases "obj_at (Suc p) k u") (auto simp: tracked_def consumes_def is_consumer_def)
    then show ?thesis
      using ru le Inr by (auto simp: tracked_def the_count_def seen_responses_def)
  qed
qed

theorem responses_not_invented_witness:
  "let mac = replicate 6 0; v = vehicle_system mac mac (scenario ''basic_local'') (0, 0);
       ops = [Sd_Start 2 0 0 (0, 0) blank_message, Sd_Read 1 0 (replicate frame_size 0),
         Sd_Turn 1 0 0 (0, 0) (0, 0) blank_message, Sd_Respond 1 0 0 0 (0, 1) blank_message 7,
         Sd_Read 2 0 (replicate frame_size 0), Sd_Turn 2 0 0 (0, 2) (0, 2) blank_message]
   in case run_all (sd_exec (\<lambda>a b. a) of_int) ops v of
      Inl e \<Rightarrow> e = On_Bus Waits \<or> e = No_Such_Thread
    | Inr u \<Rightarrow> bus_ok (sd_bus u) \<and> (\<exists>c. obj_at (Suc 1) 0 u = Consumer c \<and> 0 \<le> response_count c \<and>
        response_count c \<le> int (length (filter (responds_for Velocity (scenario ''basic_local'')) ops)))"
proof -
  let ?m = "replicate 6 (0 :: byte)"
  have l: "length (scenario ''basic_local'') < PROCS" by (simp add: scenario_def PROCS_def)
  have "length (members (sd_bus (vehicle_system ?m ?m (scenario ''basic_local'') (0, 0)))) = 3"
    "length (sd_objs (vehicle_system ?m ?m (scenario ''basic_local'') (0, 0)) ! 1) = 1"
    "length (sd_objs (vehicle_system ?m ?m (scenario ''basic_local'') (0, 0)) ! 2) = 1"
    by (simp_all add: vehicle_lengths) (simp_all add: vehicle_system_eq scenario_def)
  then show ?thesis
    unfolding Let_def
    by (intro responses_not_invented) (auto simp: scenario_def)
qed

end
